(* ===== verification/Prelude.thy ===== *)
theory Prelude
  imports Main "HOL-Library.Word" "HOL-Library.List_Lexorder" "HOL-Library.Monad_Syntax"
begin

text \<open>
  What the component theories share: byte strings and the little-endian images that the code
  writes with \<open>memcpy\<close> and \<open>append((char*)&n, sizeof n)\<close>, arithmetic on \<open>uint64_t\<close>, array
  reads that may be out of range, \<open>std::string::substr\<close>, decimal numbers in file names, and
  facts about sorted association lists (the abstract value of the ordered containers).

  Conventions of the whole library. A \<open>std::string\<close> is a list of 8-bit words; its
  \<open>operator<\<close> is the lexicographic order on unsigned bytes, which is the order of
  \<open>List_Lexorder\<close> on \<open>8 word list\<close>. A function that can read outside an object, follow a
  null or dangling pointer, throw, fail an \<open>assert\<close>, or never return has an \<open>option\<close> result,
  and \<open>None\<close> stands for all of these; a correctness theorem always says that the result
  is \<open>Some\<close>. A \<open>uint64_t\<close> that is stored, decoded or added to is a natural number below
  \<open>2 ^ 64\<close> with the wrap-around written out.
\<close>

named_theorems codec_simps \<open>lengths and inverses of the byte codecs\<close>
named_theorems store_simps \<open>reads after writes in the stores of the model\<close>

type_synonym byte = "8 word"
type_synonym bytes = "byte list"
type_synonym uint64 = nat
type_synonym path = string

section \<open>Unsigned 64-bit arithmetic\<close>

abbreviation two64 :: nat where "two64 \<equiv> 18446744073709551616"

definition add64 :: "uint64 \<Rightarrow> uint64 \<Rightarrow> uint64" where
  "add64 a b = (a + b) mod two64"

lemma add64_small [simp]: "a + b < two64 \<Longrightarrow> add64 a b = a + b"
  by (simp add: add64_def)

lemma add64_bound: "add64 a b < two64"
  by (simp add: add64_def)

section \<open>Little-endian images\<close>

fun le_bytes :: "nat \<Rightarrow> nat \<Rightarrow> bytes" where
  "le_bytes 0 n = []"
| "le_bytes (Suc w) n = of_nat n # le_bytes w (n div 256)"

fun le_value :: "bytes \<Rightarrow> nat" where
  "le_value [] = 0"
| "le_value (b # bs) = unat b + 256 * le_value bs"

lemma length_le_bytes [simp, codec_simps]: "length (le_bytes w n) = w"
  by (induction w arbitrary: n) auto

lemma unat_of_nat_byte: "unat (of_nat n :: byte) = n mod 256"
  by (simp add: unat_of_nat)

lemma le_value_le_bytes [codec_simps]: "le_value (le_bytes w n) = n mod 256 ^ w"
  by (induction w arbitrary: n) (simp_all add: unat_of_nat_byte mod_mult2_eq)

lemma le_value_bound: "le_value bs < 256 ^ length bs"
proof (induction bs)
  case (Cons b bs)
  have "unat b < 256" using unsigned_less [of b] by simp
  with Cons show ?case by simp
qed simp

lemma le_bytes_le_value: "le_bytes (length bs) (le_value bs) = bs"
proof (induction bs)
  case (Cons b bs)
  have b: "unat b < 256" using unsigned_less [of b] by simp
  have "(of_nat (unat b + 256 * le_value bs) :: byte) = b"
  proof -
    have "(256 :: byte) = 0" by simp
    then show ?thesis by (simp only: of_nat_add of_nat_mult of_nat_numeral) simp
  qed
  with Cons b show ?case by simp
qed simp

text \<open>The image of a \<open>uint64_t\<close>: \<open>append((char*)&n, sizeof(uint64_t))\<close>.\<close>

definition u64_bytes :: "uint64 \<Rightarrow> bytes" where
  "u64_bytes n = le_bytes 8 n"

lemma length_u64_bytes [simp, codec_simps]: "length (u64_bytes n) = 8"
  by (simp add: u64_bytes_def)

lemma le_value_u64 [codec_simps]: "n < two64 \<Longrightarrow> le_value (u64_bytes n) = n"
  by (simp add: u64_bytes_def le_value_le_bytes)

section \<open>Reads that may be out of range\<close>

text \<open>\<open>memcpy(&n, block + off, w)\<close>: undefined when the bytes are not all inside the object.\<close>

definition read_le :: "bytes \<Rightarrow> nat \<Rightarrow> nat \<Rightarrow> nat option" where
  "read_le bs off w = (if off + w \<le> length bs then Some (le_value (take w (drop off bs))) else None)"

abbreviation read_u64 :: "bytes \<Rightarrow> nat \<Rightarrow> uint64 option" where
  "read_u64 bs off \<equiv> read_le bs off 8"

lemma read_le_append:
  assumes "length pre = off" and "length img = w"
  shows "read_le (pre @ img @ post) off w = Some (le_value img)"
  using assms by (auto simp: read_le_def)

lemma read_u64_append [codec_simps]:
  "length pre = off \<Longrightarrow> n < two64 \<Longrightarrow> read_u64 (pre @ u64_bytes n @ post) off = Some n"
  by (simp add: read_le_append le_value_u64)

text \<open>\<open>std::string::substr(pos, n)\<close>: throws when \<open>pos > size()\<close>, clamps the length otherwise.\<close>

definition substr :: "bytes \<Rightarrow> nat \<Rightarrow> nat \<Rightarrow> bytes option" where
  "substr s pos n = (if pos \<le> length s then Some (take n (drop pos s)) else None)"

lemma substr_append [codec_simps]:
  "length pre = pos \<Longrightarrow> length mid = n \<Longrightarrow> substr (pre @ mid @ post) pos n = Some mid"
  by (auto simp: substr_def)

definition nth_opt :: "'a list \<Rightarrow> nat \<Rightarrow> 'a option" where
  "nth_opt xs i = (if i < length xs then Some (xs ! i) else None)"

lemma nth_opt_Some [simp]: "i < length xs \<Longrightarrow> nth_opt xs i = Some (xs ! i)"
  by (simp add: nth_opt_def)

lemma nth_opt_eq_Some: "nth_opt xs i = Some x \<longleftrightarrow> i < length xs \<and> xs ! i = x"
  by (auto simp: nth_opt_def)

section \<open>Decimal numbers in file names\<close>

fun dec_string :: "nat \<Rightarrow> string" where
  "dec_string n =
     (if n < 10 then [char_of (48 + n)] else dec_string (n div 10) @ [char_of (48 + n mod 10)])"

declare dec_string.simps [simp del]

fun dec_value :: "string \<Rightarrow> nat" where
  "dec_value [] = 0"
| "dec_value (c # cs) = (of_char c - 48) * 10 ^ length cs + dec_value cs"

lemma dec_value_snoc: "dec_value (cs @ [c]) = 10 * dec_value cs + (of_char c - 48)"
  by (induction cs) (simp_all add: algebra_simps)

lemma dec_value_dec_string: "dec_value (dec_string n) = n"
proof (induction n rule: dec_string.induct)
  case (1 n)
  then show ?case
    by (cases "n < 10") (simp_all add: dec_string.simps [of n] dec_value_snoc)
qed

lemma dec_string_inject [simp]: "dec_string m = dec_string n \<longleftrightarrow> m = n"
  by (metis dec_value_dec_string)

section \<open>Sorted association lists\<close>

text \<open>
  The value of an ordered container is the list of its pairs with strictly increasing keys.
  \<open>al_upd\<close> and \<open>al_del\<close> are the specifications of insertion and deletion on such a list.
\<close>

type_synonym kvs = "(bytes \<times> bytes) list"

abbreviation sorted_kvs :: "kvs \<Rightarrow> bool" where
  "sorted_kvs ps \<equiv> sorted_wrt (\<lambda>p q. fst p < fst q) ps"

fun al_upd :: "bytes \<Rightarrow> bytes \<Rightarrow> kvs \<Rightarrow> kvs" where
  "al_upd k v [] = [(k, v)]"
| "al_upd k v (p # ps) =
     (if fst p < k then p # al_upd k v ps
      else if fst p = k then (k, v) # ps else (k, v) # p # ps)"

fun al_del :: "bytes \<Rightarrow> kvs \<Rightarrow> kvs" where
  "al_del k [] = []"
| "al_del k (p # ps) = (if fst p = k then ps else p # al_del k ps)"

lemma map_of_al_upd [store_simps]: "map_of (al_upd k v ps) = (map_of ps)(k \<mapsto> v)"
  by (induction ps) (auto simp: fun_eq_iff)

lemma map_of_al_del [store_simps]: "sorted_kvs ps \<Longrightarrow> map_of (al_del k ps) = (map_of ps)(k := None)"
proof (induction ps)
  case (Cons p ps)
  have "fst p = k \<Longrightarrow> map_of ps k = None"
    using Cons.prems by (auto simp: map_of_eq_None_iff)
  with Cons show ?case by (cases p) (auto simp: fun_eq_iff)
qed simp

lemma set_al_upd: "p \<in> set (al_upd k v ps) \<Longrightarrow> p = (k, v) \<or> p \<in> set ps"
  by (induction ps) (auto split: if_splits)

lemma sorted_al_upd: "sorted_kvs ps \<Longrightarrow> sorted_kvs (al_upd k v ps)"
  by (induction ps) (auto dest!: set_al_upd intro: order.strict_trans)

lemma set_al_del: "p \<in> set (al_del k ps) \<Longrightarrow> p \<in> set ps"
  by (induction ps) (auto split: if_splits)

lemma sorted_al_del: "sorted_kvs ps \<Longrightarrow> sorted_kvs (al_del k ps)"
  by (induction ps) (auto dest!: set_al_del)

lemma sorted_kvs_distinct: "sorted_kvs ps \<Longrightarrow> distinct (map fst ps)"
  by (induction ps) (auto simp: image_iff)

lemma al_upd_split:
  assumes "\<forall>p \<in> set as. fst p < k" and "\<forall>p \<in> set bs. k < fst p"
  shows "al_upd k v (as @ bs) = as @ (k, v) # bs"
  using assms by (induction as) (cases bs, auto)

lemma al_upd_split_eq:
  assumes "\<forall>p \<in> set as. fst p < k"
  shows "al_upd k v (as @ (k, w) # bs) = as @ (k, v) # bs"
  using assms by (induction as) auto

lemma al_del_split:
  assumes "\<forall>p \<in> set as. fst p < k"
  shows "al_del k (as @ (k, w) # bs) = as @ bs"
  using assms by (induction as) auto

end
