(* ===== verification/Iterators.thy ===== *)
theory Iterators
  imports Prelude
begin

text \<open>
  The iterator interface, \<open>include/storage/Iterator.h\<close>, as a contract. A provider says when a
  store \<open>s\<close> represents the sorted pairs \<open>ps\<close> and when an iterator stands at position \<open>i\<close> of them,
  \<open>i = length ps\<close> being "no pair"; \<open>it0\<close> is the iterator before a seek, wherever it stood. The loop \<open>for (it.SeekToFirst(); it.Valid(); it.Next())\<close> that the
  clients write is defined once; the lemmas of the locale say that it visits the pairs in order.
\<close>

text \<open>\<open>while (it.Valid()) { body(it.Key(), it.Value()); it.Next(); }\<close>\<close>

partial_function (option) iter_loop ::
  "('it \<Rightarrow> bool) \<Rightarrow> ('it \<Rightarrow> bytes option) \<Rightarrow> ('it \<Rightarrow> bytes option) \<Rightarrow> ('it \<Rightarrow> 'it option) \<Rightarrow>
   (bytes \<Rightarrow> bytes \<Rightarrow> 'st \<Rightarrow> 'st option) \<Rightarrow> 'it \<Rightarrow> 'st \<Rightarrow> 'st option" where
  "iter_loop valid key val nxt body it st =
     (if valid it
      then do {
        k \<leftarrow> key it;
        v \<leftarrow> val it;
        st' \<leftarrow> body k v st;
        it' \<leftarrow> nxt it;
        iter_loop valid key val nxt body it' st' }
      else Some st)"

text \<open>What the loop computes: the body run on each pair, stopping when it fails.\<close>

fun fold_opt :: "(bytes \<Rightarrow> bytes \<Rightarrow> 'st \<Rightarrow> 'st option) \<Rightarrow> kvs \<Rightarrow> 'st \<Rightarrow> 'st option" where
  "fold_opt body [] st = Some st"
| "fold_opt body (p # ps) st = do { st' \<leftarrow> body (fst p) (snd p) st; fold_opt body ps st' }"

lemma fold_opt_append:
  "fold_opt body (ps @ qs) st = do { st' \<leftarrow> fold_opt body ps st; fold_opt body qs st' }"
  by (induction body ps st rule: fold_opt.induct) (auto split: Option.bind_splits)

text \<open>The position of the first pair whose key is not below \<open>k\<close>.\<close>

definition lower_bound :: "kvs \<Rightarrow> bytes \<Rightarrow> nat" where
  "lower_bound ps k = length (takeWhile (\<lambda>p. fst p < k) ps)"

lemma lower_bound_le: "lower_bound ps k \<le> length ps"
  by (simp add: lower_bound_def length_takeWhile_le)

locale forward_iterator =
  fixes at :: "'s \<Rightarrow> kvs \<Rightarrow> nat \<Rightarrow> 'it \<Rightarrow> bool"
    and rep :: "'s \<Rightarrow> kvs \<Rightarrow> bool"
    and valid :: "'s \<Rightarrow> 'it \<Rightarrow> bool"
    and seek_to_first :: "'s \<Rightarrow> 'it \<Rightarrow> 'it option"
    and seek :: "'s \<Rightarrow> bytes \<Rightarrow> 'it \<Rightarrow> 'it option"
    and nxt :: "'s \<Rightarrow> 'it \<Rightarrow> 'it option"
    and key :: "'s \<Rightarrow> 'it \<Rightarrow> bytes option"
    and val :: "'s \<Rightarrow> 'it \<Rightarrow> bytes option"
  assumes first_at: "rep s ps \<Longrightarrow> \<exists>it. seek_to_first s it0 = Some it \<and> at s ps 0 it"
    and seek_at: "rep s ps \<Longrightarrow> ps \<noteq> [] \<Longrightarrow> \<exists>it. seek s k it0 = Some it \<and> at s ps (lower_bound ps k) it"
    and valid_at: "at s ps i it \<Longrightarrow> valid s it \<longleftrightarrow> i < length ps"
    and next_at: "at s ps i it \<Longrightarrow> i < length ps \<Longrightarrow> \<exists>it'. nxt s it = Some it' \<and> at s ps (Suc i) it'"
    and key_at_pos: "at s ps i it \<Longrightarrow> i < length ps \<Longrightarrow> key s it = Some (fst (ps ! i))"
    and val_at_pos: "at s ps i it \<Longrightarrow> i < length ps \<Longrightarrow> val s it = Some (snd (ps ! i))"
begin

lemma loop_from:
  assumes "at s ps i it" and "i \<le> length ps"
  shows "iter_loop (valid s) (key s) (val s) (nxt s) body it st = fold_opt body (drop i ps) st"
  using assms
proof (induction "length ps - i" arbitrary: i it st)
  case 0
  then show ?case by (subst iter_loop.simps) (simp add: valid_at)
next
  case (Suc n)
  then have i: "i < length ps" by simp
  obtain it' where it': "nxt s it = Some it'" "at s ps (Suc i) it'"
    using next_at [OF Suc.prems(1) i] by blast
  have IH: "iter_loop (valid s) (key s) (val s) (nxt s) body it' st' = fold_opt body (drop (Suc i) ps) st'" for st'
    using Suc.hyps(1) [OF _ it'(2)] Suc.hyps(2) i by auto
  have "drop i ps = ps ! i # drop (Suc i) ps"
    using i by (simp add: Cons_nth_drop_Suc)
  then show ?case
    using i Suc.prems(1) it'(1) IH
    by (subst iter_loop.simps) (simp add: valid_at key_at_pos val_at_pos)
qed

lemma loop_all:
  assumes "rep s ps"
  shows "do { it \<leftarrow> seek_to_first s it0; iter_loop (valid s) (key s) (val s) (nxt s) body it st } =
    fold_opt body ps st"
  using first_at [OF assms, of it0] loop_from [of s ps 0] by auto

lemma loop_seek:
  assumes "rep s ps" and "ps \<noteq> []"
  shows "do { it \<leftarrow> seek s k it0; iter_loop (valid s) (key s) (val s) (nxt s) body it st } =
    fold_opt body (drop (lower_bound ps k) ps) st"
  using seek_at [OF assms, of k it0] loop_from [of s ps "lower_bound ps k"] lower_bound_le [of ps k]
  by auto

end

text \<open>An iterator that also walks backwards.\<close>

locale bidirectional_iterator = forward_iterator +
  fixes seek_to_last :: "'a \<Rightarrow> 'b \<Rightarrow> 'b option"
    and prev :: "'a \<Rightarrow> 'b \<Rightarrow> 'b option"
  assumes last_at: "rep s ps \<Longrightarrow> ps \<noteq> [] \<Longrightarrow> \<exists>it. seek_to_last s it0 = Some it \<and> at s ps (length ps - 1) it"
    and prev_step: "at s ps (Suc i) it \<Longrightarrow> Suc i < length ps \<Longrightarrow> \<exists>it'. prev s it = Some it' \<and> at s ps i it'"
begin

lemma prev_undoes_next:
  assumes "at s ps i it" and "Suc i < length ps"
  shows "\<exists>it'. do { n \<leftarrow> nxt s it; prev s n } = Some it' \<and> at s ps i it'"
proof -
  obtain n where n: "nxt s it = Some n" "at s ps (Suc i) n"
    using next_at [OF assms(1)] assms(2) by auto
  with prev_step [OF n(2) assms(2)] show ?thesis by auto
qed

lemma last_key:
  assumes "rep s ps" and "ps \<noteq> []"
  shows "do { it \<leftarrow> seek_to_last s it0; key s it } = Some (fst (last ps))"
  using last_at [OF assms, of it0] key_at_pos [of s ps "length ps - 1"] assms(2)
  by (auto simp: last_conv_nth)

end

end
