(* ===== verification/BlockFormat.thy ===== *)
theory BlockFormat
  imports Iterators
begin

text \<open>
  The on-disk block: \<open>BlockBuilder\<close> writes it, \<open>Block\<close> and \<open>Block::Iter\<close> read it
  (\<open>src/storage/BlockBuilder.cpp\<close>, \<open>src/storage/Block.cpp\<close> and their headers, \<open>Option.cpp\<close> for the
  interval). A block is the pairs, each with its key and value sizes in front, then the number of
  restart points, the restart points, and the offset at which the pairs end.

  \<open>block_rep b ps\<close>: \<open>b\<close> was parsed from the image of the sorted pairs \<open>ps\<close>. The lemmas say that
  the image survives the round trip, that \<open>get\<close> is the lookup and that the iterator satisfies the
  contract of \<open>Iterators\<close>, all without an assertion failing or a read outside the block.
\<close>

section \<open>The builder\<close>

record block_builder =
  bb_buffer :: bytes
  bb_last_key :: bytes
  bb_restarts :: "uint64 list"
  bb_counter :: nat
  bb_finished :: bool

definition restart_interval :: nat where
  "restart_interval = 20"

definition bb_new :: block_builder where
  "bb_new = \<lparr>bb_buffer = [], bb_last_key = [], bb_restarts = [0], bb_counter = 0, bb_finished = False\<rparr>"

definition bb_empty :: "block_builder \<Rightarrow> bool" where
  "bb_empty bb \<longleftrightarrow> bb_buffer bb = []"

definition bb_add :: "bytes \<Rightarrow> bytes \<Rightarrow> block_builder \<Rightarrow> block_builder option" where
  "bb_add key val bb =
     (if bb_finished bb \<or> bb_counter bb > restart_interval \<or> \<not> (bb_empty bb \<or> key > bb_last_key bb)
      then None
      else
        let bb1 = (if bb_counter bb = restart_interval
                   then bb\<lparr>bb_restarts := bb_restarts bb @ [length (bb_buffer bb)], bb_counter := 0\<rparr>
                   else bb)
        in Some (bb1\<lparr>bb_buffer := bb_buffer bb1 @ u64_bytes (length key) @ key @ u64_bytes (length val) @ val,
                     bb_last_key := key,
                     bb_counter := bb_counter bb1 + 1\<rparr>))"

definition bb_finish :: "block_builder \<Rightarrow> bytes \<times> block_builder" where
  "bb_finish bb =
     (let restarts_position = length (bb_buffer bb);
          num = length (bb_restarts bb);
          buf = bb_buffer bb @ u64_bytes num @ concat (map u64_bytes (bb_restarts bb)) @
                u64_bytes restarts_position
      in (buf, bb\<lparr>bb_buffer := buf, bb_finished := True\<rparr>))"

definition bb_reset :: "block_builder \<Rightarrow> block_builder" where
  "bb_reset bb =
     bb\<lparr>bb_buffer := [], bb_restarts := [0], bb_counter := 0, bb_last_key := [], bb_finished := False\<rparr>"

definition bb_estimated_size :: "block_builder \<Rightarrow> nat" where
  "bb_estimated_size bb = length (bb_buffer bb) + length (bb_restarts bb) * 8 + 8 * 2"

section \<open>The reader\<close>

record block =
  bk_content :: bytes
  bk_restart_offset :: uint64
  bk_restart_size :: uint64
  bk_restarts :: "uint64 list"

text \<open>\<open>for (i = start; i < end; i += 8) restarts_.push_back(...)\<close>\<close>

partial_function (option) read_restarts :: "bytes \<Rightarrow> uint64 \<Rightarrow> uint64 \<Rightarrow> uint64 list \<Rightarrow> uint64 list option" where
  "read_restarts content i e acc =
     (if i < e
      then do {
        r \<leftarrow> read_u64 content i;
        read_restarts content (add64 i 8) e (acc @ [r]) }
      else Some acc)"

definition block_new :: "bytes \<Rightarrow> block option" where
  "block_new content =
     (if length content < 8 then None
      else do {
        off \<leftarrow> read_u64 content (length content - 8);
        num \<leftarrow> read_u64 content off;
        rs \<leftarrow> read_restarts content (add64 off 8) (length content - 8) [];
        Some \<lparr>bk_content = content, bk_restart_offset = off, bk_restart_size = num, bk_restarts = rs\<rparr> })"

partial_function (option) block_get_loop :: "block \<Rightarrow> bytes \<Rightarrow> uint64 \<Rightarrow> (bool \<times> bytes) option" where
  "block_get_loop b key pos =
     (if pos < bk_restart_offset b
      then do {
        key_size \<leftarrow> read_u64 (bk_content b) pos;
        let value_offset = add64 (add64 pos 8) key_size;
        value_size \<leftarrow> read_u64 (bk_content b) value_offset;
        s \<leftarrow> substr (bk_content b) (add64 pos 8) key_size;
        (if s = key
         then map_option (\<lambda>v. (True, v)) (substr (bk_content b) (add64 value_offset 8) value_size)
         else block_get_loop b key (add64 (add64 value_offset value_size) 8)) }
      else Some (False, []))"

definition block_get :: "block \<Rightarrow> bytes \<Rightarrow> (bool \<times> bytes) option" where
  "block_get b key = block_get_loop b key 0"

section \<open>The iterator\<close>

record block_iter =
  bi_current :: uint64
  bi_cur_key :: bytes
  bi_cur_value :: bytes

definition bi_new :: "block \<Rightarrow> block_iter" where
  "bi_new b = \<lparr>bi_current = bk_restart_offset b, bi_cur_key = [], bi_cur_value = []\<rparr>"

definition bi_valid :: "block \<Rightarrow> block_iter \<Rightarrow> bool" where
  "bi_valid b it \<longleftrightarrow> bi_current it < bk_restart_offset b"

definition extract_keyvalue :: "block \<Rightarrow> block_iter \<Rightarrow> block_iter option" where
  "extract_keyvalue b it =
     (if \<not> bi_valid b it then None
      else do {
        key_size \<leftarrow> read_u64 (bk_content b) (bi_current it);
        k \<leftarrow> substr (bk_content b) (add64 (bi_current it) 8) key_size;
        let value_offset = add64 (add64 (bi_current it) 8) key_size;
        value_size \<leftarrow> read_u64 (bk_content b) value_offset;
        v \<leftarrow> substr (bk_content b) (add64 value_offset 8) value_size;
        Some (it\<lparr>bi_cur_key := k, bi_cur_value := v\<rparr>) })"

definition bi_advance :: "block_iter \<Rightarrow> uint64" where
  "bi_advance it = add64 (bi_current it) (8 * 2 + length (bi_cur_key it) + length (bi_cur_value it))"

definition bi_next :: "block \<Rightarrow> block_iter \<Rightarrow> block_iter option" where
  "bi_next b it =
     (let it1 = it\<lparr>bi_current := bi_advance it\<rparr>
      in if bi_valid b it1 then extract_keyvalue b it1 else Some it1)"

definition bi_seek_to_first :: "block \<Rightarrow> block_iter \<Rightarrow> block_iter option" where
  "bi_seek_to_first b it =
     (let it1 = it\<lparr>bi_current := 0\<rparr>
      in if bi_valid b it1 then extract_keyvalue b it1 else Some it1)"

text \<open>The \<open>while(true)\<close> of \<open>SeekToLast\<close>.\<close>

partial_function (option) last_loop :: "block \<Rightarrow> block_iter \<Rightarrow> block_iter option" where
  "last_loop b it =
     (if bi_advance it \<ge> bk_restart_offset b then Some it
      else do { it1 \<leftarrow> bi_next b it; last_loop b it1 })"

definition bi_seek_to_last :: "block \<Rightarrow> block_iter \<Rightarrow> block_iter option" where
  "bi_seek_to_last b it =
     (if bk_restarts b = [] then None
      else do {
        it1 \<leftarrow> extract_keyvalue b (it\<lparr>bi_current := last (bk_restarts b)\<rparr>);
        last_loop b it1 })"

partial_function (option) seek_loop :: "block \<Rightarrow> bytes \<Rightarrow> block_iter \<Rightarrow> block_iter option" where
  "seek_loop b key it =
     (if bi_cur_key it < key
      then do {
        it1 \<leftarrow> bi_next b it;
        (if \<not> bi_valid b it1 then Some it1 else seek_loop b key it1) }
      else Some it)"

definition bi_seek :: "block \<Rightarrow> bytes \<Rightarrow> block_iter \<Rightarrow> block_iter option" where
  "bi_seek b key it = do {
     it1 \<leftarrow> bi_seek_to_last b it;
     (if bi_cur_key it1 < key then Some (it1\<lparr>bi_current := bk_restart_offset b\<rparr>)
      else do { it2 \<leftarrow> bi_seek_to_first b it1; seek_loop b key it2 }) }"

text \<open>\<open>Prev\<close> is not implemented: it returns at once.\<close>

definition bi_prev :: "block_iter \<Rightarrow> block_iter" where
  "bi_prev it = it"

definition bi_key :: "block \<Rightarrow> block_iter \<Rightarrow> bytes option" where
  "bi_key b it = (if bi_valid b it then Some (bi_cur_key it) else None)"

definition bi_value :: "block \<Rightarrow> block_iter \<Rightarrow> bytes option" where
  "bi_value b it = (if bi_valid b it then Some (bi_cur_value it) else None)"

section \<open>The image of a list of pairs\<close>

definition entry :: "bytes \<times> bytes \<Rightarrow> bytes" where
  "entry p = u64_bytes (length (fst p)) @ fst p @ u64_bytes (length (snd p)) @ snd p"

definition entries :: "kvs \<Rightarrow> bytes" where
  "entries ps = concat (map entry ps)"

definition restart_points :: "kvs \<Rightarrow> nat list" where
  "restart_points ps =
     map (\<lambda>i. length (entries (take (restart_interval * i) ps)))
       [0..<(length ps - 1) div restart_interval + 1]"

definition block_image :: "kvs \<Rightarrow> bytes" where
  "block_image ps = entries ps @ u64_bytes (length (restart_points ps)) @
     concat (map u64_bytes (restart_points ps)) @ u64_bytes (length (entries ps))"

definition bb_ok :: "block_builder \<Rightarrow> kvs \<Rightarrow> bool" where
  "bb_ok bb ps \<longleftrightarrow>
     sorted_kvs ps \<and> bb_buffer bb = entries ps \<and> \<not> bb_finished bb \<and>
     (ps \<noteq> [] \<longrightarrow> bb_last_key bb = fst (last ps)) \<and> bb_restarts bb = restart_points ps \<and>
     bb_counter bb = (if ps = [] then 0 else (length ps - 1) mod restart_interval + 1)"

definition block_rep :: "block \<Rightarrow> kvs \<Rightarrow> bool" where
  "block_rep b ps \<longleftrightarrow> sorted_kvs ps \<and> length (block_image ps) < two64 \<and>
     b = \<lparr>bk_content = block_image ps, bk_restart_offset = length (entries ps),
          bk_restart_size = length (restart_points ps), bk_restarts = restart_points ps\<rparr>"

lemma entries_simps [simp]:
  "entries [] = []" "entries (p # ps) = entry p @ entries ps" "entries (ps @ qs) = entries ps @ entries qs"
  by (simp_all add: entries_def)

lemma length_entry [simp]: "length (entry p) = 16 + length (fst p) + length (snd p)"
  by (simp add: entry_def)

lemma entries_Nil_iff [simp]: "entries ps = [] \<longleftrightarrow> ps = []"
  by (cases ps) (auto dest: arg_cong [where f = length])

lemma length_entries_take: "i < length ps \<Longrightarrow> length (entries (take i ps)) < length (entries ps)"
  by (subst (2) id_take_nth_drop [of i ps]) auto

lemma take_interval_cong:
  "restart_interval * i \<le> length ps \<Longrightarrow> take (restart_interval * i) (ps @ qs) = take (restart_interval * i) ps"
  by simp

lemma restart_points_snoc:
  "restart_points (ps @ [p]) =
     (if ps \<noteq> [] \<and> length ps mod restart_interval = 0
      then restart_points ps @ [length (entries ps)] else restart_points ps)"
proof (cases ps)
  case Nil
  then show ?thesis by (simp add: restart_points_def restart_interval_def)
next
  case (Cons q qs)
  let ?n = "length ps" and ?r = restart_interval
  have n: "?n = Suc (length qs)" using Cons by simp
  have div: "?n div ?r = (if ?n mod ?r = 0 then Suc ((?n - 1) div ?r) else (?n - 1) div ?r)"
    unfolding n by (simp add: restart_interval_def div_Suc mod_Suc)
  have low: "?r * i \<le> ?n" if "i < (?n - 1) div ?r + 1" for i
  proof -
    have "?r * i \<le> ?r * ((?n - 1) div ?r)" using that by (intro mult_le_mono2) simp
    also have "\<dots> \<le> ?n - 1" by (rule times_div_less_eq_dividend)
    finally show ?thesis by simp
  qed
  have old: "map (\<lambda>i. length (entries (take (?r * i) (ps @ [p])))) [0..<(?n - 1) div ?r + 1] = restart_points ps"
    unfolding restart_points_def by (rule map_cong) (use low in auto)
  have at: "take (?r * (?n div ?r)) (ps @ [p]) = ps" if "?n mod ?r = 0"
    using that by (metis append_Nil2 append_take_drop_id diff_is_0_eq' dvd_mult_div_cancel le_refl mod_eq_0_iff_dvd
        take0 take_all take_append)
  show ?thesis
    using old at div Cons unfolding restart_points_def by simp
qed


section \<open>The builder writes the image\<close>

lemma bb_new_ok: "bb_ok bb_new []"
  by (simp add: bb_ok_def bb_new_def restart_points_def)

lemma bb_reset_ok: "bb_ok (bb_reset bb) []"
  by (simp add: bb_ok_def bb_reset_def restart_points_def)

lemma bb_empty_ok: "bb_ok bb ps \<Longrightarrow> bb_empty bb \<longleftrightarrow> ps = []"
  by (simp add: bb_ok_def bb_empty_def)

lemma bb_add_ok:
  assumes ok: "bb_ok bb ps" and key: "\<forall>p \<in> set ps. fst p < k"
  shows "\<exists>bb'. bb_add k v bb = Some bb' \<and> bb_ok bb' (ps @ [(k, v)])"
proof -
  have count: "bb_counter bb \<le> restart_interval" and full: "bb_counter bb = restart_interval \<longleftrightarrow>
      ps \<noteq> [] \<and> length ps mod restart_interval = 0"
    and step: "bb_counter bb < restart_interval \<Longrightarrow> bb_counter bb = length ps mod restart_interval"
    using ok by (cases "length ps"; auto simp: bb_ok_def restart_interval_def mod_Suc)+
  have "bb_empty bb \<or> k > bb_last_key bb"
    using ok key by (cases "ps = []") (simp_all add: bb_ok_def bb_empty_def)
  then obtain bb' where bb': "bb_add k v bb = Some bb'"
    using ok count by (simp add: bb_add_def bb_ok_def Let_def)
  have "bb_ok bb' (ps @ [(k, v)])"
  proof (cases "bb_counter bb = restart_interval")
    case True
    then show ?thesis
      using bb' ok key full
      by (auto simp: bb_add_def bb_ok_def Let_def restart_points_snoc entry_def sorted_wrt_append
          split: if_splits)
  next
    case False
    then have "bb_counter bb = length ps mod restart_interval" using step count by simp
    with False show ?thesis
      using bb' ok key full
      by (auto simp: bb_add_def bb_ok_def Let_def restart_points_snoc entry_def sorted_wrt_append
          split: if_splits)
  qed
  with bb' show ?thesis by blast
qed

lemma bb_finish_ok: "bb_ok bb ps \<Longrightarrow> fst (bb_finish bb) = block_image ps"
  by (simp add: bb_finish_def bb_ok_def block_image_def Let_def)

lemma length_concat_u64 [simp]: "length (concat (map u64_bytes rs)) = 8 * length rs"
  by (induction rs) auto

lemma bb_estimated_size_ok: "bb_ok bb ps \<Longrightarrow> bb_estimated_size bb = length (block_image ps)"
  by (simp add: bb_estimated_size_def bb_ok_def block_image_def)

definition bb_build :: "kvs \<Rightarrow> bytes option" where
  "bb_build ps = do { bb \<leftarrow> fold_opt bb_add ps bb_new; Some (fst (bb_finish bb)) }"

lemma fold_bb_add:
  "bb_ok bb qs \<Longrightarrow> sorted_kvs (qs @ ps) \<Longrightarrow> \<exists>bb'. fold_opt bb_add ps bb = Some bb' \<and> bb_ok bb' (qs @ ps)"
proof (induction ps arbitrary: bb qs)
  case (Cons p ps)
  have "\<forall>q \<in> set qs. fst q < fst p" using Cons.prems(2) by (simp add: sorted_wrt_append)
  from bb_add_ok [OF Cons.prems(1) this, of "snd p"] obtain bb' where
    "bb_add (fst p) (snd p) bb = Some bb'" "bb_ok bb' (qs @ [p])" by auto
  with Cons.IH [of bb' "qs @ [p]"] Cons.prems(2) show ?case by simp
qed simp

lemma bb_build_image: "sorted_kvs ps \<Longrightarrow> bb_build ps = Some (block_image ps)"
  using fold_bb_add [OF bb_new_ok, of ps] by (auto simp: bb_build_def bb_finish_ok)

section \<open>The reader decodes the image\<close>

lemma read_restarts_image:
  "content = pre @ concat (map u64_bytes rs) @ post \<Longrightarrow> length pre = i \<Longrightarrow> length content < two64 \<Longrightarrow>
   \<forall>r \<in> set rs. r < two64 \<Longrightarrow> e = i + 8 * length rs \<Longrightarrow>
   read_restarts content i e acc = Some (acc @ rs)"
proof (induction rs arbitrary: pre i acc)
  case Nil
  then show ?case by (subst read_restarts.simps) simp
next
  case (Cons r rs)
  have "read_u64 content i = Some r"
    using Cons.prems by (simp add: read_u64_append)
  moreover have "read_restarts content (i + 8) e (acc @ [r]) = Some ((acc @ [r]) @ rs)"
    by (rule Cons.IH [of "pre @ u64_bytes r"]) (use Cons.prems in auto)
  ultimately show ?case
    using Cons.prems by (subst read_restarts.simps) simp
qed

lemma length_entries_take_le: "length (entries (take n ps)) \<le> length (entries ps)"
  using entries_simps(3) [of "take n ps" "drop n ps"] by simp

lemma restart_points_bound: "r \<in> set (restart_points ps) \<Longrightarrow> r \<le> length (entries ps)"
  using length_entries_take_le by (auto simp: restart_points_def)

lemma length_restart_points: "restart_points ps \<noteq> []" "length (restart_points ps) \<le> length (entries ps) + 1"
proof -
  have "length ps \<le> length (entries ps)" by (induction ps) auto
  moreover have "(length ps - 1) div restart_interval \<le> length ps"
    using div_le_dividend [of "length ps - 1" restart_interval] by linarith
  ultimately show "restart_points ps \<noteq> []" "length (restart_points ps) \<le> length (entries ps) + 1"
    by (simp_all add: restart_points_def)
qed

lemma block_new_image:
  assumes "sorted_kvs ps" and "length (block_image ps) < two64"
  shows "\<exists>b. block_new (block_image ps) = Some b \<and> block_rep b ps"
proof -
  let ?rs = "restart_points ps" and ?es = "entries ps" and ?c = "block_image ps"
  let ?body = "?es @ u64_bytes (length ?rs) @ concat (map u64_bytes ?rs)"
  have len: "length ?c = length ?es + 8 + 8 * length ?rs + 8" by (simp add: block_image_def)
  have off: "read_u64 ?c (length ?c - 8) = Some (length ?es)"
    using read_u64_append [of ?body "length ?c - 8" "length ?es" "[]"] len assms(2) by (simp add: block_image_def)
  have num: "read_u64 ?c (length ?es) = Some (length ?rs)"
    unfolding block_image_def using len assms(2) by (intro read_u64_append) auto
  have "read_restarts ?c (length ?es + 8) (length ?c - 8) [] = Some ([] @ ?rs)"
  proof (rule read_restarts_image)
    show "?c = (?es @ u64_bytes (length ?rs)) @ concat (map u64_bytes ?rs) @ u64_bytes (length ?es)"
      by (simp add: block_image_def)
    show "\<forall>r \<in> set ?rs. r < two64" using restart_points_bound [of _ ps] len assms(2) by fastforce
    show "length ?c - 8 = length ?es + 8 + 8 * length ?rs" using len by simp
  qed (use assms(2) in auto)
  then show ?thesis
    using off num len assms by (simp add: block_new_def block_rep_def)
qed

text \<open>What both readers find at an entry.\<close>

lemma entry_reads:
  assumes "length (pre @ entry (k, v) @ post) < two64" and "c = pre @ entry (k, v) @ post" and "length pre = pos"
  shows "read_u64 c pos = Some (length k)" "substr c (pos + 8) (length k) = Some k"
    "read_u64 c (pos + 8 + length k) = Some (length v)"
    "substr c (pos + 8 + length k + 8) (length v) = Some v"
    "add64 pos 8 = pos + 8" "add64 (pos + 8) (length k) = pos + 8 + length k"
    "add64 (pos + 8 + length k) 8 = pos + 8 + length k + 8"
    "add64 (pos + 8 + length k) (length v) = pos + 8 + length k + length v"
    "add64 (pos + 8 + length k + length v) 8 = pos + length (entry (k, v))"
    "add64 pos (8 * 2 + length k + length v) = pos + length (entry (k, v))"
proof -
  have c: "c = pre @ u64_bytes (length k) @ k @ u64_bytes (length v) @ v @ post"
    using assms(2) by (simp add: entry_def)
  then have "length c < two64" using assms(1,2) by simp
  then have lt: "pos + 8 + length k + 8 + length v < two64" using c assms(3) by simp
  show "read_u64 c pos = Some (length k)"
    unfolding c using lt assms(3) by (intro read_u64_append) auto
  show "substr c (pos + 8) (length k) = Some k"
    using substr_append [of "pre @ u64_bytes (length k)" "pos + 8" k "length k"] c assms(3) by simp
  show "read_u64 c (pos + 8 + length k) = Some (length v)"
    using read_u64_append [of "pre @ u64_bytes (length k) @ k" "pos + 8 + length k" "length v"] c lt assms(3) by simp
  show "substr c (pos + 8 + length k + 8) (length v) = Some v"
    using substr_append [of "pre @ u64_bytes (length k) @ k @ u64_bytes (length v)"
        "pos + 8 + length k + 8" v "length v"] c assms(3) by simp
  show "add64 pos 8 = pos + 8" "add64 (pos + 8) (length k) = pos + 8 + length k"
    "add64 (pos + 8 + length k) 8 = pos + 8 + length k + 8"
    "add64 (pos + 8 + length k) (length v) = pos + 8 + length k + length v"
    "add64 (pos + 8 + length k + length v) 8 = pos + length (entry (k, v))"
    "add64 pos (8 * 2 + length k + length v) = pos + length (entry (k, v))"
    using lt by simp_all
qed

section \<open>Reading a block\<close>

abbreviation entry_pos :: "kvs \<Rightarrow> nat \<Rightarrow> nat" where
  "entry_pos ps i \<equiv> length (entries (take i ps))"

lemma entry_pos_Suc: "i < length ps \<Longrightarrow> entry_pos ps (Suc i) = entry_pos ps i + length (entry (ps ! i))"
  by (simp add: take_Suc_conv_app_nth)

lemma entry_pos_less: "i < length ps \<Longrightarrow> entry_pos ps i < length (entries ps)"
  by (rule length_entries_take)

lemma block_entry:
  assumes "block_rep b ps" and "i < length ps"
  shows "\<exists>post. bk_content b = entries (take i ps) @ entry (ps ! i) @ post \<and>
    length (entries (take i ps) @ entry (ps ! i) @ post) < two64"
proof -
  have "entries ps = entries (take i ps) @ entry (ps ! i) @ entries (drop (Suc i) ps)"
    by (subst id_take_nth_drop [OF assms(2)]) simp
  then show ?thesis
    using assms(1) by (auto simp: block_rep_def block_image_def)
qed

lemma block_rep_fields:
  assumes "block_rep b ps"
  shows "bk_restart_offset b = length (entries ps)" "bk_restarts b = restart_points ps" "sorted_kvs ps"
    "length (bk_content b) < two64"
  using assms by (auto simp: block_rep_def)

lemma block_get_from:
  assumes "block_rep b ps" and "i \<le> length ps"
  shows "block_get_loop b k (entry_pos ps i) =
    Some (case map_of (drop i ps) k of Some v \<Rightarrow> (True, v) | None \<Rightarrow> (False, []))"
  using assms(2)
proof (induction "length ps - i" arbitrary: i)
  case 0
  then show ?case
    using block_rep_fields [OF assms(1)] by (subst block_get_loop.simps) simp
next
  case (Suc n)
  then have i: "i < length ps" by simp
  obtain key val where p: "ps ! i = (key, val)" by (cases "ps ! i")
  obtain post where post: "length (entries (take i ps) @ entry (key, val) @ post) < two64"
      "bk_content b = entries (take i ps) @ entry (key, val) @ post"
    using block_entry [OF assms(1) i] p by auto
  note reads = entry_reads [OF post refl]
  have drop: "drop i ps = (key, val) # drop (Suc i) ps" using i p by (simp add: Cons_nth_drop_Suc [symmetric])
  have IH: "block_get_loop b k (entry_pos ps (Suc i)) =
      Some (case map_of (drop (Suc i) ps) k of Some v \<Rightarrow> (True, v) | None \<Rightarrow> (False, []))"
    using Suc.hyps i by simp
  have "block_get_loop b k (entry_pos ps i) =
      (if key = k then Some (True, val) else block_get_loop b k (entry_pos ps i + length (entry (key, val))))"
    using entry_pos_less [OF i] block_rep_fields(1) [OF assms(1)]
    by (subst block_get_loop.simps) (simp only: reads bind.bind_lunit Let_def if_True option.map)
  then show ?case
    using IH drop p entry_pos_Suc [OF i] by simp
qed

lemma block_get_rep:
  "block_rep b ps \<Longrightarrow> block_get b k = Some (case map_of ps k of Some v \<Rightarrow> (True, v) | None \<Rightarrow> (False, []))"
  using block_get_from [of b ps 0 k] by (simp add: block_get_def)

section \<open>The iterator\<close>

definition bi_at :: "block \<Rightarrow> kvs \<Rightarrow> nat \<Rightarrow> block_iter \<Rightarrow> bool" where
  "bi_at b ps i it \<longleftrightarrow> block_rep b ps \<and> i \<le> length ps \<and> bi_current it = entry_pos ps i \<and>
     (i < length ps \<longrightarrow> bi_cur_key it = fst (ps ! i) \<and> bi_cur_value it = snd (ps ! i))"

lemma extract_at:
  assumes "block_rep b ps" and "i < length ps" and "bi_current it = entry_pos ps i"
  shows "\<exists>it'. extract_keyvalue b it = Some it' \<and> bi_at b ps i it'"
proof -
  obtain key val where p: "ps ! i = (key, val)" by (cases "ps ! i")
  obtain post where post: "length (entries (take i ps) @ entry (key, val) @ post) < two64"
      "bk_content b = entries (take i ps) @ entry (key, val) @ post"
    using block_entry [OF assms(1,2)] p by auto
  note reads = entry_reads [OF post assms(3) [symmetric]]
  have "bi_valid b it"
    using entry_pos_less [OF assms(2)] assms(3) block_rep_fields(1) [OF assms(1)] by (simp add: bi_valid_def)
  then have "extract_keyvalue b it = Some (it\<lparr>bi_cur_key := key, bi_cur_value := val\<rparr>)"
    using reads(1-7) by (simp add: extract_keyvalue_def)
  then show ?thesis using assms p by (simp add: bi_at_def)
qed

lemma bi_at_valid: "bi_at b ps i it \<Longrightarrow> bi_valid b it \<longleftrightarrow> i < length ps"
  using entry_pos_less [of i ps] block_rep_fields(1) [of b ps]
  by (cases "i = length ps") (auto simp: bi_at_def bi_valid_def)

lemma bi_advance_at:
  assumes "bi_at b ps i it" and "i < length ps"
  shows "bi_advance it = entry_pos ps (Suc i)"
proof -
  obtain key val where p: "ps ! i = (key, val)" by (cases "ps ! i")
  obtain post where post: "length (entries (take i ps) @ entry (key, val) @ post) < two64"
      "bk_content b = entries (take i ps) @ entry (key, val) @ post"
    using block_entry [of b ps i] assms p by (auto simp: bi_at_def)
  show ?thesis
    using entry_reads(10) [OF post refl] assms p entry_pos_Suc [OF assms(2)]
    by (simp add: bi_advance_def bi_at_def add.assoc)
qed

lemma bi_next_at:
  assumes "bi_at b ps i it" and "i < length ps"
  shows "\<exists>it'. bi_next b it = Some it' \<and> bi_at b ps (Suc i) it'"
proof -
  let ?it = "it\<lparr>bi_current := bi_advance it\<rparr>"
  have rep: "block_rep b ps" and cur: "bi_current ?it = entry_pos ps (Suc i)"
    using assms bi_advance_at [OF assms] by (auto simp: bi_at_def)
  show ?thesis
  proof (cases "Suc i < length ps")
    case True
    with extract_at [OF rep True cur] entry_pos_less [OF True] show ?thesis
      using cur block_rep_fields(1) [OF rep] by (simp add: bi_next_def bi_valid_def)
  next
    case False
    then show ?thesis
      using cur block_rep_fields(1) [OF rep] rep assms(2)
      by (simp add: bi_next_def bi_valid_def bi_at_def Let_def)
  qed
qed

lemma bi_first_at:
  assumes "block_rep b ps"
  shows "\<exists>it. bi_seek_to_first b it0 = Some it \<and> bi_at b ps 0 it"
proof (cases "ps = []")
  case True
  then show ?thesis
    using assms block_rep_fields(1) [OF assms] by (simp add: bi_seek_to_first_def bi_valid_def bi_at_def)
next
  case False
  then have "0 < length ps" by simp
  from extract_at [OF assms this, of "it0\<lparr>bi_current := 0\<rparr>"] show ?thesis
    using False block_rep_fields(1) [OF assms]
    by (simp add: bi_seek_to_first_def bi_valid_def)
qed

lemma last_loop_at:
  assumes "bi_at b ps i it" and "i < length ps"
  shows "\<exists>it'. last_loop b it = Some it' \<and> bi_at b ps (length ps - 1) it'"
  using assms
proof (induction "length ps - i" arbitrary: i it)
  case (Suc n)
  have off: "bk_restart_offset b = length (entries ps)" using Suc.prems block_rep_fields(1) by (simp add: bi_at_def)
  show ?case
  proof (cases "Suc i < length ps")
    case True
    obtain it1 where it1: "bi_next b it = Some it1" "bi_at b ps (Suc i) it1"
      using bi_next_at [OF Suc.prems] by blast
    have "last_loop b it = last_loop b it1"
      using bi_advance_at [OF Suc.prems] entry_pos_less [OF True] it1(1) off
      by (subst last_loop.simps) simp
    with Suc.hyps(1) [OF _ it1(2) True] Suc.hyps(2) show ?thesis by auto
  next
    case False
    then have i: "Suc i = length ps" using Suc.prems(2) by simp
    have "last_loop b it = Some it"
      using bi_advance_at [OF Suc.prems] off i by (subst last_loop.simps) simp
    with Suc.prems(1) i show ?thesis by (metis diff_Suc_1)
  qed
qed simp

lemma last_restart:
  assumes "ps \<noteq> []"
  shows "\<exists>i < length ps. last (restart_points ps) = entry_pos ps i"
proof -
  have "restart_interval * ((length ps - 1) div restart_interval) \<le> length ps - 1"
    by (rule times_div_less_eq_dividend)
  moreover have "length ps - 1 < length ps" using assms by simp
  ultimately have "restart_interval * ((length ps - 1) div restart_interval) < length ps" by (rule le_less_trans)
  then show ?thesis
    by (intro exI [of _ "restart_interval * ((length ps - 1) div restart_interval)"])
      (simp add: restart_points_def)
qed

lemma bi_last_at:
  assumes "block_rep b ps" and "ps \<noteq> []"
  shows "\<exists>it. bi_seek_to_last b it0 = Some it \<and> bi_at b ps (length ps - 1) it"
proof -
  obtain i where i: "i < length ps" "last (restart_points ps) = entry_pos ps i"
    using last_restart [OF assms(2)] by blast
  obtain it where it: "extract_keyvalue b (it0\<lparr>bi_current := last (bk_restarts b)\<rparr>) = Some it" "bi_at b ps i it"
    using extract_at [OF assms(1) i(1), of "it0\<lparr>bi_current := last (bk_restarts b)\<rparr>"] i(2)
      block_rep_fields(2) [OF assms(1)] by auto
  show ?thesis
    using last_loop_at [OF it(2) i(1)] it(1) block_rep_fields(2) [OF assms(1)] length_restart_points(1) [of ps]
    by (simp add: bi_seek_to_last_def)
qed

lemma seek_loop_at:
  assumes "bi_at b ps i it" and "i < length ps" and "\<not> fst (last ps) < k" and "i \<le> lower_bound ps k"
  shows "\<exists>it'. seek_loop b k it = Some it' \<and> bi_at b ps (lower_bound ps k) it'"
  using assms
proof (induction "length ps - i" arbitrary: i it)
  case (Suc n)
  have key: "bi_cur_key it = fst (ps ! i)" using Suc.prems(1,2) by (simp add: bi_at_def)
  show ?case
  proof (cases "fst (ps ! i) < k")
    case True
    then have "Suc i < length ps"
      using Suc.prems(2,3) by (metis Suc_lessI diff_Suc_1 last_conv_nth length_0_conv not_less0)
    obtain it1 where it1: "bi_next b it = Some it1" "bi_at b ps (Suc i) it1"
      using bi_next_at [OF Suc.prems(1,2)] by blast
    have valid: "bi_valid b it1" using bi_at_valid [OF it1(2)] \<open>Suc i < length ps\<close> by simp
    have "Suc i \<le> lower_bound ps k"
      using Suc.prems(2,4) True unfolding lower_bound_def
      by (metis le_neq_implies_less less_eq_Suc_le nth_length_takeWhile)
    with Suc.hyps(1) [OF _ it1(2) \<open>Suc i < length ps\<close> Suc.prems(3)] Suc.hyps(2) valid it1(1) True key
    show ?thesis by (subst seek_loop.simps) simp
  next
    case False
    have "lower_bound ps k = i"
    proof (rule ccontr)
      assume "lower_bound ps k \<noteq> i"
      then have "i < lower_bound ps k" using Suc.prems(4) by simp
      then show False
        using False nth_mem [of i "takeWhile (\<lambda>p. fst p < k) ps"] takeWhile_nth [of i "\<lambda>p. fst p < k" ps]
        by (auto simp: lower_bound_def dest: set_takeWhileD)
    qed
    then show ?thesis using Suc.prems(1) key False by (subst seek_loop.simps) simp
  qed
qed simp

lemma bi_seek_at:
  assumes "block_rep b ps" and "ps \<noteq> []"
  shows "\<exists>it. bi_seek b k it0 = Some it \<and> bi_at b ps (lower_bound ps k) it"
proof -
  obtain it1 where it1: "bi_seek_to_last b it0 = Some it1" "bi_at b ps (length ps - 1) it1"
    using bi_last_at [OF assms] by blast
  have key: "bi_cur_key it1 = fst (last ps)"
    using it1(2) assms(2) by (simp add: bi_at_def last_conv_nth)
  note fields = block_rep_fields [OF assms(1)]
  show ?thesis
  proof (cases "fst (last ps) < k")
    case True
    have "fst p \<le> fst (last ps)" if "p \<in> set ps" for p
      using fields(3) assms(2) that
      by (cases ps rule: rev_cases) (auto simp: sorted_wrt_append less_imp_le)
    then have "takeWhile (\<lambda>p. fst p < k) ps = ps"
      using True by (fastforce simp: takeWhile_eq_all_conv intro: le_less_trans)
    then have "lower_bound ps k = length ps" unfolding lower_bound_def by (rule arg_cong)
    then show ?thesis
      using it1(1) key True assms(1) fields(1) by (simp add: bi_seek_def bi_at_def)
  next
    case False
    obtain it2 where it2: "bi_seek_to_first b it1 = Some it2" "bi_at b ps 0 it2"
      using bi_first_at [OF assms(1)] by blast
    show ?thesis
      using seek_loop_at [OF it2(2) _ False] assms(2) it1(1) it2(1) key False by (simp add: bi_seek_def)
  qed
qed

interpretation bki: forward_iterator bi_at block_rep bi_valid bi_seek_to_first bi_seek bi_next bi_key bi_value
proof
  show "block_rep b ps \<Longrightarrow> \<exists>it. bi_seek_to_first b it0 = Some it \<and> bi_at b ps 0 it" for b ps it0
    by (rule bi_first_at)
  show "block_rep b ps \<Longrightarrow> ps \<noteq> [] \<Longrightarrow> \<exists>it. bi_seek b k it0 = Some it \<and> bi_at b ps (lower_bound ps k) it" for b ps k it0
    by (rule bi_seek_at)
  show "bi_at b ps i it \<Longrightarrow> bi_valid b it \<longleftrightarrow> i < length ps" for b ps i it by (rule bi_at_valid)
  show "bi_at b ps i it \<Longrightarrow> i < length ps \<Longrightarrow> \<exists>it'. bi_next b it = Some it' \<and> bi_at b ps (Suc i) it'" for b ps i it
    by (rule bi_next_at)
qed (auto simp: bi_key_def bi_value_def bi_at_valid, auto simp: bi_at_def)


lemma length_block_image:
  "length (block_image ps) = length (entries ps) + 8 * ((length ps - 1) div 20 + 1) + 16"
  by (simp add: block_image_def) (simp add: restart_points_def restart_interval_def)

section \<open>Properties\<close>

text \<open>C4. What \<open>Block\<close> parses from the bytes that \<open>BlockBuilder\<close> makes of strictly increasing
  pairs answers \<open>get\<close> exactly like those pairs, as long as the block is smaller than 2^64 bytes;
  no assertion of the builder fails and no read leaves the block.\<close>

theorem block_roundtrip:
  assumes "sorted_kvs ps" and "length (block_image ps) < two64"
  shows "\<exists>content b. bb_build ps = Some content \<and> block_new content = Some b \<and>
    block_get b k = Some (case map_of ps k of Some v \<Rightarrow> (True, v) | None \<Rightarrow> (False, []))"
proof -
  obtain b where "block_new (block_image ps) = Some b" "block_rep b ps"
    using block_new_image [OF assms] by blast
  with bb_build_image [OF assms(1)] block_get_rep show ?thesis by blast
qed

theorem block_roundtrip_witness:
  "\<exists>content b. bb_build [([1], [2, 3]), ([4], [])] = Some content \<and> block_new content = Some b \<and>
    block_get b [1] = Some (True, [2, 3])"
  using block_roundtrip [of "[([1], [2, 3]), ([4], [])]" "[1]"] by (simp add: length_block_image)

text \<open>The iterator of a parsed block, wherever it stood before, visits all pairs in key order
  after \<open>SeekToFirst\<close> and those not below \<open>k\<close> after \<open>Seek(k)\<close>; \<open>SeekToLast\<close> stops at the last
  pair. \<open>Seek\<close> and \<open>SeekToLast\<close> need a block that is not empty.\<close>

theorem block_iteration:
  assumes "block_rep b ps"
  shows "do { it \<leftarrow> bi_seek_to_first b it0;
              iter_loop (bi_valid b) (bi_key b) (bi_value b) (bi_next b) body it st } = fold_opt body ps st \<and>
    (ps \<noteq> [] \<longrightarrow>
      do { it \<leftarrow> bi_seek b k it0;
           iter_loop (bi_valid b) (bi_key b) (bi_value b) (bi_next b) body it st } =
        fold_opt body (dropWhile (\<lambda>p. fst p < k) ps) st \<and>
      do { it \<leftarrow> bi_seek_to_last b it0; bi_key b it } = Some (fst (last ps)))"
proof (intro conjI impI)
  assume ne: "ps \<noteq> []"
  then have "length ps - 1 < length ps" by simp
  with bi_last_at [OF assms ne, of it0] ne show "do { it \<leftarrow> bi_seek_to_last b it0; bi_key b it } = Some (fst (last ps))"
    using bki.key_at_pos by (auto simp: last_conv_nth)
  show "do { it \<leftarrow> bi_seek b k it0; iter_loop (bi_valid b) (bi_key b) (bi_value b) (bi_next b) body it st } =
      fold_opt body (dropWhile (\<lambda>p. fst p < k) ps) st"
    using bki.loop_seek [OF assms ne] by (simp add: lower_bound_def dropWhile_eq_drop)
qed (rule bki.loop_all [OF assms])

theorem block_iteration_witness:
  "\<exists>b. block_new (block_image [([1], [2, 3]), ([4], [])]) = Some b \<and>
    do { it \<leftarrow> bi_seek b [2] (bi_new b);
         iter_loop (bi_valid b) (bi_key b) (bi_value b) (bi_next b) (\<lambda>k v acc. Some (k # acc)) it [] } =
      Some [[4]]"
proof -
  let ?ps = "[([1], [2, 3]), ([4], [])] :: kvs"
  obtain b where b: "block_new (block_image ?ps) = Some b" "block_rep b ?ps"
    using block_new_image [of ?ps] length_block_image [of ?ps] by auto
  have "do { it \<leftarrow> bi_seek b [2] (bi_new b);
      iter_loop (bi_valid b) (bi_key b) (bi_value b) (bi_next b) (\<lambda>k v acc. Some (k # acc)) it [] } =
      fold_opt (\<lambda>k v acc. Some (k # acc)) (dropWhile (\<lambda>p. fst p < [2]) ?ps) []"
    using block_iteration [OF b(2), of "bi_new b" "\<lambda>k v acc. Some (k # acc)" "[]" "[2]"] by blast
  also have "\<dots> = Some [[4]]" by simp
  finally show ?thesis using b(1) by blast
qed

text \<open>C5. \<open>estimated_size\<close> is exactly the number of bytes that \<open>finish\<close> returns, and the restart
  points that \<open>Block\<close> reads back are the offsets of every twentieth pair.\<close>

theorem restart_points_every_interval:
  assumes "sorted_kvs ps" and "length (block_image ps) < two64"
  shows "\<exists>bb b. fold_opt bb_add ps bb_new = Some bb \<and> block_new (fst (bb_finish bb)) = Some b \<and>
    length (fst (bb_finish bb)) = bb_estimated_size bb \<and>
    bk_restart_size b = length (bk_restarts b) \<and> length (bk_restarts b) = (length ps - 1) div 20 + 1 \<and>
    (\<forall>i < length (bk_restarts b). bk_restarts b ! i = length (entries (take (20 * i) ps)))"
proof -
  obtain bb where bb: "fold_opt bb_add ps bb_new = Some bb" "bb_ok bb ps"
    using fold_bb_add [OF bb_new_ok, of ps] assms(1) by auto
  obtain b where b: "block_new (block_image ps) = Some b" "block_rep b ps"
    using block_new_image [OF assms] by blast
  have rs: "bk_restarts b = restart_points ps" "bk_restart_size b = length (restart_points ps)"
    using b(2) by (auto simp: block_rep_def)
  have "length (restart_points ps) = (length ps - 1) div 20 + 1"
    "\<forall>i < length (restart_points ps). restart_points ps ! i = length (entries (take (20 * i) ps))"
    by (simp_all add: restart_points_def restart_interval_def del: upt_Suc)
  then show ?thesis
    using bb b(1) rs by (simp add: bb_finish_ok bb_estimated_size_ok)
qed

theorem restart_points_every_interval_witness:
  "\<exists>bb b. fold_opt bb_add [([1], [2, 3]), ([4], [])] bb_new = Some bb \<and>
    block_new (fst (bb_finish bb)) = Some b \<and> length (bk_restarts b) = 1 \<and> bb_estimated_size bb = 60"
proof -
  let ?ps = "[([1], [2, 3]), ([4], [])] :: kvs"
  have len: "length (block_image ?ps) = 60"
    by (simp add: length_block_image)
  obtain bb b where bb: "fold_opt bb_add ?ps bb_new = Some bb" "block_new (fst (bb_finish bb)) = Some b"
      "length (bk_restarts b) = (length ?ps - 1) div 20 + 1"
    using restart_points_every_interval [of ?ps] len by auto
  have "bb_ok bb ?ps" using fold_bb_add [OF bb_new_ok, of ?ps] bb(1) by auto
  with bb len show ?thesis by (intro exI [of _ bb] exI [of _ b]) (simp add: bb_estimated_size_ok)
qed

end
