(* ===== verification/SkipList.thy ===== *)
theory SkipList
  imports Prelude
begin

text \<open>
  The memtable of the store: \<open>include/storage/SkipList.h\<close> and \<open>src/storage/SkipList.cpp\<close>.

  Nodes live in a heap from addresses to node records; address 0 is the null pointer, \<open>new\<close>
  returns \<open>sl_fresh\<close> and \<open>delete\<close> removes the address. Every pointer is followed in the option
  monad, so a null, dangling or out-of-range access makes the whole operation \<open>None\<close>. The
  \<open>while(true)\<close> searches are \<open>partial_function\<close>s, for which not returning is \<open>None\<close> too. The
  random engine is an argument: \<open>ones\<close> is the number of consecutive 1s that \<open>dist_(engine_)\<close>
  yields before the first 0 in the call of \<open>random_height\<close>; every theorem holds for all of them.

  \<open>sl_rep s ns\<close> says that \<open>s\<close> is a well-formed skip list whose data nodes are, in order, at the
  addresses \<open>ns\<close>. The theorems say that each operation returns, keeps the representation, and
  acts on the sorted list of pairs as the specifications of the prelude.
\<close>

section \<open>Data\<close>

type_synonym addr = nat

abbreviation (input) nullptr :: addr where "nullptr \<equiv> 0"

record sl_node =
  nd_key :: bytes
  nd_value :: bytes
  nd_nexts :: "addr list"
  nd_height :: nat

record skiplist =
  sl_heap :: "addr \<rightharpoonup> sl_node"
  sl_fresh :: addr
  sl_head :: addr
  sl_tail :: addr
  sl_num_entries :: "64 word"
  sl_num_bytes :: "64 word"

definition max_height :: nat where
  "max_height = 12"

text \<open>\<open>Node(key, value, height)\<close>: the array is allocated and not initialised; the model fills it
  with null pointers, and no operation reads an element before writing it.\<close>

definition new_node :: "bytes \<Rightarrow> bytes \<Rightarrow> nat \<Rightarrow> sl_node" where
  "new_node key val height =
     \<lparr>nd_key = key, nd_value = val, nd_nexts = replicate height nullptr, nd_height = height\<rparr>"

definition alloc :: "skiplist \<Rightarrow> sl_node \<Rightarrow> addr \<times> skiplist" where
  "alloc s nd = (sl_fresh s, s\<lparr>sl_heap := (sl_heap s)(sl_fresh s \<mapsto> nd), sl_fresh := sl_fresh s + 1\<rparr>)"

definition get_next :: "skiplist \<Rightarrow> addr \<Rightarrow> nat \<Rightarrow> addr option" where
  "get_next s a i = do { nd \<leftarrow> sl_heap s a; nth_opt (nd_nexts nd) i }"

definition set_next :: "skiplist \<Rightarrow> addr \<Rightarrow> nat \<Rightarrow> addr \<Rightarrow> skiplist option" where
  "set_next s a i b = do {
     nd \<leftarrow> sl_heap s a;
     (if i < length (nd_nexts nd)
      then Some (s\<lparr>sl_heap := (sl_heap s)(a \<mapsto> nd\<lparr>nd_nexts := (nd_nexts nd)[i := b]\<rparr>)\<rparr>)
      else None) }"

section \<open>Construction and searches\<close>

definition sl_init :: "skiplist \<Rightarrow> skiplist option" where
  "sl_init s0 = (let
     (h, s1) = alloc s0 (new_node [] [] 1);
     (t, s2) = alloc s1 (new_node [] [] 1);
     s3 = s2\<lparr>sl_head := h, sl_tail := t\<rparr>
   in do {
     s4 \<leftarrow> set_next s3 h 0 t;
     s5 \<leftarrow> set_next s4 t 0 nullptr;
     Some (s5\<lparr>sl_num_bytes := 0, sl_num_entries := 0\<rparr>) })"

text \<open>The object before its constructor runs: nothing allocated, addresses start after null.\<close>

definition sl_raw :: skiplist where
  "sl_raw = \<lparr>sl_heap = Map.empty, sl_fresh = 1, sl_head = nullptr, sl_tail = nullptr,
     sl_num_entries = 0, sl_num_bytes = 0\<rparr>"

definition sl_new :: "skiplist option" where
  "sl_new = sl_init sl_raw"

definition get_max_height :: "skiplist \<Rightarrow> nat option" where
  "get_max_height s = map_option nd_height (sl_heap s (sl_head s))"

fun random_height_loop :: "nat \<Rightarrow> nat \<Rightarrow> nat" where
  "random_height_loop 0 height = height"
| "random_height_loop (Suc ones) height = random_height_loop ones (height + 1)"

definition random_height :: "nat \<Rightarrow> nat" where
  "random_height ones =
     (let height = random_height_loop ones 1 in if height > max_height then max_height else height)"

text \<open>\<open>next != tail_ && next->key_ < key\<close>\<close>

definition key_before :: "skiplist \<Rightarrow> addr \<Rightarrow> bytes \<Rightarrow> bool option" where
  "key_before s a key =
     (if a \<noteq> sl_tail s then map_option (\<lambda>nd. nd_key nd < key) (sl_heap s a) else Some False)"

text \<open>\<open>prevs\<close> is \<open>None\<close> for a null \<open>prevs\<close> argument, and otherwise the caller's array.\<close>

definition store_prev :: "addr list option \<Rightarrow> nat \<Rightarrow> addr \<Rightarrow> addr list option option" where
  "store_prev prevs i x =
     (case prevs of
        None \<Rightarrow> Some None
      | Some ps \<Rightarrow> if i < length ps then Some (Some (ps[i := x])) else None)"

partial_function (option) find_ge_loop ::
  "skiplist \<Rightarrow> bytes \<Rightarrow> addr \<Rightarrow> nat \<Rightarrow> addr list option \<Rightarrow> (addr \<times> addr list option) option" where
  "find_ge_loop s key x height prevs = do {
     nxt \<leftarrow> get_next s x height;
     before \<leftarrow> key_before s nxt key;
     (if before then find_ge_loop s key nxt height prevs
      else do {
        prevs' \<leftarrow> store_prev prevs height x;
        (if height = 0 then Some (nxt, prevs')
         else find_ge_loop s key x (height - 1) prevs') }) }"

definition findGreatorOrEqual ::
  "skiplist \<Rightarrow> bytes \<Rightarrow> addr list option \<Rightarrow> (addr \<times> addr list option) option" where
  "findGreatorOrEqual s key prevs = do {
     h \<leftarrow> get_max_height s;
     find_ge_loop s key (sl_head s) (h - 1) prevs }"

partial_function (option) find_lt_loop :: "skiplist \<Rightarrow> bytes \<Rightarrow> addr \<Rightarrow> nat \<Rightarrow> addr option" where
  "find_lt_loop s key node level = do {
     nxt \<leftarrow> get_next s node level;
     before \<leftarrow> key_before s nxt key;
     (if before then find_lt_loop s key nxt level
      else if level = 0 then Some node
      else find_lt_loop s key node (level - 1)) }"

definition findLessThan :: "skiplist \<Rightarrow> bytes \<Rightarrow> addr option" where
  "findLessThan s key = do {
     h \<leftarrow> get_max_height s;
     find_lt_loop s key (sl_head s) (h - 1) }"

partial_function (option) find_last_loop :: "skiplist \<Rightarrow> addr \<Rightarrow> nat \<Rightarrow> addr option" where
  "find_last_loop s node level = do {
     nxt \<leftarrow> get_next s node level;
     (if nxt \<noteq> sl_tail s then find_last_loop s nxt level
      else if level = 0 then Some node
      else find_last_loop s node (level - 1)) }"

definition findLast :: "skiplist \<Rightarrow> addr option" where
  "findLast s = do {
     h \<leftarrow> get_max_height s;
     find_last_loop s (sl_head s) (h - 1) }"

section \<open>Operations\<close>

text \<open>\<open>node != tail_ && node->key_ == key\<close>\<close>

definition key_equals :: "skiplist \<Rightarrow> addr \<Rightarrow> bytes \<Rightarrow> bool option" where
  "key_equals s a key =
     (if a \<noteq> sl_tail s then map_option (\<lambda>nd. nd_key nd = key) (sl_heap s a) else Some False)"

definition sl_get :: "skiplist \<Rightarrow> bytes \<Rightarrow> (bool \<times> bytes) option" where
  "sl_get s key = do {
     (node, _) \<leftarrow> findGreatorOrEqual s key None;
     eq \<leftarrow> key_equals s node key;
     (if eq then map_option (\<lambda>nd. (True, nd_value nd)) (sl_heap s node) else Some (False, [])) }"

definition sl_contains :: "skiplist \<Rightarrow> bytes \<Rightarrow> bool option" where
  "sl_contains s key = do {
     (node, _) \<leftarrow> findGreatorOrEqual s key None;
     key_equals s node key }"

text \<open>\<open>enlargeHeight\<close>: the new level arrays of \<open>head_\<close> and \<open>tail_\<close>.\<close>

definition enlarge_height :: "skiplist \<Rightarrow> nat \<Rightarrow> skiplist option" where
  "enlarge_height s height = do {
     hd \<leftarrow> sl_heap s (sl_head s);
     tl \<leftarrow> sl_heap s (sl_tail s);
     Some (s\<lparr>sl_heap := (sl_heap s)
       (sl_head s \<mapsto> hd\<lparr>nd_height := height,
          nd_nexts := take (nd_height hd) (nd_nexts hd) @ replicate (height - nd_height hd) (sl_tail s)\<rparr>,
        sl_tail s \<mapsto> tl\<lparr>nd_height := height, nd_nexts := replicate height nullptr\<rparr>)\<rparr>) }"

text \<open>\<open>for(i = getMaxHeight(); i < height; i++) prevs[i] = head_\<close>\<close>

fun fill_prevs :: "addr list \<Rightarrow> nat list \<Rightarrow> addr \<Rightarrow> addr list option" where
  "fill_prevs prevs [] h = Some prevs"
| "fill_prevs prevs (i # is) h =
     (if i < length prevs then fill_prevs (prevs[i := h]) is h else None)"

text \<open>\<open>node->nexts_[i] = prevs[i]->nexts_[i]; prevs[i]->nexts_[i] = node\<close>\<close>

fun link_levels :: "skiplist \<Rightarrow> addr \<Rightarrow> addr list \<Rightarrow> nat list \<Rightarrow> skiplist option" where
  "link_levels s node prevs [] = Some s"
| "link_levels s node prevs (i # is) = do {
     p \<leftarrow> nth_opt prevs i;
     n \<leftarrow> get_next s p i;
     s1 \<leftarrow> set_next s node i n;
     s2 \<leftarrow> set_next s1 p i node;
     link_levels s2 node prevs is }"

definition size64 :: "bytes \<Rightarrow> 64 word" where
  "size64 bs = of_nat (length bs)"

definition sl_put :: "nat \<Rightarrow> skiplist \<Rightarrow> bytes \<Rightarrow> bytes \<Rightarrow> skiplist option" where
  "sl_put ones s key val = do {
     (x, prevs_opt) \<leftarrow> findGreatorOrEqual s key (Some (replicate max_height nullptr));
     prevs \<leftarrow> prevs_opt;
     eq \<leftarrow> key_equals s x key;
     (if eq then do {
        nd \<leftarrow> sl_heap s x;
        Some (s\<lparr>sl_num_bytes := sl_num_bytes s - size64 (nd_value nd) + size64 val,
                sl_heap := (sl_heap s)(x \<mapsto> nd\<lparr>nd_value := val\<rparr>)\<rparr>) }
      else do {
        mh \<leftarrow> get_max_height s;
        (prevs', s1) \<leftarrow>
          (if random_height ones > mh then do {
             ps \<leftarrow> fill_prevs prevs [mh..<random_height ones] (sl_head s);
             s1 \<leftarrow> enlarge_height s (random_height ones);
             Some (ps, s1) }
           else Some (prevs, s));
        let (node, s2) = alloc s1 (new_node key val (random_height ones));
        s3 \<leftarrow> link_levels s2 node prevs' [0..<random_height ones];
        Some (s3\<lparr>sl_num_entries := sl_num_entries s3 + 1,
                 sl_num_bytes := sl_num_bytes s3 + size64 key + size64 val\<rparr>) }) }"

text \<open>\<open>prevs[i]->nexts_[i] = node->nexts_[i]\<close>\<close>

fun unlink_levels :: "skiplist \<Rightarrow> addr \<Rightarrow> addr list \<Rightarrow> nat list \<Rightarrow> skiplist option" where
  "unlink_levels s node prevs [] = Some s"
| "unlink_levels s node prevs (i # is) = do {
     p \<leftarrow> nth_opt prevs i;
     n \<leftarrow> get_next s node i;
     s1 \<leftarrow> set_next s p i n;
     unlink_levels s1 node prevs is }"

definition sl_del :: "skiplist \<Rightarrow> bytes \<Rightarrow> (bool \<times> skiplist) option" where
  "sl_del s key = do {
     (node, prevs_opt) \<leftarrow> findGreatorOrEqual s key (Some (replicate max_height nullptr));
     prevs \<leftarrow> prevs_opt;
     eq \<leftarrow> key_equals s node key;
     (if \<not> eq then Some (False, s)
      else do {
        nd \<leftarrow> sl_heap s node;
        s1 \<leftarrow> unlink_levels s node prevs [0..<nd_height nd];
        Some (True, s1\<lparr>sl_num_entries := sl_num_entries s1 - 1,
                       sl_num_bytes := sl_num_bytes s1 - size64 (nd_key nd) - size64 (nd_value nd),
                       sl_heap := (sl_heap s1)(node := None)\<rparr>) }) }"

text \<open>\<open>clear\<close> deletes the nodes along level 0, from \<open>head_\<close> through \<open>tail_\<close> to null, and
  builds an empty list.\<close>

partial_function (option) clear_loop :: "skiplist \<Rightarrow> addr \<Rightarrow> skiplist option" where
  "clear_loop s node =
     (if node = nullptr then Some s
      else do {
        nxt \<leftarrow> get_next s node 0;
        clear_loop (s\<lparr>sl_heap := (sl_heap s)(node := None)\<rparr>) nxt })"

definition sl_clear :: "skiplist \<Rightarrow> skiplist option" where
  "sl_clear s = do {
     s1 \<leftarrow> clear_loop s (sl_head s);
     sl_init s1 }"

definition sl_size :: "skiplist \<Rightarrow> 64 word" where
  "sl_size s = sl_num_entries s"

definition sl_space :: "skiplist \<Rightarrow> 64 word" where
  "sl_space s = sl_num_bytes s"

definition sl_empty :: "skiplist \<Rightarrow> bool" where
  "sl_empty s \<longleftrightarrow> sl_num_entries s = 0"

section \<open>Iterator\<close>

text \<open>\<open>SkipList::Iterator\<close> is its \<open>node_\<close> pointer: null when it is not at a pair. \<open>Next\<close>,
  \<open>Prev\<close>, \<open>key\<close> and \<open>value\<close> assert \<open>Valid()\<close>.\<close>

type_synonym sl_iter = addr

definition it_new :: sl_iter where
  "it_new = nullptr"

definition it_valid :: "sl_iter \<Rightarrow> bool" where
  "it_valid it \<longleftrightarrow> it \<noteq> nullptr"

definition null_if :: "addr \<Rightarrow> addr \<Rightarrow> addr" where
  "null_if sentinel a = (if a = sentinel then nullptr else a)"

definition it_seek_to_first :: "skiplist \<Rightarrow> sl_iter option" where
  "it_seek_to_first s = map_option (null_if (sl_tail s)) (get_next s (sl_head s) 0)"

definition it_seek_to_last :: "skiplist \<Rightarrow> sl_iter option" where
  "it_seek_to_last s = map_option (null_if (sl_head s)) (findLast s)"

definition it_seek :: "skiplist \<Rightarrow> bytes \<Rightarrow> sl_iter option" where
  "it_seek s key = map_option (\<lambda>(a, _). null_if (sl_tail s) a) (findGreatorOrEqual s key None)"

definition it_next :: "skiplist \<Rightarrow> sl_iter \<Rightarrow> sl_iter option" where
  "it_next s it =
     (if it_valid it then map_option (null_if (sl_tail s)) (get_next s it 0) else None)"

definition it_key :: "skiplist \<Rightarrow> sl_iter \<Rightarrow> bytes option" where
  "it_key s it = (if it_valid it then map_option nd_key (sl_heap s it) else None)"

definition it_value :: "skiplist \<Rightarrow> sl_iter \<Rightarrow> bytes option" where
  "it_value s it = (if it_valid it then map_option nd_value (sl_heap s it) else None)"

definition it_prev :: "skiplist \<Rightarrow> sl_iter \<Rightarrow> sl_iter option" where
  "it_prev s it =
     (if it_valid it
      then do { nd \<leftarrow> sl_heap s it; map_option (null_if (sl_head s)) (findLessThan s (nd_key nd)) }
      else None)"

section \<open>Representation\<close>

definition key_at :: "skiplist \<Rightarrow> addr \<Rightarrow> bytes" where
  "key_at s a = (case sl_heap s a of Some nd \<Rightarrow> nd_key nd | None \<Rightarrow> [])"

definition value_at :: "skiplist \<Rightarrow> addr \<Rightarrow> bytes" where
  "value_at s a = (case sl_heap s a of Some nd \<Rightarrow> nd_value nd | None \<Rightarrow> [])"

definition height_at :: "skiplist \<Rightarrow> addr \<Rightarrow> nat" where
  "height_at s a = (case sl_heap s a of Some nd \<Rightarrow> nd_height nd | None \<Rightarrow> 0)"

abbreviation level :: "skiplist \<Rightarrow> addr list \<Rightarrow> nat \<Rightarrow> addr list" where
  "level s ns i \<equiv> filter (\<lambda>n. i < height_at s n) ns"

fun linked :: "skiplist \<Rightarrow> nat \<Rightarrow> addr list \<Rightarrow> bool" where
  "linked s i (a # b # rest) \<longleftrightarrow> get_next s a i = Some b \<and> linked s i (b # rest)"
| "linked s i _ \<longleftrightarrow> True"

definition kvs_at :: "skiplist \<Rightarrow> addr list \<Rightarrow> kvs" where
  "kvs_at s ns = map (\<lambda>n. (key_at s n, value_at s n)) ns"

definition kvs_size :: "kvs \<Rightarrow> nat" where
  "kvs_size ps = (\<Sum>(k, v) \<leftarrow> ps. length k + length v)"

abbreviation cells :: "skiplist \<Rightarrow> addr list \<Rightarrow> addr list" where
  "cells s ns \<equiv> sl_head s # sl_tail s # ns"

text \<open>The shape of the heap: which addresses are nodes, how high they are, in which order.\<close>

definition sl_shape :: "skiplist \<Rightarrow> addr list \<Rightarrow> bool" where
  "sl_shape s ns \<longleftrightarrow>
     distinct (cells s ns) \<and> dom (sl_heap s) = set (cells s ns) \<and>
     (\<forall>a \<in> dom (sl_heap s). a \<noteq> nullptr \<and> a < sl_fresh s) \<and> sl_fresh s \<noteq> nullptr \<and>
     (\<forall>nd \<in> ran (sl_heap s). length (nd_nexts nd) = nd_height nd) \<and>
     1 \<le> height_at s (sl_head s) \<and> height_at s (sl_head s) \<le> max_height \<and>
     height_at s (sl_tail s) = height_at s (sl_head s) \<and>
     (\<forall>n \<in> set ns. 1 \<le> height_at s n \<and> height_at s n \<le> height_at s (sl_head s)) \<and>
     sorted_wrt (\<lambda>a b. key_at s a < key_at s b) ns"

definition sl_links :: "skiplist \<Rightarrow> addr list \<Rightarrow> bool" where
  "sl_links s ns \<longleftrightarrow>
     get_next s (sl_tail s) 0 = Some nullptr \<and>
     (\<forall>i < height_at s (sl_head s). linked s i (sl_head s # level s ns i @ [sl_tail s]))"

definition sl_counts :: "skiplist \<Rightarrow> addr list \<Rightarrow> bool" where
  "sl_counts s ns \<longleftrightarrow>
     sl_num_entries s = of_nat (length ns) \<and> sl_num_bytes s = of_nat (kvs_size (kvs_at s ns))"

definition sl_nodes :: "skiplist \<Rightarrow> addr list \<Rightarrow> bool" where
  "sl_nodes s ns \<longleftrightarrow> sl_shape s ns \<and> sl_links s ns \<and> sl_counts s ns"

definition sl_rep :: "skiplist \<Rightarrow> kvs \<Rightarrow> bool" where
  "sl_rep s ps \<longleftrightarrow> (\<exists>ns. sl_nodes s ns \<and> kvs_at s ns = ps)"

lemma linked_append:
  "linked s i (xs @ y # ys) \<longleftrightarrow> linked s i (xs @ [y]) \<and> linked s i (y # ys)"
proof (induction xs)
  case (Cons x xs)
  then show ?case by (cases xs) auto
qed simp

lemma linked_next: "linked s i (x # w @ y # ys) \<Longrightarrow> get_next s (last (x # w)) i = Some y"
  by (induction w arbitrary: x) auto

lemma linked_cong:
  assumes "\<And>a. a \<in> set (butlast xs) \<Longrightarrow> get_next s a i = get_next t a i"
  shows "linked s i xs = linked t i xs"
  using assms by (induction s i xs rule: linked.induct) auto

section \<open>Searches\<close>

fun descended :: "(nat \<Rightarrow> 'st \<Rightarrow> 'st) \<Rightarrow> nat \<Rightarrow> 'st \<Rightarrow> 'st" where
  "descended upd 0 st = st"
| "descended upd (Suc i) st = descended upd i (upd (Suc i) st)"

abbreviation prev_at :: "skiplist \<Rightarrow> addr list \<Rightarrow> nat \<Rightarrow> addr" where
  "prev_at s pre i \<equiv> last (sl_head s # level s pre i)"

lemma in_cells: "sl_shape s ns \<Longrightarrow> n \<in> set (cells s ns) \<Longrightarrow> \<exists>nd. sl_heap s n = Some nd"
  by (auto simp: sl_shape_def)

lemma last_in_lower_level:
  "prev_at s pre (Suc i) \<in> set (sl_head s # level s pre i)"
  using last_in_set [of "sl_head s # level s pre (Suc i)"] by auto

text \<open>
  Every search walks right along a level while the next node satisfies \<open>P\<close> and then goes one
  level down. \<open>f\<close> is the loop, \<open>st\<close> what it carries, \<open>upd\<close> what it does to it on the way down.
\<close>

lemma search_descends:
  assumes links: "sl_links s (pre @ post)"
    and P: "\<forall>n \<in> set pre. P n" "\<forall>n \<in> set post. \<not> P n" "\<not> P (sl_tail s)"
    and step: "\<And>x i y st. get_next s x i = Some y \<Longrightarrow> y \<in> set pre \<Longrightarrow> f x i st = f y i st"
    and down: "\<And>x i y st. get_next s x (Suc i) = Some y \<Longrightarrow> y \<in> set post \<union> {sl_tail s} \<Longrightarrow>
      x = prev_at s pre (Suc i) \<Longrightarrow> I (Suc i) st \<Longrightarrow>
      f x (Suc i) st = f x i (upd (Suc i) st) \<and> I i (upd (Suc i) st)"
  shows "i < height_at s (sl_head s) \<Longrightarrow> I i st \<Longrightarrow> x \<in> set (sl_head s # level s pre i) \<Longrightarrow>
    f x i st = f (prev_at s pre 0) 0 (descended upd i st) \<and> I 0 (descended upd i st)"
proof (induction i arbitrary: x st)
  have walk: "linked s i (x # w @ y # rest) \<Longrightarrow> set w \<subseteq> set pre \<Longrightarrow>
      f x i st = f (last (x # w)) i st" for i x w y rest st
    by (induction w arbitrary: x) (auto simp: step)
  have at: "f x i st = f (prev_at s pre i) i st \<and>
      (\<exists>y \<in> set post \<union> {sl_tail s}. get_next s (prev_at s pre i) i = Some y)"
    if i: "i < height_at s (sl_head s)" and x: "x \<in> set (sl_head s # level s pre i)" for i x st
  proof -
    obtain u w where uw: "sl_head s # level s pre i = u @ x # w"
      using split_list [OF x] by blast
    obtain y rest where yr: "level s post i @ [sl_tail s] = y # rest"
      by (cases "level s post i") auto
    have "y \<in> set (level s post i @ [sl_tail s])" by (simp add: yr)
    then have y: "y \<in> set post \<union> {sl_tail s}" by auto
    have "linked s i ((sl_head s # level s pre i) @ level s post i @ [sl_tail s])"
      using links i by (simp add: sl_links_def)
    then have "linked s i (u @ x # w @ y # rest)"
      unfolding uw yr by simp
    then have l: "linked s i (x # w @ y # rest)"
      using linked_append by blast
    have last: "last (x # w) = prev_at s pre i"
      using arg_cong [OF uw, of last] by simp
    have "set w \<subseteq> set pre"
    proof
      fix z assume z: "z \<in> set w"
      have "tl (sl_head s # level s pre i) = tl (u @ x # w)" by (simp only: uw)
      then have "level s pre i = tl (u @ [x]) @ w" by (cases u) auto
      then have "z \<in> set (level s pre i)" using z by simp
      then show "z \<in> set pre" by simp
    qed
    then show ?thesis
      using walk [OF l, of st] linked_next [OF l] y unfolding last by blast
  qed
  {
    case 0
    then show ?case using at [of 0 x st] by simp
  next
    case (Suc i)
    obtain y where y: "y \<in> set post \<union> {sl_tail s}"
        "get_next s (prev_at s pre (Suc i)) (Suc i) = Some y"
      and fx: "f x (Suc i) st = f (prev_at s pre (Suc i)) (Suc i) st"
      using at [OF Suc.prems(1,3), of st] by blast
    note d = down [OF y(2,1) refl Suc.prems(2)]
    have "f (prev_at s pre (Suc i)) i (upd (Suc i) st) =
        f (prev_at s pre 0) 0 (descended upd i (upd (Suc i) st)) \<and>
        I 0 (descended upd i (upd (Suc i) st))"
      using d last_in_lower_level [where s = s and pre = pre and i = i] Suc.prems(1) by (intro Suc.IH) auto
    with fx d show ?case by simp
  }
qed


definition before_key :: "skiplist \<Rightarrow> addr list \<Rightarrow> bytes \<Rightarrow> addr list" where
  "before_key s ns k = takeWhile (\<lambda>n. key_at s n < k) ns"

definition from_key :: "skiplist \<Rightarrow> addr list \<Rightarrow> bytes \<Rightarrow> addr list" where
  "from_key s ns k = dropWhile (\<lambda>n. key_at s n < k) ns"

lemma key_split: "before_key s ns k @ from_key s ns k = ns"
  by (simp add: before_key_def from_key_def)

lemma sorted_from_key:
  assumes "sorted_wrt (\<lambda>a b. key_at s a < key_at s b) ns" and "n \<in> set (from_key s ns k)"
  shows "\<not> key_at s n < k"
proof (cases "from_key s ns k")
  case Nil
  with assms(2) show ?thesis by simp
next
  case (Cons m ms)
  have "\<not> key_at s m < k"
  proof -
    have "dropWhile (\<lambda>n. key_at s n < k) ns \<noteq> []" using Cons by (simp add: from_key_def)
    from hd_dropWhile [OF this] show ?thesis using Cons by (simp add: from_key_def)
  qed
  moreover have "sorted_wrt (\<lambda>a b. key_at s a < key_at s b) (m # ms)"
    using assms(1) by (metis Cons key_split sorted_wrt_append)
  then have "n = m \<or> key_at s m < key_at s n"
    using assms(2) Cons by auto
  ultimately show ?thesis by (auto simp: not_less intro: order.strict_implies_order order.trans)
qed

lemma before_key_less: "n \<in> set (before_key s ns k) \<Longrightarrow> key_at s n < k"
  by (auto simp: before_key_def dest: set_takeWhileD)

lemma key_before_node:
  "sl_shape s ns \<Longrightarrow> n \<in> set ns \<Longrightarrow> key_before s n k = Some (key_at s n < k)"
  by (auto simp: key_before_def key_at_def sl_shape_def dest!: in_cells split: option.splits)

lemma key_before_tail: "key_before s (sl_tail s) k = Some False"
  by (simp add: key_before_def)

lemma key_before_search:
  assumes "sl_shape s ns"
  shows "y \<in> set (before_key s ns k) \<Longrightarrow> key_before s y k = Some True"
    and "y \<in> set (from_key s ns k) \<union> {sl_tail s} \<Longrightarrow> key_before s y k = Some False"
proof -
  have sub: "set (before_key s ns k) \<subseteq> set ns" "set (from_key s ns k) \<subseteq> set ns"
    by (auto simp: before_key_def from_key_def dest: set_takeWhileD set_dropWhileD)
  have "sorted_wrt (\<lambda>a b. key_at s a < key_at s b) ns"
    using assms by (simp add: sl_shape_def)
  note ge = sorted_from_key [OF this]
  show "y \<in> set (before_key s ns k) \<Longrightarrow> key_before s y k = Some True"
    using sub(1) by (simp add: subset_eq key_before_node [OF assms] before_key_less)
  show "y \<in> set (from_key s ns k) \<union> {sl_tail s} \<Longrightarrow> key_before s y k = Some False"
    using sub(2) by (auto simp: subset_eq key_before_node [OF assms] ge key_before_tail)
qed

text \<open>The node at which a search at level 0 stops, and the one after it.\<close>

lemma first_from_level0:
  assumes shape: "sl_shape s (pre @ post)" and links: "sl_links s (pre @ post)"
  shows "get_next s (prev_at s pre 0) 0 = Some (hd (post @ [sl_tail s]))"
    and "level s post 0 = post"
proof -
  have h: "0 < height_at s (sl_head s)" and "\<forall>n \<in> set (pre @ post). 0 < height_at s n"
    using shape by (auto simp: sl_shape_def Suc_le_eq)
  then show post0: "level s post 0 = post" by auto
  have "linked s 0 (sl_head s # level s (pre @ post) 0 @ [sl_tail s])"
    using links h by (auto simp: sl_links_def)
  then have "linked s 0 ((sl_head s # level s pre 0) @ post @ [sl_tail s])"
    by (simp add: post0)
  then show "get_next s (prev_at s pre 0) 0 = Some (hd (post @ [sl_tail s]))"
    using linked_next [of s 0 "sl_head s" "level s pre 0"] by (cases post) auto
qed

lemma top_level: "sl_shape s ns \<Longrightarrow> get_max_height s = Some (height_at s (sl_head s)) \<and>
    height_at s (sl_head s) - 1 < height_at s (sl_head s)"
  by (auto simp: sl_shape_def get_max_height_def height_at_def split: option.splits)

definition record_prev :: "skiplist \<Rightarrow> addr list \<Rightarrow> nat \<Rightarrow> addr list option \<Rightarrow> addr list option" where
  "record_prev s pre i = map_option (\<lambda>ps. ps[i := prev_at s pre i])"

lemma record_prev_simps [simp]:
  "record_prev s pre i (Some ps) = Some (ps[i := prev_at s pre i])"
  "record_prev s pre i None = None"
  by (simp_all add: record_prev_def)

lemma descended_record_prev:
  "i < length ps \<Longrightarrow> \<exists>qs. descended (record_prev s pre) i (Some ps) = Some qs \<and>
     length qs = length ps \<and> (\<forall>j. 0 < j \<and> j \<le> i \<longrightarrow> qs ! j = prev_at s pre j) \<and>
     (\<forall>j. i < j \<longrightarrow> qs ! j = ps ! j)"
proof (induction i arbitrary: ps)
  case (Suc i)
  then obtain qs where "descended (record_prev s pre) i (Some (ps[Suc i := prev_at s pre (Suc i)])) = Some qs"
      "length qs = length ps" "\<forall>j. 0 < j \<and> j \<le> i \<longrightarrow> qs ! j = prev_at s pre j"
      "\<forall>j. i < j \<longrightarrow> qs ! j = ps[Suc i := prev_at s pre (Suc i)] ! j"
    using Suc.IH [of "ps[Suc i := prev_at s pre (Suc i)]"] by auto
  moreover from this Suc.prems have "qs ! Suc i = prev_at s pre (Suc i)" by simp
  ultimately show ?case
    by (intro exI [of _ qs]) (auto simp: le_Suc_eq simp del: last.simps)
qed simp

lemma descended_record_prev_None: "descended (record_prev s pre) i None = None"
  by (induction i) auto

lemma find_ge_loop_descends:
  assumes shape: "sl_shape s ns" and links: "sl_links s ns"
    and prevs: "\<And>ps. prevs = Some ps \<Longrightarrow> length ps = max_height"
  shows "findGreatorOrEqual s k prevs =
    Some (hd (from_key s ns k @ [sl_tail s]),
          record_prev s (before_key s ns k) 0
            (descended (record_prev s (before_key s ns k)) (height_at s (sl_head s) - 1) prevs))"
proof -
  let ?pre = "before_key s ns k" and ?post = "from_key s ns k"
  let ?I = "\<lambda>i st. i < max_height \<and> (\<forall>ps. st = Some ps \<longrightarrow> length ps = max_height)"
  let ?top = "height_at s (sl_head s) - 1"
  have le: "height_at s (sl_head s) \<le> max_height" using shape by (simp add: sl_shape_def)
  note kb = key_before_search [OF shape, where k = k]
  have split: "ns = ?pre @ ?post" by (simp add: key_split)
  have "find_ge_loop s k (sl_head s) ?top prevs =
      find_ge_loop s k (prev_at s ?pre 0) 0 (descended (record_prev s ?pre) ?top prevs) \<and>
      ?I 0 (descended (record_prev s ?pre) ?top prevs)"
  proof (rule search_descends [where P = "\<lambda>a. key_before s a k = Some True" and post = ?post])
    show "sl_links s (?pre @ ?post)" using links split by simp
    show "\<forall>n\<in>set ?pre. key_before s n k = Some True" using kb by blast
    show "\<forall>n\<in>set ?post. key_before s n k \<noteq> Some True" using kb by auto
    show "key_before s (sl_tail s) k \<noteq> Some True" by (simp add: key_before_tail)
    fix x i y and st :: "addr list option"
    show "get_next s x i = Some y \<Longrightarrow> y \<in> set ?pre \<Longrightarrow> find_ge_loop s k x i st = find_ge_loop s k y i st"
      by (subst find_ge_loop.simps) (simp add: kb)
    assume "get_next s x (Suc i) = Some y" "y \<in> set ?post \<union> {sl_tail s}"
      and x: "x = prev_at s ?pre (Suc i)" and I: "?I (Suc i) st"
    then have "find_ge_loop s k x (Suc i) st = find_ge_loop s k x i (record_prev s ?pre (Suc i) st)"
      by (subst find_ge_loop.simps, subst (2) x)
        (auto simp: kb store_prev_def simp del: last.simps split: option.splits)
    then show "find_ge_loop s k x (Suc i) st = find_ge_loop s k x i (record_prev s ?pre (Suc i) st) \<and>
        ?I i (record_prev s ?pre (Suc i) st)"
      using I by (cases st) auto
  next
    show "?top < height_at s (sl_head s)" using top_level [OF shape] by blast
    then show "?I ?top prevs" using le prevs by auto
  qed simp
  moreover have "find_ge_loop s k (prev_at s ?pre 0) 0 st =
      Some (hd (?post @ [sl_tail s]), record_prev s ?pre 0 st)" if "?I 0 st" for st
    using first_from_level0 [of s ?pre ?post] shape links split kb(2) [of "hd (?post @ [sl_tail s])"] that
    by (subst find_ge_loop.simps)
      (cases ?post; auto simp: store_prev_def max_height_def simp del: last.simps split: option.splits)
  ultimately show ?thesis
    using top_level [OF shape] by (simp add: findGreatorOrEqual_def)
qed

lemma find_ge_None:
  assumes "sl_shape s ns" and "sl_links s ns"
  shows "findGreatorOrEqual s k None = Some (hd (from_key s ns k @ [sl_tail s]), None)"
  using find_ge_loop_descends [OF assms, of None k]
  by (simp add: descended_record_prev_None)

lemma find_ge_Some:
  assumes "sl_shape s ns" and "sl_links s ns"
  shows "\<exists>ps. findGreatorOrEqual s k (Some (replicate max_height nullptr)) =
      Some (hd (from_key s ns k @ [sl_tail s]), Some ps) \<and> length ps = max_height \<and>
      (\<forall>i < height_at s (sl_head s). ps ! i = prev_at s (before_key s ns k) i)"
proof -
  let ?top = "height_at s (sl_head s) - 1" and ?pre = "before_key s ns k"
  have top: "?top < max_height" "height_at s (sl_head s) = Suc ?top"
    using assms(1) by (auto simp: sl_shape_def max_height_def)
  obtain qs where qs: "descended (record_prev s ?pre) ?top (Some (replicate max_height nullptr)) = Some qs"
      "length qs = max_height" "\<forall>j. 0 < j \<and> j \<le> ?top \<longrightarrow> qs ! j = prev_at s ?pre j"
    using descended_record_prev [of ?top "replicate max_height nullptr" s ?pre] top(1) by auto
  have "\<forall>i < height_at s (sl_head s). qs[0 := prev_at s ?pre 0] ! i = prev_at s ?pre i"
    using qs(2,3) top by (auto simp: nth_list_update less_Suc_eq_le simp del: last.simps)
  then show ?thesis
    using find_ge_loop_descends [OF assms, of "Some (replicate max_height nullptr)" k] qs(1,2)
    by (auto simp del: last.simps)
qed

section \<open>Reads after writes\<close>

definition skeleton :: "skiplist \<Rightarrow> addr \<Rightarrow> (bytes \<times> bytes \<times> nat \<times> nat) option" where
  "skeleton s a = map_option (\<lambda>nd. (nd_key nd, nd_value nd, nd_height nd, length (nd_nexts nd))) (sl_heap s a)"

text \<open>Two states that differ at most in what the level pointers point to.\<close>

definition same_skeleton :: "skiplist \<Rightarrow> skiplist \<Rightarrow> bool" where
  "same_skeleton s t \<longleftrightarrow> skeleton s = skeleton t \<and> sl_head s = sl_head t \<and> sl_tail s = sl_tail t \<and>
     sl_fresh s = sl_fresh t \<and> sl_num_entries s = sl_num_entries t \<and> sl_num_bytes s = sl_num_bytes t"

lemma at_skeleton:
  "key_at s a = (case skeleton s a of Some (k, v, h, l) \<Rightarrow> k | None \<Rightarrow> [])"
  "value_at s a = (case skeleton s a of Some (k, v, h, l) \<Rightarrow> v | None \<Rightarrow> [])"
  "height_at s a = (case skeleton s a of Some (k, v, h, l) \<Rightarrow> h | None \<Rightarrow> 0)"
  by (auto simp: skeleton_def key_at_def value_at_def height_at_def split: option.splits)

lemma shape_skeleton:
  "dom (sl_heap s) = dom (skeleton s)"
  "(\<forall>nd \<in> ran (sl_heap s). length (nd_nexts nd) = nd_height nd) \<longleftrightarrow>
     (\<forall>a. case skeleton s a of Some (k, v, h, l) \<Rightarrow> l = h | None \<Rightarrow> True)"
  by (simp_all add: skeleton_def dom_def ran_def set_eq_iff split: option.splits) metis

lemma same_skeleton_at [store_simps]:
  assumes "same_skeleton s t"
  shows "key_at t a = key_at s a" "value_at t a = value_at s a" "height_at t a = height_at s a"
    "sl_head t = sl_head s" "sl_tail t = sl_tail s" "kvs_at t ns = kvs_at s ns"
    "sl_num_entries t = sl_num_entries s" "sl_num_bytes t = sl_num_bytes s"
  using assms by (simp_all add: same_skeleton_def at_skeleton kvs_at_def)

lemma same_skeleton_shape: "same_skeleton s t \<Longrightarrow> sl_shape t ns = sl_shape s ns"
  by (simp add: sl_shape_def same_skeleton_def at_skeleton shape_skeleton)

lemma same_skeleton_refl [simp]: "same_skeleton s s"
  by (simp add: same_skeleton_def)

lemma same_skeleton_trans: "same_skeleton s t \<Longrightarrow> same_skeleton t u \<Longrightarrow> same_skeleton s u"
  by (simp add: same_skeleton_def)

lemma set_next_Some:
  assumes "get_next s a i \<noteq> None"
  shows "\<exists>t. set_next s a i b = Some t \<and> same_skeleton s t \<and>
    (\<forall>c j. get_next t c j = (if c = a \<and> j = i then Some b else get_next s c j))"
proof -
  obtain nd where nd: "sl_heap s a = Some nd" "i < length (nd_nexts nd)"
    using assms by (auto simp: get_next_def nth_opt_def bind_eq_Some_conv split: if_splits)
  let ?t = "s\<lparr>sl_heap := (sl_heap s)(a \<mapsto> nd\<lparr>nd_nexts := (nd_nexts nd)[i := b]\<rparr>)\<rparr>"
  have "set_next s a i b = Some ?t" using nd by (simp add: set_next_def)
  moreover have "same_skeleton s ?t"
    using nd by (auto simp: same_skeleton_def skeleton_def fun_eq_iff)
  moreover have "get_next ?t c j = (if c = a \<and> j = i then Some b else get_next s c j)" for c j
    using nd by (auto simp: get_next_def nth_opt_def)
  ultimately show ?thesis by blast
qed

lemma link_levels_Some:
  assumes "distinct is"
    and "\<forall>i \<in> set is. i < length ps \<and> ps ! i \<noteq> node \<and> get_next s (ps ! i) i \<noteq> None \<and> get_next s node i \<noteq> None"
  shows "\<exists>t. link_levels s node ps is = Some t \<and> same_skeleton s t \<and>
    (\<forall>c j. get_next t c j =
       (if j \<in> set is \<and> c = ps ! j then Some node
        else if j \<in> set is \<and> c = node then get_next s (ps ! j) j else get_next s c j))"
  using assms
proof (induction "is" arbitrary: s)
  case (Cons i "is")
  obtain n where n: "get_next s (ps ! i) i = Some n" using Cons.prems by auto
  obtain s1 where s1: "set_next s node i n = Some s1" "same_skeleton s s1"
      "\<forall>c j. get_next s1 c j = (if c = node \<and> j = i then Some n else get_next s c j)"
    using set_next_Some [of s node i n] Cons.prems by auto
  obtain s2 where s2: "set_next s1 (ps ! i) i node = Some s2" "same_skeleton s1 s2"
      "\<forall>c j. get_next s2 c j = (if c = ps ! i \<and> j = i then Some node else get_next s1 c j)"
    using set_next_Some [of s1 "ps ! i" i node] n s1(3) Cons.prems by auto
  obtain t where t: "link_levels s2 node ps is = Some t" "same_skeleton s2 t"
      "\<forall>c j. get_next t c j =
       (if j \<in> set is \<and> c = ps ! j then Some node
        else if j \<in> set is \<and> c = node then get_next s2 (ps ! j) j else get_next s2 c j)"
    using Cons.IH [of s2] Cons.prems s1(3) s2(3) by fastforce
  have "link_levels s node ps (i # is) = Some t"
    using Cons.prems n s1(1) s2(1) t(1) by simp
  moreover have "same_skeleton s t"
    using s1(2) s2(2) t(2) by (blast intro: same_skeleton_trans)
  moreover have "get_next t c j =
       (if j \<in> set (i # is) \<and> c = ps ! j then Some node
        else if j \<in> set (i # is) \<and> c = node then get_next s (ps ! j) j else get_next s c j)" for c j
    using Cons.prems n by (auto simp: s1(3) s2(3) t(3))
  ultimately show ?case by blast
qed simp

lemma unlink_levels_Some:
  assumes "distinct is"
    and "\<forall>i \<in> set is. i < length ps \<and> ps ! i \<noteq> node \<and> get_next s (ps ! i) i \<noteq> None \<and> get_next s node i \<noteq> None"
  shows "\<exists>t. unlink_levels s node ps is = Some t \<and> same_skeleton s t \<and>
    (\<forall>c j. get_next t c j = (if j \<in> set is \<and> c = ps ! j then get_next s node j else get_next s c j))"
  using assms
proof (induction "is" arbitrary: s)
  case (Cons i "is")
  obtain n where n: "get_next s node i = Some n" using Cons.prems by auto
  obtain s1 where s1: "set_next s (ps ! i) i n = Some s1" "same_skeleton s s1"
      "\<forall>c j. get_next s1 c j = (if c = ps ! i \<and> j = i then Some n else get_next s c j)"
    using set_next_Some [of s "ps ! i" i n] Cons.prems by auto
  obtain t where t: "unlink_levels s1 node ps is = Some t" "same_skeleton s1 t"
      "\<forall>c j. get_next t c j = (if j \<in> set is \<and> c = ps ! j then get_next s1 node j else get_next s1 c j)"
    using Cons.IH [of s1] Cons.prems s1(3) by fastforce
  have "unlink_levels s node ps (i # is) = Some t"
    using Cons.prems n s1(1) t(1) by simp
  moreover have "same_skeleton s t"
    using s1(2) t(2) by (blast intro: same_skeleton_trans)
  moreover have "get_next t c j =
       (if j \<in> set (i # is) \<and> c = ps ! j then get_next s node j else get_next s c j)" for c j
    using Cons.prems n by (auto simp: s1(3) t(3))
  ultimately show ?case by blast
qed simp

section \<open>Chains\<close>

lemma linked_snoc:
  "xs \<noteq> [] \<Longrightarrow> linked s i (xs @ y # ys) \<longleftrightarrow>
     linked s i xs \<and> get_next s (last xs) i = Some y \<and> linked s i (y # ys)"
proof (induction xs)
  case (Cons x xs)
  then show ?case by (cases xs) auto
qed simp

lemma linked_cong_set: "\<forall>a \<in> set xs. get_next s a i = get_next t a i \<Longrightarrow> linked s i xs = linked t i xs"
  by (rule linked_cong) (auto dest: in_set_butlastD)

lemma linked_insert:
  assumes "linked s i (xs @ y # ys)" and "xs \<noteq> []"
    and "get_next t (last xs) i = Some node" and "get_next t node i = Some y"
    and "\<And>a. a \<in> set (butlast xs) \<union> set (y # ys) \<Longrightarrow> get_next t a i = get_next s a i"
  shows "linked t i (xs @ node # y # ys)"
proof -
  have "linked s i xs" "linked s i (y # ys)" using assms(1,2) by (simp_all add: linked_snoc)
  then have "linked t i xs" "linked t i (y # ys)"
    using linked_cong [of xs t i s] linked_cong_set [of "y # ys" t i s] assms(5) by auto
  then show ?thesis using assms(2-4) by (simp add: linked_snoc)
qed

lemma linked_remove:
  assumes "linked s i (xs @ node # y # ys)" and "xs \<noteq> []"
    and "get_next t (last xs) i = Some y"
    and "\<And>a. a \<in> set (butlast xs) \<union> set (y # ys) \<Longrightarrow> get_next t a i = get_next s a i"
  shows "linked t i (xs @ y # ys)"
proof -
  have "linked s i xs" "linked s i (y # ys)" using assms(1,2) by (simp_all add: linked_snoc)
  then have "linked t i xs" "linked t i (y # ys)"
    using linked_cong [of xs t i s] linked_cong_set [of "y # ys" t i s] assms(4) by auto
  then show ?thesis using assms(2,3) by (simp add: linked_snoc)
qed

section \<open>Insertion and deletion\<close>

lemma get_next_linked:
  "linked s i (xs @ y # ys) \<Longrightarrow> xs \<noteq> [] \<Longrightarrow> get_next s (last xs) i = Some y"
  by (simp add: linked_snoc)

lemma prev_at_next:
  assumes "sl_links s (pre @ post)" and "i < height_at s (sl_head s)"
  shows "get_next s (prev_at s pre i) i = Some (hd (level s post i @ [sl_tail s]))"
proof -
  have "linked s i ((sl_head s # level s pre i) @ level s post i @ [sl_tail s])"
    using assms by (simp add: sl_links_def)
  then show ?thesis
    using get_next_linked [of s i "sl_head s # level s pre i"] by (cases "level s post i") auto
qed

lemma prev_at_cell: "prev_at s pre i \<in> set (sl_head s # pre)"
  using last_in_set [of "sl_head s # level s pre i"] by auto

text \<open>Growing the level arrays adds empty levels.\<close>

lemma enlarge_height_Some:
  assumes shape: "sl_shape s ns" and links: "sl_links s ns"
    and h: "height_at s (sl_head s) < h" "h \<le> max_height"
  shows "\<exists>t. enlarge_height s h = Some t \<and> sl_shape t ns \<and> sl_links t ns \<and>
    sl_head t = sl_head s \<and> sl_tail t = sl_tail s \<and> sl_fresh t = sl_fresh s \<and>
    height_at t (sl_head s) = h \<and> kvs_at t ns = kvs_at s ns \<and>
    (\<forall>n \<in> set ns. key_at t n = key_at s n \<and> height_at t n = height_at s n) \<and>
    sl_num_entries t = sl_num_entries s \<and> sl_num_bytes t = sl_num_bytes s"
proof -
  obtain hd tl where nds: "sl_heap s (sl_head s) = Some hd" "sl_heap s (sl_tail s) = Some tl"
    using in_cells [OF shape, of "sl_head s"] in_cells [OF shape, of "sl_tail s"] by auto
  let ?hd = "hd\<lparr>nd_height := h,
    nd_nexts := take (nd_height hd) (nd_nexts hd) @ replicate (h - nd_height hd) (sl_tail s)\<rparr>"
  let ?tl = "tl\<lparr>nd_height := h, nd_nexts := replicate h nullptr\<rparr>"
  define t where "t = s\<lparr>sl_heap := (sl_heap s)(sl_head s \<mapsto> ?hd, sl_tail s \<mapsto> ?tl)\<rparr>"
  have heap: "sl_heap t = (sl_heap s)(sl_head s \<mapsto> ?hd, sl_tail s \<mapsto> ?tl)"
    and same_fields: "sl_head t = sl_head s" "sl_tail t = sl_tail s" "sl_fresh t = sl_fresh s"
      "sl_num_entries t = sl_num_entries s" "sl_num_bytes t = sl_num_bytes s"
    by (simp_all add: t_def)
  have ht: "height_at s (sl_head s) = nd_height hd" "length (nd_nexts hd) = nd_height hd"
    and ne: "sl_head s \<noteq> sl_tail s" "sl_head s \<notin> set ns" "sl_tail s \<notin> set ns"
    and pos: "0 < h" "nd_height hd \<noteq> 0"
    using shape nds h by (auto simp: sl_shape_def height_at_def ran_def)
  have t: "enlarge_height s h = Some t" using nds by (simp add: enlarge_height_def t_def)
  have same: "key_at t n = key_at s n \<and> value_at t n = value_at s n \<and> height_at t n = height_at s n"
    if "n \<in> set ns" for n
    using that ne by (auto simp: key_at_def value_at_def height_at_def heap)
  have hts: "height_at t (sl_head s) = h" "height_at t (sl_tail s) = h"
    using ne by (auto simp: height_at_def heap)
  have lev: "level t ns i = level s ns i" for i
    using same by (auto intro: filter_cong)
  have old: "get_next t a i = get_next s a i" if "i < nd_height hd" "a \<noteq> sl_tail s" for a i
    using that nds ht ne by (auto simp: get_next_def nth_opt_def nth_append heap)
  have new: "get_next t (sl_head s) i = Some (sl_tail s)" if "nd_height hd \<le> i" "i < h" for i
    using that nds ht ne by (auto simp: get_next_def nth_opt_def nth_append heap)
  have empty: "level s ns i = []" if "nd_height hd \<le> i" for i
    using shape that ht by (fastforce simp: sl_shape_def filter_empty_conv)
  have "linked t i (sl_head s # level s ns i @ [sl_tail s])" if i: "i < h" for i
  proof (cases "i < nd_height hd")
    case True
    then have "linked s i (sl_head s # level s ns i @ [sl_tail s])"
      using links ht by (simp add: sl_links_def)
    moreover have "linked t i (sl_head s # level s ns i @ [sl_tail s]) =
        linked s i (sl_head s # level s ns i @ [sl_tail s])"
      by (rule linked_cong) (use True ne in \<open>auto simp: butlast_append intro!: old\<close>)
    ultimately show ?thesis by simp
  next
    case False
    then show ?thesis using new empty i by simp
  qed
  then have l: "sl_links t ns"
    using hts lev pos by (auto simp: sl_links_def get_next_def nth_opt_def heap same_fields)
  have "dom (sl_heap t) = dom (sl_heap s)" using nds by (auto simp: heap)
  moreover have "\<forall>nd \<in> ran (sl_heap t). length (nd_nexts nd) = nd_height nd"
    using shape ht h(1) by (auto simp: sl_shape_def heap ran_def)
  moreover have "sorted_wrt (\<lambda>a b. key_at t a < key_at t b) ns"
    using shape same by (auto simp: sl_shape_def intro: sorted_wrt_mono_rel [rotated])
  ultimately have "sl_shape t ns"
    using shape h hts same pos ht(1) by (auto simp: sl_shape_def same_fields)
  with t l same hts same_fields show ?thesis by (auto simp: kvs_at_def)
qed

lemma alloc_shape:
  assumes shape: "sl_shape s (pre @ post)" and h: "1 \<le> h" "h \<le> height_at s (sl_head s)"
    and order: "\<forall>n \<in> set pre. key_at s n < k" "\<forall>n \<in> set post. k < key_at s n"
    and al: "alloc s (new_node k v h) = (node, t)"
  shows "node = sl_fresh s" and "node \<notin> set (cells s (pre @ post))"
    and "sl_shape t (pre @ node # post)"
    and "kvs_at t (pre @ node # post) = kvs_at s pre @ (k, v) # kvs_at s post"
    and "height_at t node = h" and "\<forall>a. a \<noteq> node \<longrightarrow> height_at t a = height_at s a"
    and "\<forall>a i. a \<noteq> node \<longrightarrow> get_next t a i = get_next s a i"
    and "\<forall>i. get_next t node i = (if i < h then Some nullptr else None)"
    and "sl_head t = sl_head s" "sl_tail t = sl_tail s"
    and "sl_num_entries t = sl_num_entries s" "sl_num_bytes t = sl_num_bytes s"
proof -
  have al': "node = sl_fresh s" "sl_heap t = (sl_heap s)(node \<mapsto> new_node k v h)" "sl_fresh t = node + 1"
    "sl_head t = sl_head s" "sl_tail t = sl_tail s"
    "sl_num_entries t = sl_num_entries s" "sl_num_bytes t = sl_num_bytes s"
    using al by (auto simp: alloc_def)
  have dom: "dom (sl_heap s) = set (cells s (pre @ post))" and dist: "distinct (cells s (pre @ post))"
    and fresh: "\<forall>a \<in> dom (sl_heap s). a \<noteq> nullptr \<and> a < sl_fresh s" "sl_fresh s \<noteq> nullptr"
    and sorted: "sorted_wrt (\<lambda>a b. key_at s a < key_at s b) (pre @ post)"
    using shape by (simp_all add: sl_shape_def)
  show nd: "node = sl_fresh s" by (fact al')
  show out: "node \<notin> set (cells s (pre @ post))"
    using fresh(1) nd unfolding dom [symmetric] by auto
  have keys: "key_at t node = k" "value_at t node = v" "height_at t node = h"
    and same: "key_at t a = key_at s a" "value_at t a = value_at s a" "height_at t a = height_at s a"
    if "a \<noteq> node" for a
    using that by (auto simp: key_at_def value_at_def height_at_def al'(2) new_node_def)
  show "height_at t node = h" "\<forall>a. a \<noteq> node \<longrightarrow> height_at t a = height_at s a"
    using keys same by (auto simp: height_at_def al'(2) new_node_def)
  show "\<forall>a i. a \<noteq> node \<longrightarrow> get_next t a i = get_next s a i"
    "\<forall>i. get_next t node i = (if i < h then Some nullptr else None)"
    by (auto simp: get_next_def al'(2) new_node_def nth_opt_def)
  show "sl_head t = sl_head s" "sl_tail t = sl_tail s"
    "sl_num_entries t = sl_num_entries s" "sl_num_bytes t = sl_num_bytes s" by (fact al')+
  have ne: "n \<noteq> node" if "n \<in> set pre \<union> set post \<union> {sl_head s, sl_tail s}" for n
    using out that by auto
  have kn: "key_at t node = k" "value_at t node = v" "height_at t node = h"
    by (auto simp: key_at_def value_at_def height_at_def al'(2) new_node_def)
  show "kvs_at t (pre @ node # post) = kvs_at s pre @ (k, v) # kvs_at s post"
    using ne same kn by (auto simp: kvs_at_def)
  have "sorted_wrt (\<lambda>a b. key_at t a < key_at t b) (pre @ node # post)"
  proof -
    have "sorted_wrt (\<lambda>a b. key_at t a < key_at t b) pre" "sorted_wrt (\<lambda>a b. key_at t a < key_at t b) post"
      using sorted ne same by (auto simp: sorted_wrt_append intro: sorted_wrt_mono_rel [rotated])
    then show ?thesis
      using sorted order ne same kn by (auto simp: sorted_wrt_append)
  qed
  moreover have "dom (sl_heap t) = set (cells t (pre @ node # post))"
    using dom al'(2,4,5) by auto
  moreover have "distinct (cells t (pre @ node # post))"
    using dist out al'(4,5) by auto
  moreover have "\<forall>nd \<in> ran (sl_heap t). length (nd_nexts nd) = nd_height nd"
    using shape by (auto simp: sl_shape_def al'(2) ran_def new_node_def)
  moreover have "\<forall>a \<in> dom (sl_heap t). a \<noteq> nullptr \<and> a < sl_fresh t"
    using fresh by (auto simp: al'(1,2,3) dest: less_SucI)
  ultimately show "sl_shape t (pre @ node # post)"
    using shape h kn same ne by (auto simp: sl_shape_def al'(3-5))
qed

lemma insert_links:
  assumes shape: "sl_shape s (pre @ post)" and links: "sl_links s (pre @ post)"
    and h: "1 \<le> h" "h \<le> height_at s (sl_head s)"
    and ps: "h \<le> length ps" "\<forall>i < h. ps ! i = prev_at s pre i"
    and order: "\<forall>n \<in> set pre. key_at s n < k" "\<forall>n \<in> set post. k < key_at s n"
    and al: "alloc s (new_node k v h) = (node, s2)"
  shows "\<exists>t. link_levels s2 node ps [0..<h] = Some t \<and>
    sl_shape t (pre @ node # post) \<and> sl_links t (pre @ node # post) \<and>
    kvs_at t (pre @ node # post) = kvs_at s pre @ (k, v) # kvs_at s post \<and>
    sl_num_entries t = sl_num_entries s \<and> sl_num_bytes t = sl_num_bytes s"
proof -
  note A = alloc_shape [OF shape h order al]
  have cell: "ps ! i \<in> set (sl_head s # pre)" if "i < h" for i
    using prev_at_cell [of s i pre] ps(2) that by simp
  have nx: "get_next s (ps ! i) i = Some (hd (level s post i @ [sl_tail s]))" if "i < h" for i
    using prev_at_next [OF links, of i] ps(2) h(2) that by simp
  have psne: "ps ! i \<noteq> node" if "i < h" for i
    using cell [OF that] A(2) by auto
  obtain t where t: "link_levels s2 node ps [0..<h] = Some t" "same_skeleton s2 t"
      "\<forall>c j. get_next t c j =
         (if j \<in> set [0..<h] \<and> c = ps ! j then Some node
          else if j \<in> set [0..<h] \<and> c = node then get_next s2 (ps ! j) j else get_next s2 c j)"
    using link_levels_Some [of "[0..<h]" ps node s2] ps(1) nx psne A(7,8) by auto
  have next_t: "get_next t c j =
      (if j < h \<and> c = ps ! j then Some node
       else if c = node \<and> j < h then get_next s (ps ! j) j else get_next s c j)"
    if "c \<noteq> node \<or> j < h" for c j
    using that psne A(7) by (auto simp: t(3))
  note same = same_skeleton_at [OF t(2)]
  have lev2: "level s2 xs i = level s xs i" if "node \<notin> set xs" for xs i
    by (rule filter_cong) (use that A(6) in auto)
  have lev: "level t (pre @ node # post) i =
      level s pre i @ (if i < h then [node] else []) @ level s post i" for i
    using A(2,5) lev2 [of pre i] lev2 [of post i] by (simp add: same)
  have dist: "distinct (cells s (pre @ post))" using shape by (simp add: sl_shape_def)
  have "linked t i (sl_head s # level t (pre @ node # post) i @ [sl_tail s])"
    if i: "i < height_at s (sl_head s)" for i
  proof -
    obtain y ys where y: "level s post i @ [sl_tail s] = y # ys"
      by (cases "level s post i") auto
    have "linked s i (sl_head s # level s (pre @ post) i @ [sl_tail s])"
      using links i by (simp add: sl_links_def)
    then have old: "linked s i ((sl_head s # level s pre i) @ y # ys)"
      by (simp add: y)
    have "set (y # ys) = set (level s post i @ [sl_tail s])" by (simp only: y)
    then have rest: "set (y # ys) \<subseteq> set post \<union> {sl_tail s}" by auto
    show ?thesis
    proof (cases "i < h")
      case True
      have "linked t i ((sl_head s # level s pre i) @ node # y # ys)"
      proof (rule linked_insert [OF old])
        show "get_next t (last (sl_head s # level s pre i)) i = Some node"
          using True ps(2) psne by (simp add: next_t del: last.simps)
        show "get_next t node i = Some y"
          using True nx y psne [OF True, symmetric] by (simp add: next_t)
        fix a assume a: "a \<in> set (butlast (sl_head s # level s pre i)) \<union> set (y # ys)"
        have d: "distinct (sl_head s # level s pre i)"
          using dist by auto
        have "a \<noteq> last (sl_head s # level s pre i)"
        proof
          assume eq: "a = last (sl_head s # level s pre i)"
          then have "a \<notin> set (butlast (sl_head s # level s pre i))"
            using d distinct_butlast append_butlast_last_id
            by (metis distinct_append disjoint_iff list.set_intros(1) list.distinct(1))
          then have "a \<in> set (y # ys)" using a by blast
          with rest eq prev_at_cell [of s i pre] dist show False by auto
        qed
        moreover have "a \<in> set (sl_head s # level s pre i) \<union> set (y # ys)"
          using a by (blast dest: in_set_butlastD)
        then have "a \<in> set (cells s (pre @ post))" using rest by auto
        then have "a \<noteq> node" using A(2) by blast
        ultimately show "get_next t a i = get_next s a i"
          using True ps(2) by (simp add: next_t del: last.simps)
      qed simp
      then show ?thesis unfolding lev using True y by simp
    next
      case False
      have "\<forall>a \<in> set ((sl_head s # level s pre i) @ y # ys). get_next t a i = get_next s a i"
      proof
        fix a assume "a \<in> set ((sl_head s # level s pre i) @ y # ys)"
        then have "a \<in> set (cells s (pre @ post))" using rest by auto
        then have "a \<noteq> node" using A(2) by blast
        then show "get_next t a i = get_next s a i" using False by (simp add: next_t)
      qed
      then have "linked t i ((sl_head s # level s pre i) @ y # ys)"
        using old linked_cong_set by blast
      then show ?thesis unfolding lev using False y by simp
    qed
  qed
  moreover have "get_next t (sl_tail s) 0 = Some nullptr"
  proof -
    have "sl_tail s \<noteq> node" "sl_tail s \<noteq> ps ! 0"
      using A(2) cell [of 0] h(1) dist by auto
    then show ?thesis using links by (simp add: next_t sl_links_def)
  qed
  moreover have "height_at t (sl_head s) = height_at s (sl_head s)"
    using A(2,6) by (simp add: same)
  ultimately have "sl_links t (pre @ node # post)"
    by (simp add: sl_links_def same A(9,10))
  moreover have "sl_shape t (pre @ node # post)"
    using A(3) same_skeleton_shape [OF t(2)] by simp
  ultimately show ?thesis
    using t(1) A(4,11,12) by (auto simp: same)
qed


lemma fill_prevs_Some:
  "\<forall>i \<in> set is. i < length ps \<Longrightarrow> distinct is \<Longrightarrow>
   \<exists>qs. fill_prevs ps is h = Some qs \<and> length qs = length ps \<and>
     (\<forall>i < length ps. qs ! i = (if i \<in> set is then h else ps ! i))"
proof (induction "is" arbitrary: ps)
  case (Cons i "is")
  then obtain qs where "fill_prevs (ps[i := h]) is h = Some qs" "length qs = length ps"
      "\<forall>j < length ps. qs ! j = (if j \<in> set is then h else ps[i := h] ! j)"
    using Cons.IH [of "ps[i := h]"] by auto
  with Cons.prems show ?case by auto
qed simp

lemma random_height_bounds: "1 \<le> random_height ones" "random_height ones \<le> max_height"
proof -
  have "random_height_loop ones h = h + ones" for ones h
    by (induction ones arbitrary: h) auto
  then show "1 \<le> random_height ones" "random_height ones \<le> max_height"
    by (auto simp: random_height_def Let_def max_height_def)
qed

lemma key_equals_node:
  assumes "sl_shape s ns"
  shows "n \<in> set ns \<Longrightarrow> key_equals s n k = Some (key_at s n = k)"
    and "key_equals s (sl_tail s) k = Some False"
  using assms in_cells [OF assms, of n]
  by (auto simp: key_equals_def key_at_def sl_shape_def split: option.splits)

lemma kvs_at_append: "kvs_at s (xs @ ys) = kvs_at s xs @ kvs_at s ys"
  by (simp add: kvs_at_def)

lemma kvs_size_simps [simp]:
  "kvs_size [] = 0" "kvs_size ((k, v) # ps) = length k + length v + kvs_size ps"
  "kvs_size (ps @ qs) = kvs_size ps + kvs_size qs"
  by (simp_all add: kvs_size_def)

text \<open>Where a search for \<open>k\<close> stops: before the first node whose key is not below \<open>k\<close>.\<close>

lemma key_split_cases:
  assumes "sl_shape s ns"
  obtains (found) pre x rest where "from_key s ns k = x # rest" "key_at s x = k" "ns = pre @ x # rest"
      "before_key s ns k = pre" "\<forall>n \<in> set pre. key_at s n < k"
    | (absent) "\<forall>n \<in> set (from_key s ns k). k < key_at s n" "\<forall>n \<in> set (before_key s ns k). key_at s n < k"
      "key_equals s (hd (from_key s ns k @ [sl_tail s])) k = Some False"
proof -
  have sorted: "sorted_wrt (\<lambda>a b. key_at s a < key_at s b) ns"
    using assms by (simp add: sl_shape_def)
  have lt: "\<forall>n \<in> set (before_key s ns k). key_at s n < k"
    by (simp add: before_key_less)
  show thesis
  proof (cases "from_key s ns k")
    case Nil
    with lt key_equals_node(2) [OF assms] show thesis by (intro absent) auto
  next
    case (Cons x rest)
    then have ns: "ns = before_key s ns k @ x # rest" using key_split by metis
    then have x: "x \<in> set ns" by (metis in_set_conv_decomp)
    show thesis
    proof (cases "key_at s x = k")
      case True
      with Cons ns lt show thesis by (intro found [of x rest]) auto
    next
      case False
      have "k < key_at s x"
        using sorted_from_key [OF sorted, of x k] Cons False by auto
      moreover have "sorted_wrt (\<lambda>a b. key_at s a < key_at s b) (x # rest)"
        using sorted ns by (metis sorted_wrt_append)
      ultimately have "\<forall>n \<in> set (from_key s ns k). k < key_at s n"
        using Cons by (auto intro: order.strict_trans)
      with Cons lt x False key_equals_node(1) [OF assms x] show thesis by (intro absent) auto
    qed
  qed
qed

lemma update_nodes:
  assumes nodes: "sl_nodes s (pre @ x # rest)" and nd: "sl_heap s x = Some nd"
  shows "sl_nodes (s\<lparr>sl_num_bytes := sl_num_bytes s - size64 (nd_value nd) + size64 v,
      sl_heap := (sl_heap s)(x \<mapsto> nd\<lparr>nd_value := v\<rparr>)\<rparr>) (pre @ x # rest)" (is "sl_nodes ?t ?ns")
    and "kvs_at (s\<lparr>sl_num_bytes := sl_num_bytes s - size64 (nd_value nd) + size64 v,
      sl_heap := (sl_heap s)(x \<mapsto> nd\<lparr>nd_value := v\<rparr>)\<rparr>) (pre @ x # rest) =
      kvs_at s pre @ (key_at s x, v) # kvs_at s rest"
proof -
  define t where "t = ?t"
  have heap: "sl_heap t = (sl_heap s)(x \<mapsto> nd\<lparr>nd_value := v\<rparr>)" by (simp add: t_def)
  have fields: "sl_head t = sl_head s" "sl_tail t = sl_tail s" "sl_fresh t = sl_fresh s"
    "sl_num_entries t = sl_num_entries s"
    "sl_num_bytes t = sl_num_bytes s - size64 (nd_value nd) + size64 v"
    by (simp_all add: t_def)
  have same: "key_at t a = key_at s a" "height_at t a = height_at s a" for a
    using nd by (auto simp: key_at_def height_at_def heap)
  have val: "value_at t a = (if a = x then v else value_at s a)" for a
    by (auto simp: value_at_def heap)
  have nxt: "get_next t a i = get_next s a i" for a i
    using nd by (auto simp: get_next_def heap)
  have dist: "distinct ?ns" and dom: "dom (sl_heap t) = dom (sl_heap s)"
    using nodes nd by (auto simp: sl_nodes_def sl_shape_def heap)
  have "\<forall>nd \<in> ran (sl_heap t). length (nd_nexts nd) = nd_height nd"
    using nodes nd by (auto simp: sl_nodes_def sl_shape_def heap ran_def)
  then have shape: "sl_shape t ?ns"
    using nodes dom by (simp add: sl_nodes_def sl_shape_def fields same)
  have "linked t i xs = linked s i xs" for i xs
    by (rule linked_cong) (simp add: nxt)
  then have links: "sl_links t ?ns"
    using nodes by (simp add: sl_nodes_def sl_links_def fields same nxt)
  show kvs: "kvs_at ?t ?ns = kvs_at s pre @ (key_at s x, v) # kvs_at s rest"
    unfolding t_def [symmetric] using dist by (auto simp: kvs_at_def same val)
  have old: "kvs_at s ?ns = kvs_at s pre @ (key_at s x, nd_value nd) # kvs_at s rest"
    using nd by (simp add: kvs_at_def value_at_def)
  have "sl_counts t ?ns"
    using nodes kvs old unfolding t_def [symmetric]
    by (simp add: sl_nodes_def sl_counts_def fields size64_def)
  with shape links show "sl_nodes ?t ?ns" unfolding t_def [symmetric] by (simp add: sl_nodes_def)
qed

lemma insert_nodes:
  assumes shape: "sl_shape s ns" and links: "sl_links s ns" and counts: "sl_counts s ns"
    and h: "1 \<le> h" "h \<le> height_at s (sl_head s)" "h \<le> length ps"
    and ps: "\<forall>i < h. ps ! i = prev_at s pre i" and ns: "ns = pre @ post"
    and order: "\<forall>n \<in> set pre. key_at s n < k" "\<forall>n \<in> set post. k < key_at s n"
  shows "\<exists>s3. link_levels (snd (alloc s (new_node k v h))) (fst (alloc s (new_node k v h))) ps [0..<h] = Some s3 \<and>
    (\<exists>ns'. sl_nodes (s3\<lparr>sl_num_entries := sl_num_entries s3 + 1,
                 sl_num_bytes := sl_num_bytes s3 + size64 k + size64 v\<rparr>) ns' \<and>
       kvs_at (s3\<lparr>sl_num_entries := sl_num_entries s3 + 1,
                 sl_num_bytes := sl_num_bytes s3 + size64 k + size64 v\<rparr>) ns' = al_upd k v (kvs_at s ns))"
proof -
  obtain node s2 where al: "alloc s (new_node k v h) = (node, s2)" by fastforce
  obtain s3 where s3: "link_levels s2 node ps [0..<h] = Some s3"
      "sl_shape s3 (pre @ node # post)" "sl_links s3 (pre @ node # post)"
      "kvs_at s3 (pre @ node # post) = kvs_at s pre @ (k, v) # kvs_at s post"
      "sl_num_entries s3 = sl_num_entries s" "sl_num_bytes s3 = sl_num_bytes s"
    using insert_links [OF _ _ h(1,2) h(3) ps order al] shape links ns by blast
  define t where "t = s3\<lparr>sl_num_entries := sl_num_entries s3 + 1,
    sl_num_bytes := sl_num_bytes s3 + size64 k + size64 v\<rparr>"
  have heap: "sl_heap t = sl_heap s3" "sl_head t = sl_head s3" "sl_tail t = sl_tail s3" "sl_fresh t = sl_fresh s3"
    by (simp_all add: t_def)
  have at: "key_at t = key_at s3" "value_at t = value_at s3" "height_at t = height_at s3" "get_next t = get_next s3"
    by (simp_all add: fun_eq_iff key_at_def value_at_def height_at_def get_next_def heap)
  have lk: "linked t i xs = linked s3 i xs" for i xs
    by (rule linked_cong) (simp add: at)
  have kvs: "kvs_at t (pre @ node # post) = kvs_at s pre @ (k, v) # kvs_at s post"
    using s3(4) by (simp add: kvs_at_def at)
  have "sl_shape t (pre @ node # post)" "sl_links t (pre @ node # post)"
    using s3(2,3) by (simp_all add: sl_shape_def sl_links_def heap at lk)
  moreover have "sl_counts t (pre @ node # post)"
    using counts kvs s3(5,6) by (simp add: sl_counts_def t_def ns kvs_at_append size64_def)
  moreover have "al_upd k v (kvs_at s ns) = kvs_at s pre @ (k, v) # kvs_at s post"
    unfolding ns kvs_at_append by (rule al_upd_split) (use order in \<open>auto simp: kvs_at_def\<close>)
  ultimately show ?thesis
    using s3(1) kvs by (auto simp: al sl_nodes_def t_def [symmetric])
qed

theorem sl_put_rep:
  assumes "sl_rep s kvs"
  shows "\<exists>t. sl_put ones s k v = Some t \<and> sl_rep t (al_upd k v kvs)"
proof -
  obtain ns where nodes: "sl_nodes s ns" and kvs: "kvs_at s ns = kvs"
    using assms by (auto simp: sl_rep_def)
  then have shape: "sl_shape s ns" and links: "sl_links s ns" and counts: "sl_counts s ns"
    by (auto simp: sl_nodes_def)
  obtain ps where find: "findGreatorOrEqual s k (Some (replicate max_height nullptr)) =
      Some (hd (from_key s ns k @ [sl_tail s]), Some ps)" and ps: "length ps = max_height"
      "\<forall>i < height_at s (sl_head s). ps ! i = prev_at s (before_key s ns k) i"
    using find_ge_Some [OF shape links] by blast
  show ?thesis
    using shape
  proof (cases rule: key_split_cases [where k = k])
    case (found pre x rest)
    then have x: "x \<in> set ns" by simp
    obtain nd where nd: "sl_heap s x = Some nd" using in_cells [OF shape, of x] x by auto
    have eq: "key_equals s x k = Some True"
      using key_equals_node(1) [OF shape x, of k] found(2) by simp
    have nodes': "sl_nodes s (pre @ x # rest)" using nodes found(3) by simp
    note U = update_nodes [OF nodes' nd, of v]
    have "kvs = kvs_at s pre @ (k, value_at s x) # kvs_at s rest"
      using kvs found(2,3) by (simp add: kvs_at_def)
    moreover have "\<forall>p \<in> set (kvs_at s pre). fst p < k" using found(5) by (auto simp: kvs_at_def)
    ultimately have "al_upd k v kvs = kvs_at s pre @ (key_at s x, v) # kvs_at s rest"
      using al_upd_split_eq found(2) by simp
    then have "sl_rep (s\<lparr>sl_num_bytes := sl_num_bytes s - size64 (nd_value nd) + size64 v,
      sl_heap := (sl_heap s)(x \<mapsto> nd\<lparr>nd_value := v\<rparr>)\<rparr>) (al_upd k v kvs)"
      using U unfolding sl_rep_def by metis
    then show ?thesis
      using find found(1) eq nd by (simp add: sl_put_def)
  next
    case absent
    let ?h = "random_height ones" and ?H = "height_at s (sl_head s)"
    note hb = random_height_bounds [of ones]
    have mh: "get_max_height s = Some ?H" using top_level [OF shape] by blast
    have Hm: "?H \<le> max_height" using shape by (simp add: sl_shape_def)
    show ?thesis
    proof (cases "?h > ?H")
      case True
      obtain qs where qs: "fill_prevs ps [?H..<?h] (sl_head s) = Some qs" "length qs = max_height"
          "\<forall>i < max_height. qs ! i = (if i \<in> set [?H..<?h] then sl_head s else ps ! i)"
        using fill_prevs_Some [of "[?H..<?h]" ps "sl_head s"] ps(1) hb by auto
      obtain s1 where s1: "enlarge_height s ?h = Some s1" "sl_shape s1 ns" "sl_links s1 ns"
          "sl_head s1 = sl_head s" "sl_tail s1 = sl_tail s" "sl_fresh s1 = sl_fresh s"
          "height_at s1 (sl_head s) = ?h" "kvs_at s1 ns = kvs_at s ns"
          "\<forall>n \<in> set ns. key_at s1 n = key_at s n \<and> height_at s1 n = height_at s n"
          "sl_num_entries s1 = sl_num_entries s" "sl_num_bytes s1 = sl_num_bytes s"
        using enlarge_height_Some [OF shape links True hb(2)] by blast
      have sub: "set (before_key s ns k) \<subseteq> set ns" "set (from_key s ns k) \<subseteq> set ns"
        by (auto simp: before_key_def from_key_def dest: set_takeWhileD set_dropWhileD)
      have lev: "level s1 (before_key s ns k) i = level s (before_key s ns k) i" for i
        by (rule filter_cong) (use sub s1(9) in auto)
      have empty: "level s (before_key s ns k) i = []" if "?H \<le> i" for i
        using shape sub that by (fastforce simp: sl_shape_def filter_empty_conv)
      have "\<forall>i < ?h. qs ! i = prev_at s1 (before_key s ns k) i"
        using qs(3) ps(2) hb(2) empty by (auto simp: lev s1(4) not_less)
      moreover have "sl_counts s1 ns" using counts s1(8,10,11) by (simp add: sl_counts_def)
      moreover have "\<forall>n \<in> set (before_key s ns k). key_at s1 n < k"
        "\<forall>n \<in> set (from_key s ns k). k < key_at s1 n"
        using absent(1,2) sub s1(9) by auto
      ultimately obtain s3 ns' where s3:
          "link_levels (snd (alloc s1 (new_node k v ?h))) (fst (alloc s1 (new_node k v ?h))) qs [0..<?h] = Some s3"
          "sl_nodes (s3\<lparr>sl_num_entries := sl_num_entries s3 + 1,
                 sl_num_bytes := sl_num_bytes s3 + size64 k + size64 v\<rparr>) ns'"
          "kvs_at (s3\<lparr>sl_num_entries := sl_num_entries s3 + 1,
                 sl_num_bytes := sl_num_bytes s3 + size64 k + size64 v\<rparr>) ns' = al_upd k v (kvs_at s1 ns)"
        using insert_nodes [OF s1(2,3) _ hb(1) _ _ _ key_split [symmetric], of qs s k k v] qs(2) hb(2) s1(4,7)
        by auto
      then have "sl_rep (s3\<lparr>sl_num_entries := sl_num_entries s3 + 1,
                 sl_num_bytes := sl_num_bytes s3 + size64 k + size64 v\<rparr>) (al_upd k v kvs)"
        using kvs s1(8) by (auto simp: sl_rep_def)
      then show ?thesis
        using s3(1) find absent(3) mh True qs(1) s1(1) by (simp add: sl_put_def case_prod_unfold Let_def)
    next
      case False
      obtain s3 ns' where s3:
          "link_levels (snd (alloc s (new_node k v ?h))) (fst (alloc s (new_node k v ?h))) ps [0..<?h] = Some s3"
          "sl_nodes (s3\<lparr>sl_num_entries := sl_num_entries s3 + 1,
                 sl_num_bytes := sl_num_bytes s3 + size64 k + size64 v\<rparr>) ns'"
          "kvs_at (s3\<lparr>sl_num_entries := sl_num_entries s3 + 1,
                 sl_num_bytes := sl_num_bytes s3 + size64 k + size64 v\<rparr>) ns' = al_upd k v (kvs_at s ns)"
        using insert_nodes [OF shape links counts hb(1) _ _ _ key_split [symmetric] absent(2,1), of ps v]
          ps hb(2) Hm False by auto
      then have "sl_rep (s3\<lparr>sl_num_entries := sl_num_entries s3 + 1,
                 sl_num_bytes := sl_num_bytes s3 + size64 k + size64 v\<rparr>) (al_upd k v kvs)"
        using kvs by (auto simp: sl_rep_def)
      then show ?thesis
        using s3(1) find absent(3) mh False by (simp add: sl_put_def case_prod_unfold Let_def)
    qed
  qed
qed

lemma sl_rep_map_of_found:
  "\<forall>n \<in> set pre. key_at s n < k \<Longrightarrow> key_at s x = k \<Longrightarrow>
   map_of (kvs_at s (pre @ x # rest)) k = Some (value_at s x)"
  by (induction pre) (auto simp: kvs_at_def)

lemma map_of_absent:
  assumes "\<forall>n \<in> set (from_key s ns k). k < key_at s n" "\<forall>n \<in> set (before_key s ns k). key_at s n < k"
  shows "map_of (kvs_at s ns) k = None"
proof -
  have "\<forall>n \<in> set ns. key_at s n \<noteq> k"
    using assms by (subst key_split [of s ns k, symmetric]) auto
  then show ?thesis by (auto simp: map_of_eq_None_iff kvs_at_def)
qed

lemma sl_lookup:
  assumes "sl_rep s kvs"
  shows "sl_get s k = Some (case map_of kvs k of Some v \<Rightarrow> (True, v) | None \<Rightarrow> (False, []))"
    and "sl_contains s k = Some (map_of kvs k \<noteq> None)"
proof -
  obtain ns where nodes: "sl_nodes s ns" and kvs: "kvs_at s ns = kvs"
    using assms by (auto simp: sl_rep_def)
  then have shape: "sl_shape s ns" and links: "sl_links s ns" by (auto simp: sl_nodes_def)
  note find = find_ge_None [OF shape links, of k]
  have "sl_get s k = Some (case map_of kvs k of Some v \<Rightarrow> (True, v) | None \<Rightarrow> (False, [])) \<and>
      sl_contains s k = Some (map_of kvs k \<noteq> None)"
    using shape
  proof (cases rule: key_split_cases [where k = k])
    case (found pre x rest)
    then have x: "x \<in> set ns" by simp
    obtain nd where nd: "sl_heap s x = Some nd" using in_cells [OF shape, of x] x by auto
    have "map_of kvs k = Some (nd_value nd)"
      using sl_rep_map_of_found [OF found(5,2), of rest] kvs found(3) nd by (simp add: value_at_def)
    moreover have "key_equals s x k = Some True"
      using key_equals_node(1) [OF shape x, of k] found(2) by simp
    ultimately show ?thesis
      using find found(1) nd by (simp add: sl_get_def sl_contains_def)
  next
    case absent
    then show ?thesis
      using find map_of_absent [OF absent(1,2)] kvs by (simp add: sl_get_def sl_contains_def)
  qed
  then show "sl_get s k = Some (case map_of kvs k of Some v \<Rightarrow> (True, v) | None \<Rightarrow> (False, []))"
    and "sl_contains s k = Some (map_of kvs k \<noteq> None)" by auto
qed

lemma sl_rep_sorted: "sl_rep s kvs \<Longrightarrow> sorted_kvs kvs"
  by (auto simp: sl_rep_def sl_nodes_def sl_shape_def kvs_at_def sorted_wrt_map)

lemma sl_rep_counts:
  assumes "sl_rep s kvs"
  shows "sl_size s = of_nat (length kvs)" "sl_space s = of_nat (kvs_size kvs)"
  using assms by (auto simp: sl_rep_def sl_nodes_def sl_counts_def sl_size_def sl_space_def kvs_at_def)

lemma sl_raw_init:
  assumes fresh: "sl_fresh s \<noteq> nullptr" and none: "sl_heap s = Map.empty"
  shows "\<exists>t. sl_init s = Some t \<and> sl_rep t []"
proof -
  let ?f = "sl_fresh s"
  define t where "t = \<lparr>sl_heap = [?f \<mapsto> \<lparr>nd_key = [], nd_value = [], nd_nexts = [Suc ?f], nd_height = 1\<rparr>,
      Suc ?f \<mapsto> \<lparr>nd_key = [], nd_value = [], nd_nexts = [0], nd_height = 1\<rparr>],
      sl_fresh = Suc (Suc ?f), sl_head = ?f, sl_tail = Suc ?f, sl_num_entries = 0, sl_num_bytes = 0\<rparr>"
  have "sl_init s = Some t"
    by (simp add: sl_init_def alloc_def new_node_def set_next_def none t_def fun_eq_iff)
  moreover have "sl_nodes t []"
    using fresh by (auto simp: sl_nodes_def sl_shape_def sl_links_def sl_counts_def t_def height_at_def
        get_next_def kvs_at_def max_height_def nth_opt_def ran_def)
  then have "sl_rep t []" by (auto simp: sl_rep_def kvs_at_def)
  ultimately show ?thesis by blast
qed

lemma sl_new_rep: "\<exists>s. sl_new = Some s \<and> sl_rep s []"
  unfolding sl_new_def by (rule sl_raw_init) (simp_all add: sl_raw_def)

lemma clear_loop_chain:
  assumes "linked s 0 (xs @ [sl_tail s])" "get_next s (sl_tail s) 0 = Some nullptr"
    and "distinct (xs @ [sl_tail s])" "nullptr \<notin> set (xs @ [sl_tail s])"
  shows "\<exists>t. clear_loop s (hd (xs @ [sl_tail s])) = Some t \<and>
    sl_heap t = sl_heap s |` (- set (xs @ [sl_tail s])) \<and> sl_fresh t = sl_fresh s"
  using assms
proof (induction xs arbitrary: s)
  case Nil
  then show ?case
    by (subst clear_loop.simps, simp, subst clear_loop.simps) (auto simp: restrict_map_def fun_eq_iff)
next
  case (Cons x xs)
  define s1 where "s1 = s\<lparr>sl_heap := (sl_heap s)(x := None)\<rparr>"
  have nx: "get_next s1 a i = get_next s a i" if "a \<noteq> x" for a i
    using that by (simp add: get_next_def s1_def)
  have tl: "sl_tail s1 = sl_tail s" by (simp add: s1_def)
  have next1: "get_next s x 0 = Some (hd (xs @ [sl_tail s]))" "linked s 0 (xs @ [sl_tail s])"
    using Cons.prems(1) by (cases xs; simp)+
  have "linked s1 0 (xs @ [sl_tail s])"
    by (subst linked_cong_set [where t = s]) (use next1(2) Cons.prems(3) in \<open>auto intro!: nx\<close>)
  then obtain t where t: "clear_loop s1 (hd (xs @ [sl_tail s])) = Some t"
      "sl_heap t = sl_heap s1 |` (- set (xs @ [sl_tail s]))" "sl_fresh t = sl_fresh s1"
    using Cons.IH [of s1] Cons.prems nx by (auto simp: tl)
  have "clear_loop s x = Some t"
    using Cons.prems(4) next1(1) t(1) by (subst clear_loop.simps) (simp add: s1_def)
  moreover have "sl_heap t = sl_heap s |` (- set ((x # xs) @ [sl_tail s]))"
    unfolding t(2) by (auto simp: s1_def restrict_map_def fun_eq_iff)
  ultimately show ?case using t(3) by (auto simp: s1_def)
qed

lemma sl_clear_rep:
  assumes "sl_rep s kvs"
  shows "\<exists>t. sl_clear s = Some t \<and> sl_rep t []"
proof -
  obtain ns where "sl_nodes s ns" using assms by (auto simp: sl_rep_def)
  then have shape: "sl_shape s ns" and links: "sl_links s ns" by (auto simp: sl_nodes_def)
  have "level s ns 0 = ns" using first_from_level0(2) [of s "[]" ns] shape links by simp
  then have lk: "linked s 0 ((sl_head s # ns) @ [sl_tail s])"
    using links shape by (auto simp: sl_links_def sl_shape_def Suc_le_eq)
  have null: "nullptr \<notin> set ((sl_head s # ns) @ [sl_tail s])" and fr: "sl_fresh s \<noteq> nullptr"
    and dist: "distinct ((sl_head s # ns) @ [sl_tail s])"
    and dom: "dom (sl_heap s) = set ((sl_head s # ns) @ [sl_tail s])"
    using shape by (auto simp: sl_shape_def)
  obtain t where t: "clear_loop s (sl_head s) = Some t" "sl_fresh t = sl_fresh s"
      "sl_heap t = sl_heap s |` (- set ((sl_head s # ns) @ [sl_tail s]))"
    using clear_loop_chain [OF lk _ dist null] links by (auto simp: sl_links_def)
  have "sl_heap t = Map.empty"
    unfolding t(3) dom [symmetric] by (auto simp: restrict_map_def fun_eq_iff)
  with sl_raw_init [of t] t(1,2) fr show ?thesis by (simp add: sl_clear_def)
qed

lemma last_fresh: "distinct (xs @ ys) \<Longrightarrow> xs \<noteq> [] \<Longrightarrow> last xs \<notin> set (butlast xs) \<union> set ys"
  by (cases xs rule: rev_cases) auto

text \<open>The state that \<open>del\<close> leaves: the node unlinked at every level and freed.\<close>

lemma remove_links:
  assumes shape: "sl_shape s (pre @ node # rest)" and links: "sl_links s (pre @ node # rest)"
    and nd: "sl_heap s node = Some nd" and len: "length ps = max_height"
    and ps: "\<forall>i < height_at s (sl_head s). ps ! i = prev_at s pre i"
  shows "\<exists>t. unlink_levels s node ps [0..<nd_height nd] = Some t \<and> same_skeleton s t \<and>
    (\<forall>i < height_at s (sl_head s). linked t i (sl_head s # level s (pre @ rest) i @ [sl_tail s])) \<and>
    get_next t (sl_tail s) 0 = Some nullptr"
proof -
  let ?h = "nd_height nd" and ?H = "height_at s (sl_head s)"
  have h: "height_at s node = ?h" using nd by (simp add: height_at_def)
  have le: "?h \<le> ?H" "?H \<le> max_height" using shape h by (auto simp: sl_shape_def)
  have dist: "distinct (cells s (pre @ node # rest))" using shape by (simp add: sl_shape_def)
  have cell: "prev_at s pre i \<in> set (sl_head s # pre)" for i by (rule prev_at_cell)
  have nx: "get_next s (prev_at s pre i) i = Some (hd (level s (node # rest) i @ [sl_tail s]))" if "i < ?H" for i
    using prev_at_next [OF links that] .
  have nn: "get_next s node i = Some (hd (level s rest i @ [sl_tail s]))" if "i < ?h" for i
    using prev_at_next [of s "pre @ [node]" rest i] links that le h by (simp split: if_splits)
  have node: "prev_at s pre i \<noteq> node" "prev_at s pre i \<noteq> sl_tail s" for i
    using cell [of i] dist by auto
  have pre: "\<forall>i \<in> set [0..<?h]. i < length ps \<and> ps ! i \<noteq> node \<and>
      get_next s (ps ! i) i \<noteq> None \<and> get_next s node i \<noteq> None"
    using le len nx nn node ps by (auto simp del: last.simps)
  obtain t where t: "unlink_levels s node ps [0..<?h] = Some t" "same_skeleton s t"
      "\<forall>c j. get_next t c j = (if j \<in> set [0..<?h] \<and> c = ps ! j then get_next s node j else get_next s c j)"
    using unlink_levels_Some [OF _ pre] by auto
  have "linked t i (sl_head s # level s (pre @ rest) i @ [sl_tail s])" if i: "i < ?H" for i
  proof (cases "i < ?h")
    case False
    have "get_next t c i = get_next s c i" for c using False t(3) by simp
    then have "linked t i xs = linked s i xs" for xs by (intro linked_cong) simp
    moreover have "linked s i (sl_head s # level s (pre @ node # rest) i @ [sl_tail s])"
      using links i by (simp add: sl_links_def)
    ultimately show ?thesis using False h by simp
  next
    case True
    let ?xs = "sl_head s # level s pre i" and ?ys = "level s rest i @ [sl_tail s]"
    have "linked s i (sl_head s # level s (pre @ node # rest) i @ [sl_tail s])"
      using links i unfolding sl_links_def by blast
    then have old: "linked s i (?xs @ node # hd ?ys # tl ?ys)"
      using True h by (cases ?ys) auto
    have "distinct (?xs @ ?ys)" using dist by (auto simp: distinct_filter)
    then have "last ?xs \<notin> set (butlast ?xs) \<union> set ?ys"
      by (rule last_fresh) simp
    then have other: "get_next t a i = get_next s a i" if "a \<in> set (butlast ?xs) \<union> set ?ys" for a
      using t(3) ps i that by (metis Un_iff)
    have "linked t i (?xs @ hd ?ys # tl ?ys)"
    proof (rule linked_remove [OF old])
      show "get_next t (last ?xs) i = Some (hd ?ys)"
        using t(3) ps i True nn [OF True] by (simp del: last.simps)
      show "get_next t a i = get_next s a i" if "a \<in> set (butlast ?xs) \<union> set (hd ?ys # tl ?ys)" for a
        using that by (intro other) (cases "level s rest i"; simp)
    qed simp
    then show ?thesis by (cases "level s rest i") auto
  qed
  moreover have "get_next t (sl_tail s) 0 = Some nullptr"
    using t(3) node(2) [of 0] ps le links by (auto simp: sl_links_def simp del: last.simps)
  ultimately show ?thesis using t(1,2) by blast
qed

lemma remove_nodes:
  assumes shape: "sl_shape s (pre @ node # rest)" and counts: "sl_counts s (pre @ node # rest)"
    and nd: "sl_heap s node = Some nd" and skel: "same_skeleton s t"
    and lk: "\<forall>i < height_at s (sl_head s). linked t i (sl_head s # level s (pre @ rest) i @ [sl_tail s])"
    and tl: "get_next t (sl_tail s) 0 = Some nullptr"
  shows "sl_rep (t\<lparr>sl_num_entries := sl_num_entries t - 1,
            sl_num_bytes := sl_num_bytes t - size64 (nd_key nd) - size64 (nd_value nd),
            sl_heap := (sl_heap t)(node := None)\<rparr>) (kvs_at s (pre @ rest))"
proof -
  let ?ns = "pre @ rest"
  define u where "u = t\<lparr>sl_num_entries := sl_num_entries t - 1,
            sl_num_bytes := sl_num_bytes t - size64 (nd_key nd) - size64 (nd_value nd),
            sl_heap := (sl_heap t)(node := None)\<rparr>"
  have heap: "sl_heap u = (sl_heap t)(node := None)" by (simp add: u_def)
  have fields: "sl_head u = sl_head s" "sl_tail u = sl_tail s" "sl_fresh u = sl_fresh s"
    using skel by (simp_all add: u_def same_skeleton_def)
  have tshape: "sl_shape t (pre @ node # rest)" using shape same_skeleton_shape [OF skel] by simp
  have at: "key_at u a = key_at s a" "value_at u a = value_at s a" "height_at u a = height_at s a"
    "get_next u a i = get_next t a i" if "a \<noteq> node" for a i
    using that same_skeleton_at(1-3) [OF skel, of a]
    by (simp_all add: heap key_at_def value_at_def height_at_def get_next_def)
  have dist: "distinct (cells s (pre @ node # rest))" using shape by (simp add: sl_shape_def)
  then have ne: "a \<noteq> node" if "a \<in> set (cells s ?ns)" for a using that by auto
  have lev: "level u xs i = level s xs i" if "set xs \<subseteq> set ?ns" for xs i
    by (rule filter_cong) (use at ne that in auto)
  have "distinct (cells s ?ns)" "dom (sl_heap u) = set (cells s ?ns)"
    "\<forall>a \<in> dom (sl_heap u). a \<noteq> nullptr \<and> a < sl_fresh s" "sl_fresh s \<noteq> nullptr"
    using dist tshape fields skel by (auto simp: sl_shape_def heap same_skeleton_def)
  moreover have "\<forall>nd \<in> ran (sl_heap u). length (nd_nexts nd) = nd_height nd"
    using tshape by (auto simp: sl_shape_def heap ran_def split: if_splits)
  moreover have "sorted_wrt (\<lambda>a b. key_at u a < key_at u b) ?ns"
  proof (rule sorted_wrt_mono_rel)
    show "sorted_wrt (\<lambda>a b. key_at s a < key_at s b) ?ns"
      using shape by (auto simp: sl_shape_def sorted_wrt_append)
  qed (use at(1) ne in auto)
  moreover have hts: "height_at u (sl_head s) = height_at s (sl_head s)"
      "height_at u (sl_tail s) = height_at s (sl_tail s)"
      "\<forall>n \<in> set ?ns. height_at u n = height_at s n"
    using at(3) ne by auto
  ultimately have "sl_shape u ?ns"
    using shape hts by (auto simp: sl_shape_def fields)
  moreover have "sl_links u ?ns"
  proof -
    have "linked u i (sl_head s # level s ?ns i @ [sl_tail s])" if "i < height_at s (sl_head s)" for i
      by (subst linked_cong_set [where t = t]) (use at(4) ne lk that in auto)
    then show ?thesis
      using tl at(3,4) ne unfolding sl_links_def fields lev [OF subset_refl] by simp
  qed
  moreover have kvs: "kvs_at u ?ns = kvs_at s ?ns"
    using at(1,2) ne by (simp add: kvs_at_def)
  moreover have "sl_counts u ?ns"
  proof -
    have size: "kvs_size (kvs_at s (pre @ node # rest)) =
        length (nd_key nd) + length (nd_value nd) + kvs_size (kvs_at s ?ns)"
      using nd by (simp add: kvs_at_append) (simp add: kvs_at_def key_at_def value_at_def)
    have num: "sl_num_entries u = sl_num_entries s - 1"
      "sl_num_bytes u = sl_num_bytes s - size64 (nd_key nd) - size64 (nd_value nd)"
      using skel by (simp_all add: u_def same_skeleton_def)
    show ?thesis
      using counts unfolding sl_counts_def kvs num size by (simp add: size64_def)
  qed
  ultimately show ?thesis by (auto simp: sl_rep_def sl_nodes_def u_def)
qed

theorem sl_del_rep:
  assumes "sl_rep s kvs"
  shows "\<exists>t. sl_del s k = Some (map_of kvs k \<noteq> None, t) \<and> sl_rep t (al_del k kvs)"
proof -
  obtain ns where nodes: "sl_nodes s ns" and kvs: "kvs_at s ns = kvs"
    using assms by (auto simp: sl_rep_def)
  then have shape: "sl_shape s ns" and links: "sl_links s ns" and counts: "sl_counts s ns"
    by (auto simp: sl_nodes_def)
  obtain ps where find: "findGreatorOrEqual s k (Some (replicate max_height nullptr)) =
      Some (hd (from_key s ns k @ [sl_tail s]), Some ps)" and ps: "length ps = max_height"
      "\<forall>i < height_at s (sl_head s). ps ! i = prev_at s (before_key s ns k) i"
    using find_ge_Some [OF shape links] by blast
  show ?thesis
    using shape
  proof (cases rule: key_split_cases [where k = k])
    case (found pre x rest)
    then have x: "x \<in> set ns" by simp
    obtain nd where nd: "sl_heap s x = Some nd" using in_cells [OF shape, of x] x by auto
    have eq: "key_equals s x k = Some True"
      using key_equals_node(1) [OF shape x, of k] found(2) by simp
    have ps': "\<forall>i < height_at s (sl_head s). ps ! i = prev_at s pre i"
      using ps(2) found(4) by simp
    obtain t where t: "unlink_levels s x ps [0..<nd_height nd] = Some t" "same_skeleton s t"
        "\<forall>i < height_at s (sl_head s). linked t i (sl_head s # level s (pre @ rest) i @ [sl_tail s])"
        "get_next t (sl_tail s) 0 = Some nullptr"
      using remove_links [of s pre x rest nd ps] shape links nd ps(1) ps' unfolding found(3) by blast
    have "al_del k kvs = kvs_at s (pre @ rest)"
      using kvs found(2,3,5) al_del_split [of "kvs_at s pre" k "value_at s x" "kvs_at s rest"]
      by (simp add: kvs_at_def)
    moreover have "map_of kvs k = Some (value_at s x)"
      using sl_rep_map_of_found [OF found(5,2), of rest] kvs found(3) by simp
    ultimately show ?thesis
      using remove_nodes [of s pre x rest nd t] shape counts nd t(2-4) found(1,3) find eq t(1)
      by (simp add: sl_del_def)
  next
    case absent
    have none: "map_of kvs k = None" using map_of_absent [OF absent(1,2)] kvs by simp
    have "al_del k ps = ps" if "map_of ps k = None" for ps
      using that by (induction ps) (auto split: if_splits)
    with none show ?thesis using find absent(3) assms by (simp add: sl_del_def)
  qed
qed

end
