(* ===== verification/SkipListIterator.thy ===== *)
theory SkipListIterator
  imports SkipList Iterators
begin

text \<open>
  \<open>SkipList::Iterator\<close> satisfies the iterator contract: it visits the pairs of the memtable in key
  order, forwards and backwards, and \<open>Seek\<close> stops at the first key that is not smaller.
\<close>

definition it_at :: "skiplist \<Rightarrow> kvs \<Rightarrow> nat \<Rightarrow> sl_iter \<Rightarrow> bool" where
  "it_at s ps i it \<longleftrightarrow> (\<exists>ns. sl_nodes s ns \<and> kvs_at s ns = ps \<and>
     it = (if i < length ns then ns ! i else nullptr))"

lemma it_atI:
  "sl_nodes s ns \<Longrightarrow> kvs_at s ns = ps \<Longrightarrow> it = (if i < length ns then ns ! i else nullptr) \<Longrightarrow> it_at s ps i it"
  by (auto simp: it_at_def)

lemma node_not_null:
  assumes "sl_nodes s ns" and "n \<in> set ns"
  shows "n \<noteq> nullptr" "n \<noteq> sl_tail s" "n \<noteq> sl_head s"
  using assms by (auto simp: sl_nodes_def sl_shape_def)

lemma null_if_tail:
  assumes "sl_nodes s (pre @ post)"
  shows "null_if (sl_tail s) (hd (post @ [sl_tail s])) =
    (if length pre < length (pre @ post) then (pre @ post) ! length pre else nullptr)"
  using node_not_null [OF assms] by (cases post) (auto simp: null_if_def)

lemma next_pointer:
  assumes "sl_nodes s (pre @ post)"
  shows "get_next s (last (sl_head s # pre)) 0 = Some (hd (post @ [sl_tail s]))"
proof -
  have "level s pre 0 = pre"
    using assms by (auto simp: sl_nodes_def sl_shape_def Suc_le_eq)
  then show ?thesis
    using first_from_level0(1) [of s pre post] assms by (simp add: sl_nodes_def)
qed

lemma find_lt_Some:
  assumes "sl_nodes s ns"
  shows "findLessThan s k = Some (last (sl_head s # before_key s ns k))"
proof -
  let ?pre = "before_key s ns k" and ?post = "from_key s ns k"
  let ?top = "height_at s (sl_head s) - 1"
  have shape: "sl_shape s ns" and links: "sl_links s ns" using assms by (auto simp: sl_nodes_def)
  note kb = key_before_search [OF shape, where k = k]
  have split: "ns = ?pre @ ?post" by (simp add: key_split)
  have "find_lt_loop s k (sl_head s) ?top = find_lt_loop s k (prev_at s ?pre 0) 0 \<and> True"
  proof (rule search_descends [where P = "\<lambda>a. key_before s a k = Some True" and post = ?post
        and f = "\<lambda>x i _. find_lt_loop s k x i" and I = "\<lambda>_ _. True" and st = "()"])
    show "sl_links s (?pre @ ?post)" using links split by simp
    show "\<forall>n\<in>set ?pre. key_before s n k = Some True" using kb by blast
    show "\<forall>n\<in>set ?post. key_before s n k \<noteq> Some True" using kb by auto
    show "key_before s (sl_tail s) k \<noteq> Some True" by (simp add: key_before_tail)
    show "get_next s x i = Some y \<Longrightarrow> y \<in> set ?pre \<Longrightarrow> find_lt_loop s k x i = find_lt_loop s k y i" for x i y
      by (subst find_lt_loop.simps) (simp add: kb)
    show "get_next s x (Suc i) = Some y \<Longrightarrow> y \<in> set ?post \<union> {sl_tail s} \<Longrightarrow>
        find_lt_loop s k x (Suc i) = find_lt_loop s k x i \<and> True" for x i y
      by (subst find_lt_loop.simps) (auto simp: kb)
    show "?top < height_at s (sl_head s)" using top_level [OF shape] by blast
  qed simp_all
  moreover have "find_lt_loop s k (prev_at s ?pre 0) 0 = Some (prev_at s ?pre 0)"
    using first_from_level0 [of s ?pre ?post] shape links split kb(2) [of "hd (?post @ [sl_tail s])"]
    by (subst find_lt_loop.simps) (cases ?post; auto simp del: last.simps)
  moreover have "level s ?pre 0 = ?pre"
    using shape set_takeWhileD by (fastforce simp: sl_shape_def Suc_le_eq before_key_def filter_id_conv)
  ultimately show ?thesis
    using top_level [OF shape] by (simp add: findLessThan_def)
qed

lemma find_last_Some:
  assumes "sl_nodes s ns"
  shows "findLast s = Some (last (sl_head s # ns))"
proof -
  let ?top = "height_at s (sl_head s) - 1"
  have shape: "sl_shape s ns" and links: "sl_links s ns" using assms by (auto simp: sl_nodes_def)
  have tail: "n \<in> set ns \<Longrightarrow> n \<noteq> sl_tail s" for n using node_not_null [OF assms] by blast
  have "find_last_loop s (sl_head s) ?top = find_last_loop s (prev_at s ns 0) 0 \<and> True"
  proof (rule search_descends [where P = "\<lambda>a. a \<noteq> sl_tail s" and post = "[]"
        and f = "\<lambda>x i _. find_last_loop s x i" and I = "\<lambda>_ _. True" and st = "()"])
    show "sl_links s (ns @ [])" using links by simp
    show "\<forall>n\<in>set ns. n \<noteq> sl_tail s" using tail by blast
    show "get_next s x i = Some y \<Longrightarrow> y \<in> set ns \<Longrightarrow> find_last_loop s x i = find_last_loop s y i" for x i y
      by (subst find_last_loop.simps) (simp add: tail)
    show "get_next s x (Suc i) = Some y \<Longrightarrow> y \<in> set [] \<union> {sl_tail s} \<Longrightarrow>
        find_last_loop s x (Suc i) = find_last_loop s x i \<and> True" for x i y
      by (subst find_last_loop.simps) auto
    show "?top < height_at s (sl_head s)" using top_level [OF shape] by blast
  qed simp_all
  moreover have "find_last_loop s (prev_at s ns 0) 0 = Some (prev_at s ns 0)"
    using first_from_level0 [of s ns "[]"] shape links
    by (subst find_last_loop.simps) (auto simp del: last.simps)
  moreover have "level s ns 0 = ns"
    using shape by (auto simp: sl_shape_def Suc_le_eq)
  ultimately show ?thesis
    using top_level [OF shape] by (simp add: findLast_def)
qed

lemma it_node:
  assumes "it_at s ps i it" and "i < length ps"
  obtains ns nd where "sl_nodes s ns" "kvs_at s ns = ps" "length ns = length ps" "it = ns ! i"
    "sl_heap s it = Some nd" "ps ! i = (nd_key nd, nd_value nd)" "it_valid it"
proof -
  obtain ns where ns: "sl_nodes s ns" "kvs_at s ns = ps" "it = (if i < length ns then ns ! i else nullptr)"
    using assms(1) by (auto simp: it_at_def)
  then have len: "length ns = length ps" by (auto simp: kvs_at_def)
  then have mem: "ns ! i \<in> set ns" and it: "it = ns ! i" using assms(2) ns(3) by auto
  obtain nd where nd: "sl_heap s (ns ! i) = Some nd"
    using in_cells [of s ns "ns ! i"] ns(1) mem by (auto simp: sl_nodes_def)
  have "i < length ns" using len assms(2) by simp
  then have "ps ! i = (nd_key nd, nd_value nd)"
    using nd unfolding ns(2) [symmetric] by (simp add: kvs_at_def key_at_def value_at_def)
  moreover have "it_valid it" using node_not_null(1) [OF ns(1) mem] it by (simp add: it_valid_def)
  ultimately show thesis
    by (rule that [OF ns(1,2) len it, rotated]) (simp add: it nd)
qed

lemma lower_bound_nodes:
  "lower_bound (kvs_at s ns) k = length (before_key s ns k)"
  by (simp add: lower_bound_def before_key_def kvs_at_def takeWhile_map comp_def)

interpretation sli: bidirectional_iterator it_at sl_rep "\<lambda>_. it_valid" "\<lambda>s _. it_seek_to_first s"
    "\<lambda>s k _. it_seek s k" it_next it_key it_value "\<lambda>s _. it_seek_to_last s" it_prev
proof
  fix s ps
  assume "sl_rep s ps"
  then obtain ns where ns: "sl_nodes s ns" "kvs_at s ns = ps" by (auto simp: sl_rep_def)
  have len: "length ns = length ps" using ns(2) by (auto simp: kvs_at_def)
  show "\<exists>it. it_seek_to_first s = Some it \<and> it_at s ps 0 it"
    using ns next_pointer [of s "[]" ns] null_if_tail [of s "[]" ns]
    by (auto simp: it_seek_to_first_def it_at_def simp del: last.simps)
      (auto simp: it_at_def)
  {
    fix k assume "ps \<noteq> []"
    have split: "before_key s ns k @ from_key s ns k = ns" by (rule key_split)
    have "it_seek s k = Some (null_if (sl_tail s) (hd (from_key s ns k @ [sl_tail s])))"
      using find_ge_None [of s ns k] ns(1) by (simp add: it_seek_def sl_nodes_def)
    then show "\<exists>it. it_seek s k = Some it \<and> it_at s ps (lower_bound ps k) it"
      using null_if_tail [of s "before_key s ns k" "from_key s ns k"] ns split
        lower_bound_nodes [of s ns k]
      by (auto simp: it_at_def)
  }
  assume "ps \<noteq> []"
  then have "ns \<noteq> []" using len by auto
  then have "null_if (sl_head s) (last (sl_head s # ns)) = ns ! (length ps - 1)"
    using node_not_null(3) [OF ns(1) last_in_set] len by (simp add: null_if_def last_conv_nth)
  then show "\<exists>it. it_seek_to_last s = Some it \<and> it_at s ps (length ps - 1) it"
    using find_last_Some [OF ns(1)] it_atI [OF ns, of "ns ! (length ps - 1)" "length ps - 1"] len
      \<open>ps \<noteq> []\<close> by (simp add: it_seek_to_last_def \<open>ns \<noteq> []\<close>)
next
  fix s ps i it
  show "it_valid it \<longleftrightarrow> i < length ps" if "it_at s ps i it"
    using that by (cases "i < length ps") (auto elim: it_node, auto simp: it_at_def it_valid_def kvs_at_def)
  {
    assume "it_at s ps i it" "i < length ps"
    then obtain ns nd where ns: "sl_nodes s ns" "kvs_at s ns = ps" "length ns = length ps" "it = ns ! i"
        "sl_heap s it = Some nd" "ps ! i = (nd_key nd, nd_value nd)" "it_valid it"
      by (rule it_node)
    have i: "i < length ns" using ns(3) \<open>i < length ps\<close> by simp
    show "it_key s it = Some (fst (ps ! i))" "it_value s it = Some (snd (ps ! i))"
      using ns(5-7) by (simp_all add: it_key_def it_value_def)
    have nodes: "sl_nodes s (take (Suc i) ns @ drop (Suc i) ns)" using ns(1) by simp
    have "last (sl_head s # take (Suc i) ns) = it"
      using i ns(4) by (simp add: take_Suc_conv_app_nth)
    then show "\<exists>it'. it_next s it = Some it' \<and> it_at s ps (Suc i) it'"
      using next_pointer [OF nodes] null_if_tail [OF nodes] ns(1,2,7) i
      by (auto simp: it_next_def it_at_def min_def)
  }
next
  fix s ps i it
  assume "it_at s ps (Suc i) it" "Suc i < length ps"
  then obtain ns nd where ns: "sl_nodes s ns" "kvs_at s ns = ps" "length ns = length ps" "it = ns ! Suc i"
      "sl_heap s it = Some nd" "ps ! Suc i = (nd_key nd, nd_value nd)" "it_valid it"
    by (rule it_node)
  have i: "Suc i < length ns" using ns(3) \<open>Suc i < length ps\<close> by simp
  have sorted: "sorted_wrt (\<lambda>a b. key_at s a < key_at s b) ns"
    using ns(1) by (simp add: sl_nodes_def sl_shape_def)
  have key: "nd_key nd = key_at s (ns ! Suc i)" using ns(4,5) by (simp add: key_at_def)
  have "before_key s ns (nd_key nd) = take (Suc i) ns"
    unfolding before_key_def key
  proof (rule takeWhile_eq_take_P_nth)
    show "j < Suc i \<Longrightarrow> j < length ns \<Longrightarrow> key_at s (ns ! j) < key_at s (ns ! Suc i)" for j
      using sorted i by (auto simp: sorted_wrt_iff_nth_less)
  qed simp
  then have "findLessThan s (nd_key nd) = Some (ns ! i)"
    using find_lt_Some [OF ns(1), of "nd_key nd"] i by (simp add: take_Suc_conv_app_nth)
  then show "\<exists>it'. it_prev s it = Some it' \<and> it_at s ps i it'"
    using ns(1,2,5,7) i node_not_null(3) [OF ns(1), of "ns ! i"]
    by (auto simp: it_prev_def it_at_def null_if_def)
qed

end
