(* ===== verification/Memtable.thy ===== *)
theory Memtable
  imports SkipListIterator
begin

text \<open>
  The contract by which the stores use their memtable: an ordered map with a byte count. The
  locale says what \<open>put\<close>, \<open>get\<close>, \<open>del\<close>, \<open>contains\<close> and \<open>clear\<close> do to the pairs that the memtable
  represents and derives what any sequence of them does; the interpretation discharges it for the
  skip list.
\<close>

datatype mem_op = MPut nat bytes bytes | MDel bytes | MClear

text \<open>What a sequence of operations means for the key/value map.\<close>

fun op_meaning :: "(bytes \<rightharpoonup> bytes) \<Rightarrow> mem_op \<Rightarrow> (bytes \<rightharpoonup> bytes)" where
  "op_meaning m (MPut _ k v) = m(k \<mapsto> v)"
| "op_meaning m (MDel k) = m(k := None)"
| "op_meaning m MClear = Map.empty"

locale memtable =
  fixes rep :: "'m \<Rightarrow> kvs \<Rightarrow> bool"
    and get :: "'m \<Rightarrow> bytes \<Rightarrow> (bool \<times> bytes) option"
    and has :: "'m \<Rightarrow> bytes \<Rightarrow> bool option"
    and put :: "nat \<Rightarrow> 'm \<Rightarrow> bytes \<Rightarrow> bytes \<Rightarrow> 'm option"
    and del :: "'m \<Rightarrow> bytes \<Rightarrow> (bool \<times> 'm) option"
    and clear :: "'m \<Rightarrow> 'm option"
    and space :: "'m \<Rightarrow> 64 word"
  assumes rep_sorted: "rep s ps \<Longrightarrow> sorted_kvs ps"
    and get_rep: "rep s ps \<Longrightarrow> get s k = Some (case map_of ps k of Some v \<Rightarrow> (True, v) | None \<Rightarrow> (False, []))"
    and has_rep: "rep s ps \<Longrightarrow> has s k = Some (map_of ps k \<noteq> None)"
    and put_rep: "rep s ps \<Longrightarrow> \<exists>t. put ones s k v = Some t \<and> rep t (al_upd k v ps)"
    and del_rep: "rep s ps \<Longrightarrow> \<exists>t. del s k = Some (map_of ps k \<noteq> None, t) \<and> rep t (al_del k ps)"
    and clear_rep: "rep s ps \<Longrightarrow> \<exists>t. clear s = Some t \<and> rep t []"
    and space_rep: "rep s ps \<Longrightarrow> space s = of_nat (kvs_size ps)"
begin

fun step :: "'m \<Rightarrow> mem_op \<Rightarrow> 'm option" where
  "step s (MPut ones k v) = put ones s k v"
| "step s (MDel k) = map_option snd (del s k)"
| "step s MClear = clear s"

fun run :: "'m \<Rightarrow> mem_op list \<Rightarrow> 'm option" where
  "run s [] = Some s"
| "run s (x # xs) = do { t \<leftarrow> step s x; run t xs }"

lemma step_rep:
  assumes "rep s ps"
  shows "\<exists>t qs. step s x = Some t \<and> rep t qs \<and> map_of qs = op_meaning (map_of ps) x"
proof (cases x)
  case (MPut ones k v)
  obtain t where "put ones s k v = Some t" "rep t (al_upd k v ps)"
    using put_rep [OF assms] by blast
  with MPut show ?thesis by (intro exI [of _ t] exI [of _ "al_upd k v ps"]) (simp add: map_of_al_upd)
next
  case (MDel k)
  obtain t where "del s k = Some (map_of ps k \<noteq> None, t)" "rep t (al_del k ps)"
    using del_rep [OF assms] by blast
  with MDel show ?thesis
    by (intro exI [of _ t] exI [of _ "al_del k ps"]) (simp add: map_of_al_del rep_sorted [OF assms])
next
  case MClear
  then show ?thesis using clear_rep [OF assms] by auto
qed

lemma run_rep:
  "rep s ps \<Longrightarrow> \<exists>t qs. run s xs = Some t \<and> rep t qs \<and> map_of qs = foldl op_meaning (map_of ps) xs"
proof (induction xs arbitrary: s ps)
  case (Cons x xs)
  obtain t qs where "step s x = Some t" "rep t qs" "map_of qs = op_meaning (map_of ps) x"
    using step_rep [OF Cons.prems] by blast
  with Cons.IH [of t qs] show ?case by auto
qed auto

lemma get_after_run:
  assumes "rep s []"
  shows "do { t \<leftarrow> run s xs; get t k } =
    Some (case foldl op_meaning Map.empty xs k of Some v \<Rightarrow> (True, v) | None \<Rightarrow> (False, []))"
  using run_rep [OF assms, of xs] get_rep by auto

end

interpretation mt: memtable sl_rep sl_get sl_contains sl_put sl_del sl_clear sl_space
  by unfold_locales (blast intro: sl_rep_sorted sl_lookup sl_put_rep sl_del_rep sl_clear_rep sl_rep_counts)+

fun sl_step :: "skiplist \<Rightarrow> mem_op \<Rightarrow> skiplist option" where
  "sl_step s (MPut ones k v) = sl_put ones s k v"
| "sl_step s (MDel k) = map_option snd (sl_del s k)"
| "sl_step s MClear = sl_clear s"

text \<open>A client of the class: construct a list, run operations on it.\<close>

fun sl_run :: "skiplist \<Rightarrow> mem_op list \<Rightarrow> skiplist option" where
  "sl_run s [] = Some s"
| "sl_run s (x # xs) = do { t \<leftarrow> sl_step s x; sl_run t xs }"

lemma sl_run_eq: "sl_run s xs = mt.run s xs"
proof (induction xs arbitrary: s)
  case (Cons x xs)
  have "sl_step s x = mt.step s x" by (cases x) auto
  with Cons show ?case by simp
qed simp

lemma sl_run_rep:
  assumes "sl_rep s ps"
  shows "\<exists>t qs. sl_run s xs = Some t \<and> sl_rep t qs \<and> map_of qs = foldl op_meaning (map_of ps) xs"
  unfolding sl_run_eq using mt.run_rep [OF assms] .

section \<open>The destructor\<close>

definition delete_node :: "addr \<Rightarrow> skiplist \<Rightarrow> skiplist option" where
  "delete_node a s =
     (if a = nullptr then Some s
      else if sl_heap s a = None then None else Some (s\<lparr>sl_heap := (sl_heap s)(a := None)\<rparr>))"

definition sl_destroy :: "skiplist \<Rightarrow> skiplist option" where
  "sl_destroy s = do {
     s1 \<leftarrow> sl_clear s;
     s2 \<leftarrow> delete_node (sl_head s1) s1;
     delete_node (sl_tail s1) s2 }"

text \<open>No node outlives its list, whatever was done before, and none is deleted twice.\<close>

lemma destructor_frees_all:
  "\<exists>s t u. sl_new = Some s \<and> sl_run s ops = Some t \<and> sl_destroy t = Some u \<and> sl_heap u = Map.empty"
proof -
  obtain s where s: "sl_new = Some s" "sl_rep s []" using sl_new_rep by blast
  obtain t ps where t: "sl_run s ops = Some t" "sl_rep t ps" using sl_run_rep [OF s(2)] by blast
  obtain v where v: "sl_clear t = Some v" "sl_rep v []" using sl_clear_rep [OF t(2)] by blast
  then obtain ns where ns: "sl_nodes v ns" "kvs_at v ns = []" by (auto simp: sl_rep_def)
  then have "ns = []" by (simp add: kvs_at_def)
  with ns(1) have sh: "sl_shape v []" by (simp add: sl_nodes_def)
  then have "dom (sl_heap v) = {sl_head v, sl_tail v}" "sl_head v \<noteq> sl_tail v" "sl_head v \<noteq> nullptr" "sl_tail v \<noteq> nullptr"
    by (auto simp: sl_shape_def)
  moreover from this(1) have "sl_heap v (sl_head v) \<noteq> None" "sl_heap v (sl_tail v) \<noteq> None" by blast+
  moreover have "((sl_heap v)(sl_head v := None))(sl_tail v := None) = Map.empty"
    using calculation(1) by (force simp: fun_eq_iff dom_def)
  ultimately have "\<exists>u. sl_destroy t = Some u \<and> sl_heap u = Map.empty"
    using v(1) by (auto simp: sl_destroy_def delete_node_def)
  with s(1) t(1) show ?thesis by blast
qed

section \<open>Properties\<close>

text \<open>C1. Whatever random heights the insertions draw, any sequence of \<open>put\<close>, \<open>del\<close> and \<open>clear\<close> on a
  new skip list returns (no null, dangling or out-of-range access, no endless loop), and \<open>get\<close>
  then finds exactly the value the sequence leaves for its key.\<close>

theorem memtable_is_a_map:
  "do { s \<leftarrow> sl_new; t \<leftarrow> sl_run s ops; sl_get t k } =
   Some (case foldl op_meaning Map.empty ops k of Some v \<Rightarrow> (True, v) | None \<Rightarrow> (False, []))"
proof -
  obtain s where s: "sl_new = Some s" "sl_rep s []" using sl_new_rep by blast
  show ?thesis using mt.get_after_run [OF s(2), of ops k] by (subst s(1)) (simp add: sl_run_eq)
qed

text \<open>C2. \<open>put\<close> on a well-formed skip list (sorted, every level a sorted sublist ending in \<open>tail_\<close>,
  counters exact) gives a well-formed skip list whose pairs are the old ones with the key's value
  inserted or replaced at its place in the order.\<close>

theorem put_refines_insertion:
  assumes "sl_rep s ps"
  shows "\<exists>t. sl_put ones s k v = Some t \<and> sl_rep t (al_upd k v ps) \<and>
    map_of (al_upd k v ps) = (map_of ps)(k \<mapsto> v)"
  using sl_put_rep [OF assms] by (auto simp: map_of_al_upd)

theorem put_refines_insertion_witness:
  "\<exists>s t u. sl_new = Some s \<and> sl_put 3 s [7] [1] = Some t \<and> sl_put 0 t [5] [2] = Some u \<and>
    sl_rep u [([5], [2]), ([7], [1])]"
proof -
  obtain s where s: "sl_new = Some s" "sl_rep s []" using sl_new_rep by blast
  obtain t where t: "sl_put 3 s [7] [1] = Some t" "sl_rep t [([7], [1])]"
    using put_refines_insertion [OF s(2), of 3 "[7]" "[1]"] by auto
  obtain u where "sl_put 0 t [5] [2] = Some u" "sl_rep u [([5], [2]), ([7], [1])]"
    using put_refines_insertion [OF t(2), of 0 "[5]" "[2]"] by auto
  with s(1) t(1) show ?thesis by blast
qed

text \<open>\<open>del\<close> reports whether the key was there, unlinks and frees its node at every level, and
  leaves a well-formed skip list of the remaining pairs.\<close>

theorem del_refines_removal:
  assumes "sl_rep s ps"
  shows "\<exists>t. sl_del s k = Some (map_of ps k \<noteq> None, t) \<and> sl_rep t (al_del k ps) \<and>
    map_of (al_del k ps) = (map_of ps)(k := None)"
  using sl_del_rep [OF assms, of k] map_of_al_del [OF sl_rep_sorted [OF assms]] by auto

theorem del_refines_removal_witness:
  "\<exists>s t u. sl_new = Some s \<and> sl_put 2 s [7] [1] = Some t \<and> sl_del t [7] = Some (True, u) \<and> sl_rep u []"
proof -
  obtain s where s: "sl_new = Some s" "sl_rep s []" using sl_new_rep by blast
  obtain t where t: "sl_put 2 s [7] [1] = Some t" "sl_rep t [([7], [1])]"
    using sl_put_rep [OF s(2), of 2 "[7]" "[1]"] by auto
  obtain u where "sl_del t [7] = Some (True, u)" "sl_rep u []"
    using del_refines_removal [OF t(2), of "[7]"] by auto
  with s(1) t(1) show ?thesis by blast
qed

text \<open>C3. The loop that the clients write over \<open>SkipList::Iterator\<close> visits every pair once, in key
  order, and ends; from \<open>Seek(k)\<close> it visits the pairs whose key is not below \<open>k\<close>.\<close>

theorem iteration_in_key_order:
  assumes "sl_rep s ps"
  shows "do { it \<leftarrow> it_seek_to_first s; iter_loop it_valid (it_key s) (it_value s) (it_next s) body it st } =
      fold_opt body ps st \<and>
    (ps \<noteq> [] \<longrightarrow> do { it \<leftarrow> it_seek s k; iter_loop it_valid (it_key s) (it_value s) (it_next s) body it st } =
      fold_opt body (dropWhile (\<lambda>p. fst p < k) ps) st)"
  using sli.loop_all [OF assms, of body st] sli.loop_seek [OF assms, of k body st]
  by (simp add: lower_bound_def dropWhile_eq_drop)

theorem iteration_in_key_order_witness:
  "\<exists>s t. sl_new = Some s \<and> sl_run s [MPut 1 [7] [1], MPut 4 [5] [2]] = Some t \<and>
    do { it \<leftarrow> it_seek_to_first t;
         iter_loop it_valid (it_key t) (it_value t) (it_next t) (\<lambda>k v acc. Some (acc @ [(k, v)])) it [] } =
      Some [([5], [2]), ([7], [1])]"
proof -
  obtain s where s: "sl_new = Some s" "sl_rep s []" using sl_new_rep by blast
  obtain t where t: "sl_put 1 s [7] [1] = Some t" "sl_rep t [([7], [1])]"
    using sl_put_rep [OF s(2), of 1 "[7]" "[1]"] by auto
  obtain u where u: "sl_put 4 t [5] [2] = Some u" "sl_rep u [([5], [2]), ([7], [1])]"
    using sl_put_rep [OF t(2), of 4 "[5]" "[2]"] by auto
  show ?thesis
    using s(1) t(1) u(1) iteration_in_key_order [OF u(2), of "\<lambda>k v acc. Some (acc @ [(k, v)])" "[]"]
    by (intro exI [of _ s] exI [of _ u]) simp
qed

end
