(* ===== verification/TableFile.thy ===== *)
theory TableFile
  imports BlockFormat Memtable
begin

text \<open>
  The table file (\<open>src/storage/TableBuilder.cpp\<close>, \<open>src/storage/SSTable.cpp\<close>): data blocks of about
  \<open>Option::BLOCK_SPACE\<close> bytes, an index block with the last key and the handle of each, and the
  handle of the index block. Blocks are compressed by snappy, which is not part of the repository:
  \<open>snap\<close> and \<open>unsnap\<close> are arguments, and the theorems assume of them that decompressing gives the
  block back and the documented bound on the compressed size (\<open>snappy_ok\<close>).

  An output stream is the bytes written to it and whether it opened; an input stream is the bytes
  of its file. Reading past the end leaves the C++ variables undefined and is \<open>None\<close> here.
\<close>

definition block_space :: nat where
  "block_space = 4 * 1024"

definition block_compressed :: bool where
  "block_compressed = True"

section \<open>Writing\<close>

record table_builder =
  tb_file :: bytes
  tb_open :: bool
  tb_offset :: uint64
  tb_size :: uint64
  tb_last_key :: bytes
  tb_num_entries :: nat
  tb_datablock :: block_builder
  tb_indexblock :: block_builder

definition tb_new :: "bool \<Rightarrow> table_builder" where
  "tb_new is_open = \<lparr>tb_file = [], tb_open = is_open, tb_offset = 0, tb_size = 0, tb_last_key = [],
     tb_num_entries = 0, tb_datablock = bb_new, tb_indexblock = bb_new\<rparr>"

text \<open>The common part of \<open>writeBlock\<close>: the block's bytes go to the file, the handle is returned.\<close>

definition tb_emit :: "(bytes \<Rightarrow> bytes) \<Rightarrow> bytes \<Rightarrow> table_builder \<Rightarrow> bytes \<times> table_builder" where
  "tb_emit snap content tb =
     (let compressed = (if block_compressed then snap content else content);
          size = length compressed
      in (u64_bytes (tb_offset tb) @ u64_bytes size,
          tb\<lparr>tb_file := tb_file tb @ compressed, tb_size := size, tb_offset := add64 (tb_offset tb) size\<rparr>))"

definition tb_write_data :: "(bytes \<Rightarrow> bytes) \<Rightarrow> table_builder \<Rightarrow> table_builder option" where
  "tb_write_data snap tb =
     (if \<not> tb_open tb then None
      else
        let (content, bb) = bb_finish (tb_datablock tb);
            (handle, tb1) = tb_emit snap content tb
        in do {
          ib \<leftarrow> bb_add (tb_last_key tb1) handle (tb_indexblock tb1);
          Some (tb1\<lparr>tb_indexblock := ib, tb_datablock := bb_reset bb\<rparr>) })"

definition tb_write_index :: "(bytes \<Rightarrow> bytes) \<Rightarrow> table_builder \<Rightarrow> table_builder option" where
  "tb_write_index snap tb =
     (if \<not> tb_open tb then None
      else
        let (content, bb) = bb_finish (tb_indexblock tb);
            (handle, tb1) = tb_emit snap content tb
        in Some (tb1\<lparr>tb_file := tb_file tb1 @ handle, tb_indexblock := bb_reset bb\<rparr>))"

definition tb_flush :: "(bytes \<Rightarrow> bytes) \<Rightarrow> table_builder \<Rightarrow> table_builder option" where
  "tb_flush snap tb =
     (if \<not> tb_open tb then None
      else if bb_empty (tb_datablock tb) then Some tb
      else tb_write_data snap tb)"

definition tb_add :: "(bytes \<Rightarrow> bytes) \<Rightarrow> bytes \<Rightarrow> bytes \<Rightarrow> table_builder \<Rightarrow> table_builder option" where
  "tb_add snap key val tb =
     (if \<not> tb_open tb then None
      else do {
        bb \<leftarrow> bb_add key val (tb_datablock tb);
        let tb1 = tb\<lparr>tb_last_key := key, tb_datablock := bb, tb_num_entries := tb_num_entries tb + 1\<rparr>;
        (if bb_estimated_size bb \<ge> block_space then tb_flush snap tb1 else Some tb1) })"

definition tb_finish :: "(bytes \<Rightarrow> bytes) \<Rightarrow> table_builder \<Rightarrow> table_builder option" where
  "tb_finish snap tb =
     (if \<not> tb_open tb then None
      else do { tb1 \<leftarrow> tb_flush snap tb; tb_write_index snap tb1 })"

text \<open>\<open>create_sstable\<close> up to the file it leaves: the bytes at \<open>ofs.close()\<close>.\<close>

definition create_sstable :: "(bytes \<Rightarrow> bytes) \<Rightarrow> bool \<Rightarrow> skiplist \<Rightarrow> bytes option" where
  "create_sstable snap is_open mem = do {
     it \<leftarrow> it_seek_to_first mem;
     tb \<leftarrow> iter_loop it_valid (it_key mem) (it_value mem) (it_next mem) (tb_add snap) it (tb_new is_open);
     tb1 \<leftarrow> tb_finish snap tb;
     Some (tb_file tb1) }"

section \<open>Reading\<close>

record sstable =
  st_file :: bytes
  st_index_block :: block
  st_index_iter :: block_iter
  st_block_cache :: bool

definition load_block :: "(bytes \<Rightarrow> bytes) \<Rightarrow> bytes \<Rightarrow> uint64 \<Rightarrow> uint64 \<Rightarrow> block option" where
  "load_block unsnap file block_offset block_size =
     (if block_offset + block_size \<le> length file
      then block_new (if block_compressed then unsnap (take block_size (drop block_offset file)) else [])
      else None)"

text \<open>The constructor; \<open>has_cache\<close> says whether \<open>block_cache\<close> is not null.\<close>

definition sstable_new :: "(bytes \<Rightarrow> bytes) \<Rightarrow> bytes \<Rightarrow> bool \<Rightarrow> sstable option" where
  "sstable_new unsnap file has_cache =
     (if length file < 8 * 2 then None
      else do {
        index_offset \<leftarrow> read_u64 file (length file - 8 * 2);
        index_size \<leftarrow> read_u64 file (length file - 8);
        index_block \<leftarrow> load_block unsnap file index_offset index_size;
        Some \<lparr>st_file = file, st_index_block = index_block, st_index_iter = bi_new index_block,
              st_block_cache = has_cache\<rparr> })"

partial_function (option) sstable_get_loop ::
  "(bytes \<Rightarrow> bytes) \<Rightarrow> sstable \<Rightarrow> bytes \<Rightarrow> block_iter \<Rightarrow> ((bool \<times> bytes) \<times> block_iter) option" where
  "sstable_get_loop unsnap st key it =
     (if bi_valid (st_index_block st) it
      then do {
        last_key \<leftarrow> bi_key (st_index_block st) it;
        (if last_key \<ge> key
         then do {
           offset_size \<leftarrow> bi_value (st_index_block st) it;
           block_offset \<leftarrow> read_u64 offset_size 0;
           block_size \<leftarrow> read_u64 offset_size 8;
           (if \<not> st_block_cache st
            then do {
              data_block \<leftarrow> load_block unsnap (st_file st) block_offset block_size;
              ret \<leftarrow> block_get data_block key;
              Some (ret, it) }
            else sstable_get_loop unsnap st key it) }
         else do {
           it1 \<leftarrow> bi_next (st_index_block st) it;
           sstable_get_loop unsnap st key it1 }) }
      else Some ((False, []), it))"

definition sstable_get :: "(bytes \<Rightarrow> bytes) \<Rightarrow> sstable \<Rightarrow> bytes \<Rightarrow> ((bool \<times> bytes) \<times> sstable) option" where
  "sstable_get unsnap st key = do {
     it \<leftarrow> bi_seek_to_first (st_index_block st) (st_index_iter st);
     (ret, it1) \<leftarrow> sstable_get_loop unsnap st key it;
     Some (ret, st\<lparr>st_index_iter := it1\<rparr>) }"

section \<open>The image of a table\<close>

definition snappy_ok :: "(bytes \<Rightarrow> bytes) \<Rightarrow> (bytes \<Rightarrow> bytes) \<Rightarrow> bool" where
  "snappy_ok snap unsnap \<longleftrightarrow>
     (\<forall>x. unsnap (snap x) = x) \<and> (\<forall>x. length (snap x) \<le> 32 + length x + length x div 6)"

definition data_image :: "(bytes \<Rightarrow> bytes) \<Rightarrow> kvs list \<Rightarrow> bytes" where
  "data_image snap chunks = concat (map (\<lambda>ps. snap (block_image ps)) chunks)"

text \<open>The pairs of the index block for the chunks, the first of which is written at \<open>off\<close>.\<close>

fun index_pairs :: "(bytes \<Rightarrow> bytes) \<Rightarrow> nat \<Rightarrow> kvs list \<Rightarrow> kvs" where
  "index_pairs snap off [] = []"
| "index_pairs snap off (ps # chunks) =
     (fst (last ps), u64_bytes off @ u64_bytes (length (snap (block_image ps)))) #
     index_pairs snap (off + length (snap (block_image ps))) chunks"

definition table_image :: "(bytes \<Rightarrow> bytes) \<Rightarrow> kvs list \<Rightarrow> bytes" where
  "table_image snap chunks =
     (let data = data_image snap chunks; idx = snap (block_image (index_pairs snap 0 chunks))
      in data @ idx @ u64_bytes (length data) @ u64_bytes (length idx))"

definition tb_ok :: "(bytes \<Rightarrow> bytes) \<Rightarrow> table_builder \<Rightarrow> kvs list \<Rightarrow> kvs \<Rightarrow> bool" where
  "tb_ok snap tb chunks cur \<longleftrightarrow>
     tb_open tb \<and> tb_file tb = data_image snap chunks \<and> tb_offset tb = length (tb_file tb) \<and>
     [] \<notin> set chunks \<and> sorted_kvs (concat chunks @ cur) \<and>
     bb_ok (tb_datablock tb) cur \<and> bb_ok (tb_indexblock tb) (index_pairs snap 0 chunks) \<and>
     (cur \<noteq> [] \<longrightarrow> tb_last_key tb = fst (last cur)) \<and>
     tb_num_entries tb = length (concat chunks @ cur)"

lemma index_pairs_snoc:
  "index_pairs snap off (chunks @ [ps]) = index_pairs snap off chunks @
     [(fst (last ps), u64_bytes (off + length (data_image snap chunks)) @
        u64_bytes (length (snap (block_image ps))))]"
  by (induction chunks arbitrary: off) (auto simp: data_image_def add.assoc)

lemma index_pairs_keys: "map fst (index_pairs snap off chunks) = map (\<lambda>ps. fst (last ps)) chunks"
  by (induction chunks arbitrary: off) auto

lemma length_index_pairs [simp]: "length (index_pairs snap off chunks) = length chunks"
  by (induction chunks arbitrary: off) auto

lemma data_image_snoc: "data_image snap (chunks @ [ps]) = data_image snap chunks @ snap (block_image ps)"
  by (simp add: data_image_def)

section \<open>Sizes\<close>

text \<open>Tables whose pairs take less than 2^48 bytes have offsets and sizes far below 2^64.\<close>

definition small :: "kvs \<Rightarrow> bool" where
  "small ps \<longleftrightarrow> length (entries ps) < 2 ^ 48"

lemma small_append: "small (ps @ qs) \<Longrightarrow> small ps" "small (ps @ qs) \<Longrightarrow> small qs"
  by (simp_all add: small_def)

lemma length_entries: "length (entries ps) = kvs_size ps + 16 * length ps"
  by (induction ps) (auto simp: kvs_size_def case_prod_unfold)

lemma length_block_image_le: "length (block_image ps) \<le> 2 * length (entries ps) + 24"
proof -
  have "(length ps - 1) div 20 \<le> length ps" using div_le_dividend [of "length ps - 1" 20] by linarith
  then show ?thesis by (simp add: length_block_image length_entries)
qed

lemma snap_le: "snappy_ok snap unsnap \<Longrightarrow> length (snap x) \<le> 32 + 2 * length x"
proof -
  assume "snappy_ok snap unsnap"
  then have "length (snap x) \<le> 32 + length x + length x div 6" by (simp add: snappy_ok_def)
  then show ?thesis using div_le_dividend [of "length x" 6] by linarith
qed

lemma snap_block_le:
  assumes "snappy_ok snap unsnap"
  shows "length (snap (block_image ps)) \<le> 80 + 4 * length (entries ps)"
  using snap_le [OF assms, of "block_image ps"] length_block_image_le [of ps] by linarith

lemma entries_ge: "ps \<noteq> [] \<Longrightarrow> 16 + length (fst (last ps)) \<le> length (entries ps)"
  by (cases ps rule: rev_cases) auto

lemma data_image_le:
  assumes "snappy_ok snap unsnap"
  shows "[] \<notin> set chunks \<Longrightarrow> length (data_image snap chunks) \<le> 9 * length (entries (concat chunks))"
proof (induction chunks)
  case (Cons ps chunks)
  have "length (snap (block_image ps)) \<le> 9 * length (entries ps)"
    using snap_block_le [OF assms, of ps] entries_ge [of ps] Cons.prems by auto
  with Cons show ?case by (simp add: data_image_def)
qed (simp add: data_image_def)

lemma index_pairs_le:
  "[] \<notin> set chunks \<Longrightarrow> length (entries (index_pairs snap off chunks)) \<le> 2 * length (entries (concat chunks))"
proof (induction chunks arbitrary: off)
  case (Cons ps chunks)
  have "32 + length (fst (last ps)) \<le> 2 * length (entries ps)" using entries_ge [of ps] Cons.prems by auto
  with Cons.IH [of "off + length (snap (block_image ps))"] Cons.prems show ?case by simp
qed simp

lemma table_sizes:
  assumes "snappy_ok snap unsnap" and "[] \<notin> set chunks" and "small (concat chunks)"
  shows "length (table_image snap chunks) < two64" "length (data_image snap chunks) < two64"
    "length (block_image (index_pairs snap 0 chunks)) < two64"
    "length (snap (block_image (index_pairs snap 0 chunks))) < two64"
  using data_image_le [OF assms(1,2)] index_pairs_le [OF assms(2), of snap 0] assms(3)
    snap_block_le [OF assms(1), of "index_pairs snap 0 chunks"]
    length_block_image_le [of "index_pairs snap 0 chunks"]
  by (simp_all add: small_def table_image_def Let_def)

section \<open>The builder writes the image\<close>

text \<open>A chunk that is flushed by \<open>add\<close> reaches the block size with its last pair.\<close>

definition full_chunk :: "kvs \<Rightarrow> bool" where
  "full_chunk ps \<longleftrightarrow> length (block_image ps) \<ge> block_space \<and> length (block_image (butlast ps)) < block_space"

lemma sorted_index_pairs:
  assumes "sorted_kvs (concat chunks)" and "[] \<notin> set chunks"
  shows "sorted_kvs (index_pairs snap off chunks)"
proof -
  have "sorted_wrt (<) (map (\<lambda>ps. fst (last ps)) chunks)"
    using assms
  proof (induction chunks)
    case (Cons ps chunks)
    have "fst (last ps) < fst (last qs)" if "qs \<in> set chunks" for qs
    proof -
      have "last ps \<in> set ps" "last qs \<in> set qs" using that Cons.prems(2) by (metis last_in_set list.set_intros)+
      with that Cons.prems(1) show ?thesis by (auto simp: sorted_wrt_append)
    qed
    with Cons show ?case by (auto simp: sorted_wrt_append)
  qed simp
  then have "sorted_wrt (<) (map fst (index_pairs snap off chunks))"
    by (simp add: index_pairs_keys)
  then show ?thesis by (simp add: sorted_wrt_map)
qed

lemma tb_write_data_ok:
  assumes snap: "snappy_ok snap unsnap" and ok: "tb_ok snap tb chunks cur" and ne: "cur \<noteq> []"
    and small: "small (concat chunks @ cur)"
  shows "\<exists>tb'. tb_write_data snap tb = Some tb' \<and> tb_ok snap tb' (chunks @ [cur]) []"
proof -
  let ?data = "length (data_image snap chunks)" and ?size = "length (snap (block_image cur))"
  have nn: "[] \<notin> set (chunks @ [cur])" and sorted: "sorted_kvs (concat (chunks @ [cur]))"
    using ok ne by (auto simp: tb_ok_def)
  have "?data + ?size < two64"
    using table_sizes(2) [OF snap nn] small by (simp add: data_image_snoc)
  then have off: "add64 ?data ?size = ?data + ?size" by simp
  have "sorted_kvs (index_pairs snap 0 (chunks @ [cur]))"
    by (rule sorted_index_pairs [OF sorted nn])
  then have "\<forall>p \<in> set (index_pairs snap 0 chunks). fst p < fst (last cur)"
    by (simp add: index_pairs_snoc sorted_wrt_append)
  then obtain ib where ib: "bb_add (fst (last cur)) (u64_bytes ?data @ u64_bytes ?size) (tb_indexblock tb) = Some ib"
      "bb_ok ib (index_pairs snap 0 (chunks @ [cur]))"
    using bb_add_ok [of "tb_indexblock tb" "index_pairs snap 0 chunks" "fst (last cur)"
        "u64_bytes ?data @ u64_bytes ?size"] ok
    unfolding tb_ok_def index_pairs_snoc add_0 by blast
  show ?thesis
    using ok ib ne nn sorted off bb_finish_ok [of "tb_datablock tb" cur]
    by (simp add: tb_write_data_def tb_emit_def tb_ok_def block_compressed_def Let_def case_prod_unfold
        bb_reset_ok data_image_snoc)
qed

lemma tb_add_ok:
  assumes snap: "snappy_ok snap unsnap" and ok: "tb_ok snap tb chunks cur"
    and small: "small (concat chunks @ cur @ [(k, v)])" and key: "\<forall>p \<in> set (concat chunks @ cur). fst p < k"
    and full: "\<forall>c \<in> set chunks. full_chunk c" "length (block_image cur) < block_space"
  shows "\<exists>tb' chunks' cur'. tb_add snap k v tb = Some tb' \<and> tb_ok snap tb' chunks' cur' \<and>
    concat chunks' @ cur' = concat chunks @ cur @ [(k, v)] \<and>
    (\<forall>c \<in> set chunks'. full_chunk c) \<and> length (block_image cur') < block_space"
proof -
  obtain bb where bb: "bb_add k v (tb_datablock tb) = Some bb" "bb_ok bb (cur @ [(k, v)])"
    using bb_add_ok [of "tb_datablock tb" cur k v] ok key by (auto simp: tb_ok_def)
  define tb1 where "tb1 = tb\<lparr>tb_last_key := k, tb_datablock := bb, tb_num_entries := tb_num_entries tb + 1\<rparr>"
  have ok1: "tb_ok snap tb1 chunks (cur @ [(k, v)])"
    using ok bb(2) key by (auto simp: tb_ok_def tb1_def sorted_wrt_append)
  have est: "bb_estimated_size bb = length (block_image (cur @ [(k, v)]))" by (rule bb_estimated_size_ok [OF bb(2)])
  have opened: "tb_open tb" "tb_open tb1" using ok by (auto simp: tb_ok_def tb1_def)
  show ?thesis
  proof (cases "bb_estimated_size bb \<ge> block_space")
    case False
    then have "tb_add snap k v tb = Some tb1"
      using bb(1) opened unfolding tb1_def by (simp add: tb_add_def)
    then show ?thesis
      using ok1 full(1) est False by (intro exI [of _ tb1] exI [of _ chunks] exI [of _ "cur @ [(k, v)]"]) simp
  next
    case True
    have nonempty: "\<not> bb_empty (tb_datablock tb1)"
      using bb_empty_ok [OF bb(2)] by (simp add: tb1_def)
    obtain tb2 where tb2: "tb_write_data snap tb1 = Some tb2" "tb_ok snap tb2 (chunks @ [cur @ [(k, v)]]) []"
      using tb_write_data_ok [OF snap ok1] small by auto
    have "tb_add snap k v tb = Some tb2"
      using True bb(1) opened nonempty tb2(1) unfolding tb1_def by (simp add: tb_add_def tb_flush_def)
    moreover have "full_chunk (cur @ [(k, v)])" using True est full(2) by (simp add: full_chunk_def)
    moreover have "length (block_image []) < block_space" by (simp add: length_block_image block_space_def)
    ultimately show ?thesis
      using tb2(2) full(1)
      by (intro exI [of _ tb2] exI [of _ "chunks @ [cur @ [(k, v)]]"] exI [of _ "[]"]) auto
  qed
qed

lemma tb_add_all:
  assumes snap: "snappy_ok snap unsnap"
  shows "tb_ok snap tb chunks cur \<Longrightarrow> small (concat chunks @ cur @ ps) \<Longrightarrow> sorted_kvs (concat chunks @ cur @ ps) \<Longrightarrow>
    \<forall>c \<in> set chunks. full_chunk c \<Longrightarrow> length (block_image cur) < block_space \<Longrightarrow>
    \<exists>tb' chunks' cur'. fold_opt (tb_add snap) ps tb = Some tb' \<and> tb_ok snap tb' chunks' cur' \<and>
      concat chunks' @ cur' = concat chunks @ cur @ ps \<and>
      (\<forall>c \<in> set chunks'. full_chunk c) \<and> length (block_image cur') < block_space"
proof (induction ps arbitrary: tb chunks cur)
  case Nil
  then show ?case by auto
next
  case (Cons p ps)
  have small: "small (concat chunks @ cur @ [(fst p, snd p)])"
    using Cons.prems(2) small_append(1) [of "concat chunks @ cur @ [p]" ps] by simp
  have "\<forall>q \<in> set (concat chunks @ cur). fst q < fst p"
    using Cons.prems(3) by (auto simp: sorted_wrt_append)
  from tb_add_ok [OF snap Cons.prems(1) small this Cons.prems(4,5)] obtain tb1 chunks1 cur1 where
    1: "tb_add snap (fst p) (snd p) tb = Some tb1" "tb_ok snap tb1 chunks1 cur1"
      "concat chunks1 @ cur1 = concat chunks @ cur @ [p]"
      "\<forall>c \<in> set chunks1. full_chunk c" "length (block_image cur1) < block_space" by auto
  have eq: "concat chunks1 @ cur1 @ ps = concat chunks @ cur @ p # ps"
    using arg_cong [OF 1(3), of "\<lambda>xs. xs @ ps"] by simp
  show ?case
    using Cons.IH [OF 1(2) _ _ 1(4,5)] Cons.prems(2,3) 1(1) by (simp add: eq)
qed

text \<open>\<open>table_file snap file ps\<close>: the file is a table of the pairs, in blocks as \<open>add\<close> cuts them.\<close>

definition table_file :: "(bytes \<Rightarrow> bytes) \<Rightarrow> bytes \<Rightarrow> kvs \<Rightarrow> bool" where
  "table_file snap file ps \<longleftrightarrow> (\<exists>chunks. file = table_image snap chunks \<and> concat chunks = ps \<and>
     [] \<notin> set chunks \<and> sorted_kvs ps \<and> small ps \<and> (\<forall>c \<in> set (butlast chunks). full_chunk c))"

lemma tb_finish_ok:
  assumes snap: "snappy_ok snap unsnap" and ok: "tb_ok snap tb chunks cur" and small: "small (concat chunks @ cur)"
    and full: "\<forall>c \<in> set chunks. full_chunk c"
  shows "\<exists>tb'. tb_finish snap tb = Some tb' \<and> table_file snap (tb_file tb') (concat chunks @ cur)"
proof -
  obtain tb1 chunks1 where tb1: "tb_flush snap tb = Some tb1" "tb_ok snap tb1 chunks1 []"
      "concat chunks1 = concat chunks @ cur" "\<forall>c \<in> set (butlast chunks1). full_chunk c"
  proof (cases "cur = []")
    case True
    with ok full bb_empty_ok [of "tb_datablock tb" cur] that [of tb chunks] show thesis
      by (auto simp: tb_flush_def tb_ok_def dest: in_set_butlastD)
  next
    case False
    obtain tb1 where "tb_write_data snap tb = Some tb1" "tb_ok snap tb1 (chunks @ [cur]) []"
      using tb_write_data_ok [OF snap ok False small] by blast
    with ok full bb_empty_ok [of "tb_datablock tb" cur] False that [of tb1 "chunks @ [cur]"]
    show thesis by (simp add: tb_flush_def tb_ok_def)
  qed
  have opened: "tb_open tb" "tb_open tb1" using ok tb1(2) by (auto simp: tb_ok_def)
  obtain tb2 where tb2: "tb_write_index snap tb1 = Some tb2" "tb_file tb2 = table_image snap chunks1"
    using tb1(2) bb_finish_ok [of "tb_indexblock tb1"]
    by (auto simp: tb_write_index_def tb_emit_def tb_ok_def table_image_def block_compressed_def
        Let_def case_prod_unfold)
  have "table_file snap (tb_file tb2) (concat chunks @ cur)"
    using tb1(2-4) tb2(2) small unfolding table_file_def tb_ok_def by auto
  with tb2(1) tb1(1) opened show ?thesis by (simp add: tb_finish_def)
qed

lemma create_sstable_ok:
  assumes snap: "snappy_ok snap unsnap" and mem: "sl_rep mem ps" and small: "small ps"
  shows "\<exists>file. create_sstable snap True mem = Some file \<and> table_file snap file ps"
proof -
  have new: "tb_ok snap (tb_new True) [] []"
    by (simp add: tb_ok_def tb_new_def data_image_def bb_new_ok)
  have "length (block_image []) < block_space" by (simp add: length_block_image block_space_def)
  then obtain tb chunks cur where tb: "fold_opt (tb_add snap) ps (tb_new True) = Some tb" "tb_ok snap tb chunks cur"
      "concat chunks @ cur = ps" "\<forall>c \<in> set chunks. full_chunk c"
    using tb_add_all [OF snap new, of ps] small sl_rep_sorted [OF mem] by auto
  obtain tb' where tb': "tb_finish snap tb = Some tb'" "table_file snap (tb_file tb') ps"
    using tb_finish_ok [OF snap tb(2) _ tb(4)] small tb(3) by auto
  have "create_sstable snap True mem = do { tb \<leftarrow> fold_opt (tb_add snap) ps (tb_new True);
      tb1 \<leftarrow> tb_finish snap tb; Some (tb_file tb1) }"
    unfolding create_sstable_def sli.loop_all [OF mem, symmetric] by (simp add: Option.bind_assoc)
  with tb(1) tb' show ?thesis by simp
qed

section \<open>The reader finds every pair\<close>

abbreviation lookup :: "kvs \<Rightarrow> bytes \<Rightarrow> bool \<times> bytes" where
  "lookup ps k \<equiv> (case map_of ps k of Some v \<Rightarrow> (True, v) | None \<Rightarrow> (False, []))"

lemma index_pairs_nth:
  "i < length chunks \<Longrightarrow> index_pairs snap off chunks ! i =
     (fst (last (chunks ! i)), u64_bytes (off + length (data_image snap (take i chunks))) @
        u64_bytes (length (snap (block_image (chunks ! i)))))"
proof (induction chunks arbitrary: off i)
  case (Cons c chunks)
  then show ?case by (cases i) (auto simp: data_image_def add.assoc)
qed simp

lemma load_block_at:
  assumes "snappy_ok snap unsnap" and "file = pre @ snap (block_image ps) @ post" and "length pre = off"
    and "sorted_kvs ps" and "length (block_image ps) < two64"
  shows "\<exists>b. load_block unsnap file off (length (snap (block_image ps))) = Some b \<and> block_rep b ps"
proof -
  have "unsnap (snap (block_image ps)) = block_image ps" using assms(1) by (simp add: snappy_ok_def)
  then have "load_block unsnap file off (length (snap (block_image ps))) = block_new (block_image ps)"
    using assms(2,3) by (auto simp: load_block_def block_compressed_def)
  with block_new_image [OF assms(4,5)] show ?thesis by simp
qed

lemma read_u64_pair:
  assumes "a < two64" and "b < two64"
  shows "read_u64 (u64_bytes a @ u64_bytes b) 0 = Some a" "read_u64 (u64_bytes a @ u64_bytes b) 8 = Some b"
  using read_u64_append [of "[]" 0 a "u64_bytes b"] read_u64_append [of "u64_bytes a" 8 b "[]"] assms by simp_all

text \<open>An open table whose file holds the chunks.\<close>

definition sst_rep :: "(bytes \<Rightarrow> bytes) \<Rightarrow> sstable \<Rightarrow> kvs list \<Rightarrow> bool" where
  "sst_rep snap st chunks \<longleftrightarrow> st_file st = table_image snap chunks \<and>
     block_rep (st_index_block st) (index_pairs snap 0 chunks) \<and>
     [] \<notin> set chunks \<and> sorted_kvs (concat chunks) \<and> small (concat chunks)"

lemma sstable_new_ok:
  assumes snap: "snappy_ok snap unsnap" and tab: "table_file snap file ps"
  shows "\<exists>st chunks. sstable_new unsnap file cache = Some st \<and> sst_rep snap st chunks \<and>
    concat chunks = ps \<and> st_block_cache st = cache"
proof -
  obtain chunks where c: "file = table_image snap chunks" "concat chunks = ps" "[] \<notin> set chunks"
      "sorted_kvs ps" "small ps"
    using tab by (auto simp: table_file_def)
  have sizes: "length (table_image snap chunks) < two64" "length (data_image snap chunks) < two64"
    "length (block_image (index_pairs snap 0 chunks)) < two64"
    "length (snap (block_image (index_pairs snap 0 chunks))) < two64"
    using table_sizes [OF snap c(3)] c(2,5) by simp_all
  let ?data = "data_image snap chunks" and ?idx = "snap (block_image (index_pairs snap 0 chunks))"
  have img: "file = ?data @ ?idx @ u64_bytes (length ?data) @ u64_bytes (length ?idx)"
    by (simp add: c(1) table_image_def Let_def)
  have len: "length file = length ?data + length ?idx + 16" by (simp add: img)
  have r1: "read_u64 file (length file - 16) = Some (length ?data)"
    using read_u64_append [of "?data @ ?idx" "length file - 16" "length ?data"] sizes(2) len img by simp
  have r2: "read_u64 file (length file - 8) = Some (length ?idx)"
    using read_u64_append [of "?data @ ?idx @ u64_bytes (length ?data)" "length file - 8" "length ?idx" "[]"]
      sizes(4) len img by simp
  have sorted: "sorted_kvs (index_pairs snap 0 chunks)"
    by (rule sorted_index_pairs) (use c in auto)
  obtain b where b: "load_block unsnap file (length ?data) (length ?idx) = Some b"
      "block_rep b (index_pairs snap 0 chunks)"
    using load_block_at [OF snap img refl sorted sizes(3)] by blast
  show ?thesis
    using r1 r2 b c len by (intro exI [of _ chunks] exI conjI)
      (auto simp: sstable_new_def sst_rep_def)
qed

lemma chunk_sorted:
  assumes "sorted_kvs (concat chunks)" and "i < length chunks"
  shows "sorted_kvs (chunks ! i)" "\<forall>p \<in> set (chunks ! i). \<forall>q \<in> set (concat (drop (Suc i) chunks)). fst p < fst q"
proof -
  have "concat chunks = concat (take i chunks) @ chunks ! i @ concat (drop (Suc i) chunks)"
    by (subst id_take_nth_drop [OF assms(2)]) simp
  then show "sorted_kvs (chunks ! i)"
    "\<forall>p \<in> set (chunks ! i). \<forall>q \<in> set (concat (drop (Suc i) chunks)). fst p < fst q"
    using assms(1) by (simp_all add: sorted_wrt_append)
qed

lemma sorted_le_last: "sorted_kvs ps \<Longrightarrow> p \<in> set ps \<Longrightarrow> fst p \<le> fst (last ps)"
  by (cases ps rule: rev_cases) (auto simp: sorted_wrt_append less_imp_le)

lemma map_of_chunk:
  assumes "sorted_kvs (concat chunks)" and "i < length chunks" and "chunks ! i \<noteq> []"
  shows "k \<le> fst (last (chunks ! i)) \<Longrightarrow> map_of (concat (drop i chunks)) k = map_of (chunks ! i) k"
    and "\<not> k \<le> fst (last (chunks ! i)) \<Longrightarrow> map_of (concat (drop i chunks)) k = map_of (concat (drop (Suc i) chunks)) k"
proof -
  note cs = chunk_sorted [OF assms(1,2)]
  have drop: "concat (drop i chunks) = chunks ! i @ concat (drop (Suc i) chunks)"
    using assms(2) by (simp add: Cons_nth_drop_Suc [symmetric])
  {
    assume "k \<le> fst (last (chunks ! i))"
    then have "\<forall>q \<in> set (concat (drop (Suc i) chunks)). k < fst q"
      using cs(2) last_in_set [OF assms(3)] by (blast intro: le_less_trans)
    then have "map_of (concat (drop (Suc i) chunks)) k = None" by (auto simp: map_of_eq_None_iff)
    then show "map_of (concat (drop i chunks)) k = map_of (chunks ! i) k"
      by (simp add: drop map_add_def split: option.splits)
  }
  assume "\<not> k \<le> fst (last (chunks ! i))"
  then have "map_of (chunks ! i) k = None"
    using sorted_le_last [OF cs(1)] by (auto simp: map_of_eq_None_iff)
  then show "map_of (concat (drop i chunks)) k = map_of (concat (drop (Suc i) chunks)) k"
    by (simp add: drop map_add_def split: option.splits)
qed

lemma load_chunk:
  assumes snap: "snappy_ok snap unsnap" and rep: "sst_rep snap st chunks" and i: "i < length chunks"
  shows "\<exists>b. load_block unsnap (st_file st) (length (data_image snap (take i chunks)))
      (length (snap (block_image (chunks ! i)))) = Some b \<and> block_rep b (chunks ! i)"
    and "length (data_image snap (take i chunks)) < two64" "length (snap (block_image (chunks ! i))) < two64"
proof -
  have data: "data_image snap chunks = data_image snap (take i chunks) @ snap (block_image (chunks ! i)) @
      data_image snap (drop (Suc i) chunks)"
    by (subst id_take_nth_drop [OF i]) (simp add: data_image_def)
  have sizes: "length (data_image snap chunks) < two64"
    using table_sizes(2) [OF snap] rep by (simp add: sst_rep_def)
  then show "length (data_image snap (take i chunks)) < two64" "length (snap (block_image (chunks ! i))) < two64"
    by (simp_all add: data)
  have "concat chunks = concat (take i chunks) @ chunks ! i @ concat (drop (Suc i) chunks)"
    by (subst id_take_nth_drop [OF i]) simp
  then have "small (chunks ! i)" using rep small_append unfolding sst_rep_def by metis
  then have "length (block_image (chunks ! i)) < two64"
    using length_block_image_le [of "chunks ! i"] by (simp add: small_def)
  then show "\<exists>b. load_block unsnap (st_file st) (length (data_image snap (take i chunks)))
      (length (snap (block_image (chunks ! i)))) = Some b \<and> block_rep b (chunks ! i)"
    using rep chunk_sorted(1) [of chunks i] i
    by (intro load_block_at [OF snap, where post = "data_image snap (drop (Suc i) chunks) @
          snap (block_image (index_pairs snap 0 chunks)) @ u64_bytes (length (data_image snap chunks)) @
          u64_bytes (length (snap (block_image (index_pairs snap 0 chunks))))"])
      (simp_all add: sst_rep_def table_image_def Let_def data)
qed

lemma sstable_get_from:
  assumes snap: "snappy_ok snap unsnap" and rep: "sst_rep snap st chunks" and cache: "\<not> st_block_cache st"
  shows "bi_at (st_index_block st) (index_pairs snap 0 chunks) i it \<Longrightarrow>
    \<exists>it'. sstable_get_loop unsnap st k it = Some (lookup (concat (drop i chunks)) k, it')"
proof (induction "length chunks - i" arbitrary: i it)
  case 0
  then show ?case
    using bi_at_valid [OF 0(2)] by (subst sstable_get_loop.simps) simp
next
  case (Suc n)
  then have i: "i < length chunks" by simp
  then have i': "i < length (index_pairs snap 0 chunks)" by simp
  have ne: "chunks ! i \<noteq> []" and sorted: "sorted_kvs (concat chunks)"
    using rep i by (metis sst_rep_def nth_mem, simp add: sst_rep_def)
  have valid: "bi_valid (st_index_block st) it" using bi_at_valid [OF Suc.prems] i by simp
  have key: "bi_key (st_index_block st) it = Some (fst (last (chunks ! i)))"
    using bki.key_at_pos [OF Suc.prems i'] index_pairs_nth [OF i] by simp
  show ?case
  proof (cases "k \<le> fst (last (chunks ! i))")
    case True
    obtain b where b: "load_block unsnap (st_file st) (length (data_image snap (take i chunks)))
        (length (snap (block_image (chunks ! i)))) = Some b" "block_rep b (chunks ! i)"
      using load_chunk(1) [OF snap rep i] by blast
    have "bi_value (st_index_block st) it = Some (u64_bytes (length (data_image snap (take i chunks))) @
        u64_bytes (length (snap (block_image (chunks ! i)))))"
      using bki.val_at_pos [OF Suc.prems i'] index_pairs_nth [OF i] by simp
    with read_u64_pair [OF load_chunk(2,3) [OF snap rep i]] show ?thesis
      using valid key True b block_get_rep [OF b(2), of k] cache map_of_chunk(1) [OF sorted i ne True]
      by (subst sstable_get_loop.simps) simp
  next
    case False
    obtain it1 where it1: "bi_next (st_index_block st) it = Some it1"
        "bi_at (st_index_block st) (index_pairs snap 0 chunks) (Suc i) it1"
      using bi_next_at [OF Suc.prems i'] by blast
    with Suc.hyps(1) [OF _ it1(2)] Suc.hyps(2) show ?thesis
      using valid key False map_of_chunk(2) [OF sorted i ne False]
      by (subst sstable_get_loop.simps) simp
  qed
qed

lemma sstable_get_ok:
  assumes "snappy_ok snap unsnap" and "sst_rep snap st chunks" and "\<not> st_block_cache st"
  shows "\<exists>st'. sstable_get unsnap st k = Some (lookup (concat chunks) k, st') \<and> sst_rep snap st' chunks \<and>
    st_block_cache st' = st_block_cache st"
proof -
  obtain it where it: "bi_seek_to_first (st_index_block st) (st_index_iter st) = Some it"
      "bi_at (st_index_block st) (index_pairs snap 0 chunks) 0 it"
    using bi_first_at [of "st_index_block st" "index_pairs snap 0 chunks"] assms(2) by (auto simp: sst_rep_def)
  obtain it' where "sstable_get_loop unsnap st k it = Some (lookup (concat (drop 0 chunks)) k, it')"
    using sstable_get_from [OF assms it(2)] by blast
  with it(1) assms(2) show ?thesis by (simp add: sstable_get_def sst_rep_def)
qed

text \<open>With a block cache the loop does not move on a key that is not above the block's last key.\<close>

lemma cached_get_diverges:
  assumes "st_block_cache st" and "bi_valid (st_index_block st) it"
    and "bi_key (st_index_block st) it = Some lk" and "k \<le> lk"
  shows "sstable_get_loop unsnap st k it = None"
proof (rule ccontr)
  assume "sstable_get_loop unsnap st k it \<noteq> None"
  then obtain y where "sstable_get_loop unsnap st k it = Some y" by blast
  then have "\<not> (st_block_cache st \<and> bi_valid (st_index_block st) it \<and>
      bi_key (st_index_block st) it = Some lk \<and> k \<le> lk)"
    by (rule sstable_get_loop.raw_induct [where P = "\<lambda>_ st key it _. \<not> (st_block_cache st \<and>
        bi_valid (st_index_block st) it \<and> bi_key (st_index_block st) it = Some lk \<and> key \<le> lk)", rotated])
      (auto split: if_splits Option.bind_splits)
  with assms show False by blast
qed


lemma cached_get_from:
  assumes rep: "sst_rep snap st chunks" and cache: "st_block_cache st"
    and some: "chunks \<noteq> []" "k \<le> fst (last (last chunks))"
  shows "bi_at (st_index_block st) (index_pairs snap 0 chunks) i it \<Longrightarrow> i < length chunks \<Longrightarrow>
    sstable_get_loop unsnap st k it = None"
proof (induction "length chunks - i" arbitrary: i it)
  case (Suc n)
  then have i': "i < length (index_pairs snap 0 chunks)" by simp
  have valid: "bi_valid (st_index_block st) it" using bi_at_valid [OF Suc.prems(1)] i' by simp
  have key: "bi_key (st_index_block st) it = Some (fst (last (chunks ! i)))"
    using bki.key_at_pos [OF Suc.prems(1) i'] index_pairs_nth [OF Suc.prems(2)] by simp
  show ?case
  proof (cases "k \<le> fst (last (chunks ! i))")
    case True
    with cached_get_diverges [OF cache valid key] show ?thesis by blast
  next
    case False
    then have "Suc i < length chunks"
      using some Suc.prems(2) by (metis Suc_lessI diff_Suc_1 last_conv_nth)
    moreover obtain it1 where "bi_next (st_index_block st) it = Some it1"
        "bi_at (st_index_block st) (index_pairs snap 0 chunks) (Suc i) it1"
      using bi_next_at [OF Suc.prems(1) i'] by blast
    ultimately show ?thesis
      using Suc.hyps(1) [of "Suc i" it1] Suc.hyps(2) valid key False
      by (subst sstable_get_loop.simps) simp
  qed
qed simp

section \<open>Properties\<close>

lemma snappy_id: "snappy_ok (\<lambda>x. x) (\<lambda>x. x)"
  by (simp add: snappy_ok_def)

lemma two_pair_memtable:
  "\<exists>s t u. sl_new = Some s \<and> sl_put 0 s [7] [1] = Some t \<and> sl_put 2 t [5] [2] = Some u \<and>
     sl_rep u [([5], [2]), ([7], [1])]"
proof -
  obtain s where s: "sl_new = Some s" "sl_rep s []" using sl_new_rep by blast
  obtain t where t: "sl_put 0 s [7] [1] = Some t" "sl_rep t [([7], [1])]"
    using sl_put_rep [OF s(2), of 0 "[7]" "[1]"] by auto
  obtain u where "sl_put 2 t [5] [2] = Some u" "sl_rep u [([5], [2]), ([7], [1])]"
    using sl_put_rep [OF t(2), of 2 "[5]" "[2]"] by auto
  with s(1) t(1) show ?thesis by blast
qed

text \<open>C6. A table created from a memtable is read back exactly: opening the file succeeds, and \<open>get\<close>
  of any key returns what the memtable holds for it. The pairs together take less than 2^48 bytes.\<close>

theorem sstable_roundtrip:
  assumes "snappy_ok snap unsnap" and "sl_rep mem ps" and "small ps"
  shows "\<exists>file st st'. create_sstable snap True mem = Some file \<and> sstable_new unsnap file False = Some st \<and>
    sstable_get unsnap st k = Some (case map_of ps k of Some v \<Rightarrow> (True, v) | None \<Rightarrow> (False, []), st')"
proof -
  obtain f where f: "create_sstable snap True mem = Some f" "table_file snap f ps"
    using create_sstable_ok [OF assms] by blast
  obtain st chunks where "sstable_new unsnap f False = Some st" "sst_rep snap st chunks"
      "concat chunks = ps" "st_block_cache st = False"
    using sstable_new_ok [OF assms(1) f(2), of False] by blast
  with f(1) sstable_get_ok [OF assms(1), of st chunks k] show ?thesis by blast
qed

theorem sstable_roundtrip_witness:
  "\<exists>mem f st st'. create_sstable (\<lambda>x. x) True mem = Some f \<and> sstable_new (\<lambda>x. x) f False = Some st \<and>
    sstable_get (\<lambda>x. x) st [5] = Some ((True, [2]), st')"
proof -
  obtain u where u: "sl_rep u [([5], [2]), ([7], [1])]" using two_pair_memtable by blast
  have "small [([5], [2]), ([7], [1])]" by (simp add: small_def)
  from sstable_roundtrip [OF snappy_id u this, of "[5]"] show ?thesis by auto
qed

text \<open>\<open>TableBuilder\<close> cuts the pairs into consecutive non-empty blocks; every block but the last
  reaches \<open>BLOCK_SPACE\<close> bytes before compression, and does so only with its last pair.\<close>

theorem table_blocks_fill_up:
  assumes "snappy_ok snap unsnap" and "sl_rep mem ps" and "small ps"
  shows "\<exists>chunks. create_sstable snap True mem = Some (table_image snap chunks) \<and> concat chunks = ps \<and>
    [] \<notin> set chunks \<and>
    (\<forall>c \<in> set (butlast chunks). 4096 \<le> length (block_image c) \<and> length (block_image (butlast c)) < 4096)"
  using create_sstable_ok [OF assms]
  by (auto simp: table_file_def full_chunk_def block_space_def)

theorem table_blocks_fill_up_witness:
  "\<exists>mem chunks. create_sstable (\<lambda>x. x) True mem = Some (table_image (\<lambda>x. x) chunks) \<and>
    concat chunks = [([5], [2]), ([7], [1])]"
proof -
  obtain u where u: "sl_rep u [([5], [2]), ([7], [1])]" using two_pair_memtable by blast
  have "small [([5], [2]), ([7], [1])]" by (simp add: small_def)
  from table_blocks_fill_up [OF snappy_id u this] show ?thesis by blast
qed

text \<open>With a block cache (\<open>block_cache != nullptr\<close>), \<open>get\<close> never returns for a key that is not
  above the last key of the table: the loop reaches a block that may hold the key and stays on it.\<close>

theorem cached_get_never_returns:
  assumes "sst_rep snap st chunks" and "st_block_cache st" and "chunks \<noteq> []" and "k \<le> fst (last (last chunks))"
  shows "sstable_get unsnap st k = None"
proof -
  obtain it where "bi_seek_to_first (st_index_block st) (st_index_iter st) = Some it"
      "bi_at (st_index_block st) (index_pairs snap 0 chunks) 0 it"
    using bi_first_at [of "st_index_block st" "index_pairs snap 0 chunks"] assms(1) by (auto simp: sst_rep_def)
  with cached_get_from [OF assms, of 0 it unsnap] assms(3) show ?thesis
    by (simp add: sstable_get_def)
qed

theorem cached_get_never_returns_witness:
  "\<exists>mem f st. create_sstable (\<lambda>x. x) True mem = Some f \<and> sstable_new (\<lambda>x. x) f True = Some st \<and>
    sstable_get (\<lambda>x. x) st [5] = None"
proof -
  let ?ps = "[([5], [2]), ([7], [1])] :: kvs"
  obtain u where u: "sl_rep u ?ps" using two_pair_memtable by blast
  have "small ?ps" by (simp add: small_def)
  then obtain f where f: "create_sstable (\<lambda>x. x) True u = Some f" "table_file (\<lambda>x. x) f ?ps"
    using create_sstable_ok [OF snappy_id u] by blast
  obtain st chunks where st: "sstable_new (\<lambda>x. x) f True = Some st" "sst_rep (\<lambda>x. x) st chunks"
      "concat chunks = ?ps" "st_block_cache st"
    using sstable_new_ok [OF snappy_id f(2), of True] by auto
  have ne: "chunks \<noteq> []" using st(3) by auto
  then have "last chunks \<noteq> []" using st(2) unfolding sst_rep_def by (metis last_in_set)
  then have "last (last chunks) = last ?ps"
    using ne st(3) by (metis append_butlast_last_id concat.simps(1) concat.simps(2) concat_append append_Nil2 last_appendR)
  then have "[5] \<le> fst (last (last chunks))" by simp
  from cached_get_never_returns [OF st(2,4) ne this] f(1) st(1) show ?thesis by blast
qed

end
