(* ===== verification/LevelStore.thy ===== *)
theory LevelStore
  imports TableFile
begin

text \<open>
  The on-disk store: \<open>SSTableId\<close>, \<open>LevelZero\<close> and \<open>DiskStorage\<close> (\<open>src/storage/SSTableId.cpp\<close>,
  \<open>LevelZero.cpp\<close>, \<open>DiskStorage.cpp\<close> and their headers), over a file system that is the bytes of
  every file and the set of directories. \<open>std::filesystem\<close> calls that throw and reads past the end
  of a file are \<open>None\<close>; an \<open>ofstream\<close> on a path whose directory is missing drops what is written,
  as the code never looks at the stream's state. Disks that fail or fill up are not modelled.

  \<open>ds_rep\<close> relates a store and its files to the list of the tables that were flushed, oldest first.
\<close>

section \<open>Files\<close>

record filesys =
  fs_files :: "path \<rightharpoonup> bytes"
  fs_dirs :: "path set"

definition join :: "path \<Rightarrow> string \<Rightarrow> path" where
  "join dir nm = dir @ ''/'' @ nm"

text \<open>The directory part of a path, if it has one.\<close>

definition parent_dir :: "path \<Rightarrow> path option" where
  "parent_dir p =
     (if CHR ''/'' \<in> set p then Some (rev (tl (dropWhile (\<lambda>c. c \<noteq> CHR ''/'') (rev p)))) else None)"

definition fs_exists :: "filesys \<Rightarrow> path \<Rightarrow> bool" where
  "fs_exists fs p \<longleftrightarrow> p \<in> fs_dirs fs \<or> fs_files fs p \<noteq> None"

text \<open>Whether \<open>std::ofstream(p)\<close> opens.\<close>

definition can_create :: "filesys \<Rightarrow> path \<Rightarrow> bool" where
  "can_create fs p \<longleftrightarrow> p \<notin> fs_dirs fs \<and> (case parent_dir p of Some d \<Rightarrow> d = [] \<or> d \<in> fs_dirs fs | None \<Rightarrow> True)"

definition fs_write :: "filesys \<Rightarrow> path \<Rightarrow> bytes \<Rightarrow> filesys" where
  "fs_write fs p bs = (if can_create fs p then fs\<lparr>fs_files := (fs_files fs)(p \<mapsto> bs)\<rparr> else fs)"

text \<open>The path and every directory above it.\<close>

definition ancestors :: "path \<Rightarrow> path list" where
  "ancestors p = map (\<lambda>i. take i p) (filter (\<lambda>i. i = length p \<or> p ! i = CHR ''/'') [1..<length p + 1])"

definition create_directories :: "filesys \<Rightarrow> path \<Rightarrow> filesys option" where
  "create_directories fs p =
     (if list_ex (\<lambda>d. fs_files fs d \<noteq> None) (ancestors p) then None
      else Some (fs\<lparr>fs_dirs := fs_dirs fs \<union> set (ancestors p)\<rparr>))"

definition create_directory :: "filesys \<Rightarrow> path \<Rightarrow> filesys option" where
  "create_directory fs p =
     (if can_create fs p \<and> fs_files fs p = None then Some (fs\<lparr>fs_dirs := insert p (fs_dirs fs)\<rparr>) else None)"

section \<open>Level zero\<close>

record sstable_id =
  id_dir :: path
  id_no :: uint64

definition sstable_id_name :: "sstable_id \<Rightarrow> path" where
  "sstable_id_name i = id_dir i @ ''/'' @ dec_string (id_no i) @ ''.sst''"

record level_zero =
  lz_dir :: path
  lz_ssts :: "sstable_id list"
  lz_size :: uint64
  lz_num_entries :: uint64
  lz_table_cache :: bool

definition lz_meta :: "level_zero \<Rightarrow> bytes" where
  "lz_meta lz = u64_bytes (lz_size lz) @ u64_bytes (lz_num_entries lz) @
     concat (map (\<lambda>sst. u64_bytes (id_no sst)) (lz_ssts lz))"

definition lz_save_meta :: "filesys \<Rightarrow> level_zero \<Rightarrow> filesys" where
  "lz_save_meta fs lz = fs_write fs (lz_dir lz @ ''/index'') (lz_meta lz)"

text \<open>\<open>for (i = 0; i < size_; ++i) { ifs.read(&no); ssts_.emplace_back(...); }\<close>, from byte \<open>off\<close>.\<close>

fun read_ids :: "bytes \<Rightarrow> path \<Rightarrow> nat \<Rightarrow> nat \<Rightarrow> sstable_id list option" where
  "read_ids file dir off 0 = Some []"
| "read_ids file dir off (Suc n) = do {
     no \<leftarrow> read_u64 file off;
     ids \<leftarrow> read_ids file dir (off + 8) n;
     Some (\<lparr>id_dir = dir, id_no = no\<rparr> # ids) }"

definition lz_new :: "filesys \<Rightarrow> path \<Rightarrow> bool \<Rightarrow> (filesys \<times> level_zero) option" where
  "lz_new fs dir table_cache =
     (if \<not> fs_exists fs dir
      then do {
        fs1 \<leftarrow> create_directories fs dir;
        let lz = \<lparr>lz_dir = dir, lz_ssts = [], lz_size = 0, lz_num_entries = 0, lz_table_cache = table_cache\<rparr>;
        Some (lz_save_meta fs1 lz, lz) }
      else do {
        file \<leftarrow> fs_files fs (dir @ ''/index'');
        size \<leftarrow> read_u64 file 0;
        num \<leftarrow> read_u64 file 8;
        ids \<leftarrow> read_ids file dir 16 size;
        Some (fs, \<lparr>lz_dir = dir, lz_ssts = ids, lz_size = size, lz_num_entries = num,
                   lz_table_cache = table_cache\<rparr>) })"

definition lz_add :: "(bytes \<Rightarrow> bytes) \<Rightarrow> filesys \<Rightarrow> level_zero \<Rightarrow> skiplist \<Rightarrow> uint64 \<Rightarrow> (filesys \<times> level_zero) option" where
  "lz_add snap fs lz mem no =
     (let sst = \<lparr>id_dir = lz_dir lz, id_no = no\<rparr>;
          nm = sstable_id_name sst
      in do {
        bs \<leftarrow> create_sstable snap (can_create fs nm) mem;
        let fs1 = fs_write fs nm bs;
        let lz1 = lz\<lparr>lz_ssts := lz_ssts lz @ [sst], lz_size := add64 (lz_size lz) 1,
                     lz_num_entries := add64 (lz_num_entries lz) (unat (sl_size mem))\<rparr>;
        Some (lz_save_meta fs1 lz1, lz1) })"

fun lz_search_from :: "(bytes \<Rightarrow> bytes) \<Rightarrow> filesys \<Rightarrow> bool \<Rightarrow> sstable_id list \<Rightarrow> bytes \<Rightarrow> (bool \<times> bytes) option" where
  "lz_search_from unsnap fs table_cache [] key = Some (False, [])"
| "lz_search_from unsnap fs table_cache (sst # ssts) key = do {
     result \<leftarrow>
       (if table_cache then Some (False, [])
        else do {
          file \<leftarrow> fs_files fs (sstable_id_name sst);
          table \<leftarrow> sstable_new unsnap file False;
          map_option fst (sstable_get unsnap table key) });
     (if fst result then Some result else lz_search_from unsnap fs table_cache ssts key) }"

definition lz_search :: "(bytes \<Rightarrow> bytes) \<Rightarrow> filesys \<Rightarrow> level_zero \<Rightarrow> bytes \<Rightarrow> (bool \<times> bytes) option" where
  "lz_search unsnap fs lz key = lz_search_from unsnap fs (lz_table_cache lz) (lz_ssts lz) key"

section \<open>Disk storage\<close>

record disk_storage =
  ds_dir :: path
  ds_no :: uint64
  ds_level0 :: level_zero

definition ds_save_meta :: "filesys \<Rightarrow> disk_storage \<Rightarrow> filesys" where
  "ds_save_meta fs ds = fs_write fs (ds_dir ds @ ''/meta'') (u64_bytes (ds_no ds))"

definition ds_read_meta :: "filesys \<Rightarrow> disk_storage \<Rightarrow> (filesys \<times> disk_storage) option" where
  "ds_read_meta fs ds =
     (if fs_exists fs (ds_dir ds @ ''/meta'')
      then do {
        file \<leftarrow> fs_files fs (ds_dir ds @ ''/meta'');
        no \<leftarrow> read_u64 file 0;
        Some (fs, ds\<lparr>ds_no := no\<rparr>) }
      else let ds1 = ds\<lparr>ds_no := 0\<rparr> in Some (ds_save_meta fs ds1, ds1))"

definition ds_new :: "filesys \<Rightarrow> path \<Rightarrow> (filesys \<times> disk_storage) option" where
  "ds_new fs dir = do {
     (fs1, lz) \<leftarrow> lz_new fs (dir @ ''/'' @ ''level_0'') False;
     fs2 \<leftarrow> (if \<not> fs_exists fs1 dir then create_directory fs1 dir else Some fs1);
     ds_read_meta fs2 \<lparr>ds_dir = dir, ds_no = 0, ds_level0 = lz\<rparr> }"

definition ds_add :: "(bytes \<Rightarrow> bytes) \<Rightarrow> filesys \<times> disk_storage \<Rightarrow> skiplist \<Rightarrow> (filesys \<times> disk_storage) option" where
  "ds_add snap d mem = do {
     (fs1, lz) \<leftarrow> lz_add snap (fst d) (ds_level0 (snd d)) mem (ds_no (snd d));
     let ds1 = (snd d)\<lparr>ds_level0 := lz, ds_no := add64 (ds_no (snd d)) 1\<rparr>;
     Some (ds_save_meta fs1 ds1, ds1) }"

definition ds_search :: "(bytes \<Rightarrow> bytes) \<Rightarrow> filesys \<times> disk_storage \<Rightarrow> bytes \<Rightarrow> (bool \<times> bytes) option" where
  "ds_search unsnap d key = lz_search unsnap (fst d) (ds_level0 (snd d)) key"

section \<open>Paths\<close>

lemma parent_dir_join: "CHR ''/'' \<notin> set nm \<Longrightarrow> parent_dir (dir @ CHR ''/'' # nm) = Some dir"
proof -
  assume "CHR ''/'' \<notin> set nm"
  then have "dropWhile (\<lambda>c. c \<noteq> CHR ''/'') (rev nm @ CHR ''/'' # rev dir) = CHR ''/'' # rev dir"
    by (subst dropWhile_append2) auto
  then show ?thesis by (simp add: parent_dir_def)
qed

lemma set_dec_string: "c \<in> set (dec_string n) \<Longrightarrow> 48 \<le> (of_char c :: nat) \<and> (of_char c :: nat) \<le> 57"
proof (induction n rule: dec_string.induct)
  case (1 n)
  have "of_char (char_of (48 + m) :: char) = 48 + m" if "m < 10" for m :: nat
    using that by simp
  from this [of n] this [of "n mod 10"] 1 show ?case
    by (subst (asm) (2) dec_string.simps) (auto split: if_splits)
qed

lemma slash_dec_string [simp]: "CHR ''/'' \<notin> set (dec_string n)"
  using set_dec_string [of "CHR ''/''" n] by auto

lemma ancestors_self: "p \<noteq> [] \<Longrightarrow> p \<in> set (ancestors p)"
  by (auto simp: ancestors_def Suc_le_eq intro!: image_eqI [where x = "length p"])

lemma ancestors_parent: "dir \<noteq> [] \<Longrightarrow> dir \<in> set (ancestors (dir @ CHR ''/'' # nm))"
  by (auto simp: ancestors_def Suc_le_eq nth_append intro!: image_eqI [where x = "length dir"])

section \<open>The tables on disk\<close>

abbreviation table_id :: "path \<Rightarrow> nat \<Rightarrow> sstable_id" where
  "table_id dir i \<equiv> \<lparr>id_dir = dir @ ''/level_0'', id_no = i\<rparr>"

abbreviation index_path :: "path \<Rightarrow> path" where
  "index_path dir \<equiv> dir @ ''/level_0/index''"

abbreviation meta_path :: "path \<Rightarrow> path" where
  "meta_path dir \<equiv> dir @ ''/meta''"

definition total_entries :: "kvs list \<Rightarrow> nat" where
  "total_entries ts = length (concat ts)"

definition dirs_ok :: "filesys \<Rightarrow> path \<Rightarrow> bool" where
  "dirs_ok fs dir \<longleftrightarrow> dir \<noteq> [] \<and> dir \<in> fs_dirs fs \<and> dir @ ''/level_0'' \<in> fs_dirs fs \<and>
     meta_path dir \<notin> fs_dirs fs \<and> (\<forall>s. dir @ ''/level_0/'' @ s \<notin> fs_dirs fs)"

definition ds_rep :: "(bytes \<Rightarrow> bytes) \<Rightarrow> filesys \<times> disk_storage \<Rightarrow> kvs list \<Rightarrow> bool" where
  "ds_rep snap d ts \<longleftrightarrow> (case d of (fs, ds) \<Rightarrow>
     dirs_ok fs (ds_dir ds) \<and> length ts < two64 \<and> ds_no ds = length ts \<and>
     ds_level0 ds = \<lparr>lz_dir = ds_dir ds @ ''/level_0'', lz_ssts = map (table_id (ds_dir ds)) [0..<length ts],
       lz_size = length ts, lz_num_entries = total_entries ts mod two64, lz_table_cache = False\<rparr> \<and>
     fs_files fs (index_path (ds_dir ds)) = Some (lz_meta (ds_level0 ds)) \<and>
     fs_files fs (meta_path (ds_dir ds)) = Some (u64_bytes (length ts)) \<and>
     (\<forall>i < length ts. \<exists>f. fs_files fs (sstable_id_name (table_id (ds_dir ds) i)) = Some f \<and>
        table_file snap f (ts ! i)))"

lemma table_name_simps [simp]:
  "sstable_id_name (table_id dir i) = sstable_id_name (table_id dir j) \<longleftrightarrow> i = j"
  "sstable_id_name (table_id dir i) \<noteq> index_path dir" "sstable_id_name (table_id dir i) \<noteq> meta_path dir"
  "index_path dir \<noteq> sstable_id_name (table_id dir i)" "meta_path dir \<noteq> sstable_id_name (table_id dir i)"
  "index_path dir \<noteq> meta_path dir" "meta_path dir \<noteq> index_path dir"
proof -
  have "dec_string i @ ''.sst'' \<noteq> ''index''"
  proof
    assume "dec_string i @ ''.sst'' = ''index''"
    from arg_cong [OF this, of last] show False by simp
  qed
  then show "sstable_id_name (table_id dir i) \<noteq> index_path dir" "index_path dir \<noteq> sstable_id_name (table_id dir i)"
    by (auto simp: sstable_id_name_def)
qed (auto simp: sstable_id_name_def)

lemma can_create_store:
  assumes "dirs_ok fs dir"
  shows "can_create fs (sstable_id_name (table_id dir i))" "can_create fs (index_path dir)"
    "can_create fs (meta_path dir)"
proof -
  have "parent_dir (sstable_id_name (table_id dir i)) = Some (dir @ ''/level_0'')"
    using parent_dir_join [of "dec_string i @ ''.sst''" "dir @ ''/level_0''"] by (simp add: sstable_id_name_def)
  then show "can_create fs (sstable_id_name (table_id dir i))"
    using assms by (simp add: can_create_def dirs_ok_def sstable_id_name_def)
  have "parent_dir (index_path dir) = Some (dir @ ''/level_0'')"
    using parent_dir_join [of "''index''" "dir @ ''/level_0''"] by simp
  then show "can_create fs (index_path dir)"
    using assms spec [of "\<lambda>s. dir @ ''/level_0/'' @ s \<notin> fs_dirs fs" "''index''"]
    by (simp add: can_create_def dirs_ok_def)
  have "parent_dir (meta_path dir) = Some dir" using parent_dir_join [of "''meta''" dir] by simp
  then show "can_create fs (meta_path dir)" using assms by (simp add: can_create_def dirs_ok_def)
qed

lemma fs_write_files:
  "can_create fs p \<Longrightarrow> fs_files (fs_write fs p bs) = (fs_files fs)(p \<mapsto> bs)"
  "fs_dirs (fs_write fs p bs) = fs_dirs fs"
  "can_create (fs_write fs p bs) q = can_create fs q" "dirs_ok (fs_write fs p bs) dir = dirs_ok fs dir"
  by (simp_all add: fs_write_def can_create_def dirs_ok_def split: option.splits)

lemma ds_add_rep:
  assumes snap: "snappy_ok snap unsnap" and rep: "ds_rep snap d ts" and mem: "sl_rep m ps"
    and small: "small ps" and len: "Suc (length ts) < two64"
  shows "\<exists>d'. ds_add snap d m = Some d' \<and> ds_rep snap d' (ts @ [ps])"
proof -
  obtain fs ds where d: "d = (fs, ds)" by (cases d)
  define dir where "dir = ds_dir ds"
  have ok: "dirs_ok fs dir" using rep by (simp add: d ds_rep_def dir_def)
  note cc = can_create_store [OF ok]
  obtain bs where bs: "create_sstable snap True m = Some bs" "table_file snap bs ps"
    using create_sstable_ok [OF snap mem small] by blast
  let ?n = "length ts" and ?nm = "\<lambda>i. sstable_id_name (table_id dir i)"
  define lz where "lz = \<lparr>lz_dir = dir @ ''/level_0'', lz_ssts = map (table_id dir) [0..<Suc ?n],
    lz_size = Suc ?n, lz_num_entries = total_entries (ts @ [ps]) mod two64, lz_table_cache = False\<rparr>"
  define fs1 where "fs1 = fs_write (fs_write (fs_write fs (?nm ?n) bs) (index_path dir) (lz_meta lz))
    (meta_path dir) (u64_bytes (Suc ?n))"
  define ds1 where "ds1 = ds\<lparr>ds_level0 := lz, ds_no := Suc ?n\<rparr>"
  have "unat (sl_size m) = length ps mod two64"
    using sl_rep_counts(1) [OF mem] by (simp add: unat_of_nat)
  then have num: "add64 (lz_num_entries (ds_level0 ds)) (unat (sl_size m)) = total_entries (ts @ [ps]) mod two64"
    using rep by (simp add: d ds_rep_def add64_def total_entries_def mod_simps)
  have lz: "ds_level0 ds\<lparr>lz_ssts := lz_ssts (ds_level0 ds) @ [table_id dir ?n],
      lz_size := add64 (lz_size (ds_level0 ds)) 1,
      lz_num_entries := add64 (lz_num_entries (ds_level0 ds)) (unat (sl_size m))\<rparr> = lz"
    unfolding num using rep len by (simp add: d ds_rep_def lz_def dir_def)
  have fields: "ds_no ds = ?n" "lz_dir (ds_level0 ds) = dir @ ''/level_0''"
    using rep by (auto simp: d ds_rep_def dir_def)
  have "lz_add snap fs (ds_level0 ds) m ?n =
      Some (fs_write (fs_write fs (?nm ?n) bs) (index_path dir) (lz_meta lz), lz)"
    using cc(1) [of ?n] bs(1) lz by (simp add: lz_add_def fields lz_save_meta_def Let_def)
  then have "ds_add snap d m = Some (fs1, ds1)"
    using len by (simp add: ds_add_def d fields ds_save_meta_def fs1_def ds1_def dir_def)
  moreover have "ds_rep snap (fs1, ds1) (ts @ [ps])"
  proof -
    have files: "fs_files fs1 = (fs_files fs)(?nm ?n \<mapsto> bs, index_path dir \<mapsto> lz_meta lz,
        meta_path dir \<mapsto> u64_bytes (Suc ?n))"
      using cc by (simp add: fs1_def fs_write_files)
    have dirs: "dirs_ok fs1 dir" using ok by (simp add: fs1_def fs_write_files)
    have "\<exists>f. fs_files fs1 (?nm i) = Some f \<and> table_file snap f ((ts @ [ps]) ! i)" if "i < Suc ?n" for i
      using that rep bs(2) unfolding files
      by (cases "i = ?n") (auto simp: d ds_rep_def dir_def nth_append)
    then show ?thesis
      using dirs files len by (simp add: ds_rep_def ds1_def dir_def [symmetric]) (simp add: lz_def)
  qed
  ultimately show ?thesis by blast
qed

lemma lz_search_tables:
  assumes snap: "snappy_ok snap unsnap"
    and files: "\<forall>j < length ts. \<exists>f. fs_files fs (sstable_id_name (g j)) = Some f \<and> table_file snap f (ts ! j)"
  shows "lz_search_from unsnap fs False (map g [0..<length ts]) k = Some (lookup (concat ts) k)"
  using files
proof (induction ts arbitrary: g)
  case (Cons ps ts)
  obtain f where f: "fs_files fs (sstable_id_name (g 0)) = Some f" "table_file snap f ps"
    using Cons.prems by auto
  obtain st chunks where st: "sstable_new unsnap f False = Some st" "sst_rep snap st chunks"
      "concat chunks = ps" "st_block_cache st = False"
    using sstable_new_ok [OF snap f(2), of False] by blast
  obtain st' where get: "sstable_get unsnap st k = Some (lookup ps k, st')"
    using sstable_get_ok [OF snap st(2)] st(3,4) by auto
  have IH: "lz_search_from unsnap fs False (map (g \<circ> Suc) [0..<length ts]) k = Some (lookup (concat ts) k)"
    using Cons.prems by (intro Cons.IH) auto
  have "map g [0..<length (ps # ts)] = g 0 # map (g \<circ> Suc) [0..<length ts]"
    by (simp add: upt_conv_Cons map_Suc_upt [symmetric] del: upt_Suc)
  then show ?case
    using f(1) st(1) get IH by (simp add: map_add_def split: option.splits)
qed simp

lemma ds_search_rep:
  assumes "snappy_ok snap unsnap" and "ds_rep snap d ts"
  shows "ds_search unsnap d k = Some (lookup (concat ts) k)"
proof -
  obtain fs ds where d: "d = (fs, ds)" by (cases d)
  show ?thesis
    using lz_search_tables [OF assms(1), of ts fs "table_id (ds_dir ds)" k] assms(2)
    by (simp add: ds_search_def lz_search_def d ds_rep_def)
qed

section \<open>Opening a store\<close>

lemma read_ids_image:
  "file = pre @ concat (map u64_bytes nos) @ post \<Longrightarrow> length pre = off \<Longrightarrow> \<forall>no \<in> set nos. no < two64 \<Longrightarrow>
   read_ids file dir off (length nos) = Some (map (\<lambda>no. \<lparr>id_dir = dir, id_no = no\<rparr>) nos)"
proof (induction nos arbitrary: pre off)
  case (Cons no nos)
  have "read_u64 file off = Some no" using Cons.prems by (simp add: read_u64_append)
  moreover have "read_ids file dir (off + 8) (length nos) = Some (map (\<lambda>no. \<lparr>id_dir = dir, id_no = no\<rparr>) nos)"
    by (rule Cons.IH [of "pre @ u64_bytes no"]) (use Cons.prems in auto)
  ultimately show ?case by simp
qed simp

lemma lz_new_reopen:
  assumes "ds_rep snap (fs, ds) ts"
  shows "lz_new fs (ds_dir ds @ ''/level_0'') False = Some (fs, ds_level0 ds)"
proof -
  let ?l = "ds_dir ds @ ''/level_0''" and ?n = "length ts" and ?e = "total_entries ts mod two64"
  have meta: "lz_meta (ds_level0 ds) = u64_bytes ?n @ u64_bytes ?e @ concat (map u64_bytes [0..<?n])"
    using assms by (simp add: ds_rep_def lz_meta_def comp_def)
  have bounds: "?n < two64" "?e < two64" "\<forall>no \<in> set [0..<?n]. no < two64"
    using assms by (auto simp: ds_rep_def)
  have reads: "read_u64 (lz_meta (ds_level0 ds)) 0 = Some ?n" "read_u64 (lz_meta (ds_level0 ds)) 8 = Some ?e"
    unfolding meta using read_u64_append [of "[]" 0 ?n] read_u64_append [of "u64_bytes ?n" 8 ?e] bounds
    by simp_all
  have "read_ids (lz_meta (ds_level0 ds)) ?l 16 (length [0..<?n]) =
      Some (map (\<lambda>no. \<lparr>id_dir = ?l, id_no = no\<rparr>) [0..<?n])"
    by (rule read_ids_image [of _ "u64_bytes ?n @ u64_bytes ?e" _ "[]"]) (use bounds in \<open>auto simp: meta\<close>)
  then have ids: "read_ids (lz_meta (ds_level0 ds)) ?l 16 ?n = Some (map (table_id (ds_dir ds)) [0..<?n])"
    by simp
  have fields: "fs_files fs (index_path (ds_dir ds)) = Some (lz_meta (ds_level0 ds))" "fs_exists fs ?l"
    using assms by (simp_all add: ds_rep_def fs_exists_def dirs_ok_def)
  have "lz_new fs ?l False = Some (fs, \<lparr>lz_dir = ?l, lz_ssts = map (table_id (ds_dir ds)) [0..<?n],
      lz_size = ?n, lz_num_entries = ?e, lz_table_cache = False\<rparr>)"
    using reads ids fields by (simp add: lz_new_def)
  then show ?thesis using assms by (simp add: ds_rep_def)
qed

lemma ds_reopen:
  assumes "ds_rep snap (fs, ds) ts"
  shows "ds_new fs (ds_dir ds) = Some (fs, ds)"
proof -
  have "read_u64 (u64_bytes (length ts)) 0 = Some (length ts)"
    using read_u64_append [of "[]" 0 "length ts" "[]"] assms by (simp add: ds_rep_def)
  then show ?thesis
    using lz_new_reopen [OF assms] assms
    by (simp add: ds_new_def ds_rep_def dirs_ok_def fs_exists_def ds_read_meta_def)
qed

text \<open>A place for a new store: no file or directory in the directory, no file above it.\<close>

definition fresh_dir :: "filesys \<Rightarrow> path \<Rightarrow> bool" where
  "fresh_dir fs dir \<longleftrightarrow> dir \<noteq> [] \<and> (\<forall>s. \<not> fs_exists fs (dir @ CHR ''/'' # s)) \<and>
     (\<forall>p \<in> set (ancestors (dir @ ''/level_0'')). fs_files fs p = None)"

lemma ancestors_prefix: "p \<in> set (ancestors q) \<Longrightarrow> \<exists>i. p = take i q"
  by (auto simp: ancestors_def)

lemma ancestors_length: "p \<in> set (ancestors q) \<Longrightarrow> length p \<le> length q"
  by (auto simp: ancestors_def)

lemma ds_new_fresh:
  assumes "fresh_dir fs dir"
  shows "\<exists>d. ds_new fs dir = Some d \<and> ds_rep snap d [] \<and> ds_dir (snd d) = dir"
proof -
  let ?l = "dir @ ''/level_0''"
  let ?fs = "fs\<lparr>fs_dirs := fs_dirs fs \<union> set (ancestors ?l)\<rparr>"
  define lz where "lz = \<lparr>lz_dir = ?l, lz_ssts = [], lz_size = 0, lz_num_entries = 0, lz_table_cache = False\<rparr>"
  have ne: "dir \<noteq> []" using assms by (simp add: fresh_dir_def)
  have no: "\<not> fs_exists fs (dir @ CHR ''/'' # s)" for s using assms by (simp add: fresh_dir_def)
  have create: "create_directories fs ?l = Some ?fs"
    using assms by (simp add: create_directories_def fresh_dir_def list_ex_iff)
  have l: "?l \<in> set (ancestors ?l)" "dir \<in> set (ancestors ?l)"
    using ancestors_self [of ?l] ancestors_parent [of dir "''level_0''"] ne by simp_all
  have "p \<noteq> meta_path dir" if mem: "p \<in> set (ancestors ?l)" for p
  proof
    assume "p = meta_path dir"
    then obtain i where i: "meta_path dir = take i ?l" using ancestors_prefix [OF mem] by auto
    have "i = length dir + 5" using arg_cong [OF i, of length] by simp
    with i show False by simp
  qed
  then have "meta_path dir \<notin> fs_dirs ?fs" using no [of "''meta''"] by (auto simp: fs_exists_def)
  moreover have "dir @ ''/level_0/'' @ s \<notin> fs_dirs ?fs" for s
    using no [of "''level_0/'' @ s"] ancestors_length [of "dir @ ''/level_0/'' @ s" ?l]
    by (auto simp: fs_exists_def)
  ultimately have ok: "dirs_ok ?fs dir" using l ne by (simp add: dirs_ok_def)
  note cc = can_create_store(2,3) [OF ok]
  define fs1 where "fs1 = fs_write ?fs (index_path dir) (lz_meta lz)"
  have "lz_new fs ?l False = Some (fs1, lz)"
    using no [of "''level_0''"] create by (simp add: lz_new_def lz_save_meta_def fs1_def Let_def) (simp add: lz_def)
  moreover have "fs_files fs (meta_path dir) = None" using no [of "''meta''"] by (simp add: fs_exists_def)
  moreover have "dir \<in> fs_dirs fs1" "meta_path dir \<notin> fs_dirs fs1" "dirs_ok fs1 dir"
    using ok by (simp_all add: fs1_def fs_write_files dirs_ok_def)
  ultimately have new: "ds_new fs dir = Some (fs_write fs1 (meta_path dir) (u64_bytes 0),
      \<lparr>ds_dir = dir, ds_no = 0, ds_level0 = lz\<rparr>)"
    using cc by (simp add: ds_new_def fs_exists_def ds_read_meta_def ds_save_meta_def fs1_def fs_write_files)
  moreover have "ds_rep snap (fs_write fs1 (meta_path dir) (u64_bytes 0), \<lparr>ds_dir = dir, ds_no = 0, ds_level0 = lz\<rparr>) []"
    using cc ok by (simp add: ds_rep_def fs1_def fs_write_files total_entries_def) (simp add: lz_def)
  ultimately show ?thesis by auto
qed


section \<open>The contract of the disk store\<close>

locale disk_store =
  fixes rep :: "'d \<Rightarrow> kvs list \<Rightarrow> bool"
    and add :: "'d \<Rightarrow> skiplist \<Rightarrow> 'd option"
    and search :: "'d \<Rightarrow> bytes \<Rightarrow> (bool \<times> bytes) option"
    and reopen :: "'d \<Rightarrow> 'd option"
  assumes add_rep: "rep d ts \<Longrightarrow> sl_rep m ps \<Longrightarrow> small ps \<Longrightarrow> Suc (length ts) < two64 \<Longrightarrow>
      \<exists>d'. add d m = Some d' \<and> rep d' (ts @ [ps])"
    and search_rep: "rep d ts \<Longrightarrow> search d k = Some (lookup (concat ts) k)"
    and reopen_rep: "rep d ts \<Longrightarrow> reopen d = Some d"
begin

fun add_all :: "'d \<Rightarrow> skiplist list \<Rightarrow> 'd option" where
  "add_all d [] = Some d"
| "add_all d (m # ms) = do { d' \<leftarrow> add d m; add_all d' ms }"

lemma add_all_rep:
  assumes "rep d ts" and "list_all2 sl_rep ms pss" and "\<forall>ps \<in> set pss. small ps"
    and "length ts + length pss < two64"
  shows "\<exists>d'. add_all d ms = Some d' \<and> rep d' (ts @ pss) \<and> reopen d' = Some d' \<and>
    search d' k = Some (lookup (concat (ts @ pss)) k)"
  using assms(2,1,3,4)
proof (induction arbitrary: d ts rule: list_all2_induct)
  case Nil
  then show ?case using search_rep reopen_rep by auto
next
  case (Cons m ms ps pss)
  obtain d' where d': "add d m = Some d'" "rep d' (ts @ [ps])"
    using add_rep [OF Cons.prems(1) Cons.hyps(1)] Cons.prems(2,3) by auto
  from Cons.IH [OF d'(2)] Cons.prems(2,3) d'(1) show ?case by auto
qed

lemma old_value_wins:
  assumes "rep d ts" and "map_of (concat ts) k = Some v" and "sl_rep m ps" and "small ps"
    and "Suc (length ts) < two64"
  shows "\<exists>d'. add d m = Some d' \<and> search d' k = Some (True, v)"
proof -
  obtain d' where "add d m = Some d'" "rep d' (ts @ [ps])" using add_rep assms by blast
  with search_rep [of d' "ts @ [ps]" k] assms(2) show ?thesis
    by (simp add: map_add_def split: option.splits)
qed

end

text \<open>Closing and opening the store again: the state is read back from the files.\<close>

definition ds_restart :: "filesys \<times> disk_storage \<Rightarrow> (filesys \<times> disk_storage) option" where
  "ds_restart d = ds_new (fst d) (ds_dir (snd d))"

interpretation dst: disk_store "\<lambda>d ts. snappy_ok snap unsnap \<and> ds_rep snap d ts" "ds_add snap"
    "ds_search unsnap" ds_restart for snap unsnap
proof
  show "snappy_ok snap unsnap \<and> ds_rep snap d ts \<Longrightarrow> sl_rep m ps \<Longrightarrow> small ps \<Longrightarrow> Suc (length ts) < two64 \<Longrightarrow>
      \<exists>d'. ds_add snap d m = Some d' \<and> snappy_ok snap unsnap \<and> ds_rep snap d' (ts @ [ps])" for d ts m ps
    using ds_add_rep by blast
  show "snappy_ok snap unsnap \<and> ds_rep snap d ts \<Longrightarrow> ds_search unsnap d k = Some (lookup (concat ts) k)" for d ts k
    using ds_search_rep by blast
  show "snappy_ok snap unsnap \<and> ds_rep snap d ts \<Longrightarrow> ds_restart d = Some d" for d ts
    using ds_reopen [of snap "fst d" "snd d" ts] by (simp add: ds_restart_def)
qed

fun ds_add_all :: "(bytes \<Rightarrow> bytes) \<Rightarrow> filesys \<times> disk_storage \<Rightarrow> skiplist list \<Rightarrow> (filesys \<times> disk_storage) option" where
  "ds_add_all snap d [] = Some d"
| "ds_add_all snap d (m # ms) = do { d' \<leftarrow> ds_add snap d m; ds_add_all snap d' ms }"

lemma ds_add_all_eq: "ds_add_all snap d ms = dst.add_all snap d ms"
  by (induction ms arbitrary: d) auto

lemma lookup_concat:
  "lookup (concat ts) k =
    (case find (\<lambda>t. map_of t k \<noteq> None) ts of Some t \<Rightarrow> (True, the (map_of t k)) | None \<Rightarrow> (False, []))"
  by (induction ts) (auto simp: map_add_def split: option.splits)

section \<open>Properties\<close>

text \<open>C7. Life of a store: created in a fresh directory, given any memtables in turn, it holds them
  as tables in that order; opening the directory again gives the same state; a search answers from
  the first, that is the oldest, table that has the key, and fails only when none has it.\<close>

theorem disk_storage_lifecycle:
  assumes "snappy_ok snap unsnap" and "fresh_dir fs dir" and "list_all2 sl_rep ms tables"
    and "\<forall>ps \<in> set tables. small ps" and "length tables < two64"
  shows "\<exists>d0 d. ds_new fs dir = Some d0 \<and> ds_add_all snap d0 ms = Some d \<and> ds_new (fst d) dir = Some d \<and>
    ds_search unsnap d k = Some (case find (\<lambda>t. map_of t k \<noteq> None) tables of
      Some t \<Rightarrow> (True, the (map_of t k)) | None \<Rightarrow> (False, []))"
proof -
  obtain d0 where d0: "ds_new fs dir = Some d0" "ds_rep snap d0 []" "ds_dir (snd d0) = dir"
    using ds_new_fresh [OF assms(2)] by blast
  have dir: "ds_dir (snd d') = dir" if "ds_add_all snap d0 ms = Some d'" for d'
    using that d0(3) by (induction snap d0 ms rule: ds_add_all.induct)
      (auto simp: ds_add_def Let_def split: Option.bind_splits prod.splits)
  from dst.add_all_rep [of snap unsnap d0 "[]" ms tables k] d0(2) assms(1,3-5) obtain d where
    "ds_add_all snap d0 ms = Some d" "ds_restart d = Some d" "ds_search unsnap d k = Some (lookup (concat tables) k)"
    by (auto simp: ds_add_all_eq)
  with d0(1) dir [of d] show ?thesis unfolding lookup_concat ds_restart_def
    by (intro exI [of _ d0] exI [of _ d]) simp
qed

definition empty_fs :: filesys where
  "empty_fs = \<lparr>fs_files = Map.empty, fs_dirs = {}\<rparr>"

lemma fresh_empty: "dir \<noteq> [] \<Longrightarrow> fresh_dir empty_fs dir"
  by (simp add: fresh_dir_def empty_fs_def fs_exists_def)

theorem disk_storage_lifecycle_witness:
  "\<exists>m d0 d. ds_new empty_fs ''data'' = Some d0 \<and> ds_add_all (\<lambda>x. x) d0 [m, m] = Some d \<and>
    ds_new (fst d) ''data'' = Some d \<and> ds_search (\<lambda>x. x) d [7] = Some (True, [1])"
proof -
  obtain u where u: "sl_rep u [([5], [2]), ([7], [1])]" using two_pair_memtable by blast
  have "small [([5], [2]), ([7], [1])]" by (simp add: small_def)
  with u disk_storage_lifecycle [OF snappy_id fresh_empty [of "''data''"],
      of "[u, u]" "[[([5], [2]), ([7], [1])], [([5], [2]), ([7], [1])]]" "[7]"]
  obtain d0 d where "ds_new empty_fs ''data'' = Some d0" "ds_add_all (\<lambda>x. x) d0 [u, u] = Some d"
      "ds_new (fst d) ''data'' = Some d" "ds_search (\<lambda>x. x) d [7] = Some (True, [1])" by auto
  then show ?thesis by blast
qed

text \<open>A table that is added later never changes what a search finds: when some table already
  has the key, its old value is still the answer after a newer value was flushed.\<close>

theorem newer_table_is_shadowed:
  assumes "snappy_ok snap unsnap" and "ds_rep snap d ts" and "map_of (concat ts) k = Some v"
    and "sl_rep m ps" and "small ps" and "Suc (length ts) < two64"
  shows "\<exists>d'. ds_add snap d m = Some d' \<and> ds_search unsnap d' k = Some (True, v)"
  using dst.old_value_wins [of snap unsnap d ts k v m ps] assms by blast

theorem newer_table_is_shadowed_witness:
  "\<exists>d m m2 d1 d2. ds_new empty_fs ''data'' = Some d \<and> ds_add (\<lambda>x. x) d m = Some d1 \<and>
    sl_put 0 m [7] [9] = Some m2 \<and> ds_add (\<lambda>x. x) d1 m2 = Some d2 \<and>
    sl_get m2 [7] = Some (True, [9]) \<and> ds_search (\<lambda>x. x) d2 [7] = Some (True, [1])"
proof -
  let ?ps = "[([5], [2]), ([7], [1])] :: kvs" and ?qs = "[([5], [2]), ([7], [9])] :: kvs"
  obtain m where m: "sl_rep m ?ps" using two_pair_memtable by blast
  obtain m2 where m2: "sl_put 0 m [7] [9] = Some m2" "sl_rep m2 ?qs"
    using sl_put_rep [OF m, of 0 "[7]" "[9]"] by auto
  have small: "small ?ps" "small ?qs" by (simp_all add: small_def)
  obtain d where d: "ds_new empty_fs ''data'' = Some d" "ds_rep (\<lambda>x. x) d []"
    using ds_new_fresh [OF fresh_empty [of "''data''"], of "\<lambda>x. x"] by auto
  obtain d1 where d1: "ds_add (\<lambda>x. x) d m = Some d1" "ds_rep (\<lambda>x. x) d1 [?ps]"
    using ds_add_rep [OF snappy_id d(2) m small(1)] by auto
  obtain d2 where "ds_add (\<lambda>x. x) d1 m2 = Some d2" "ds_search (\<lambda>x. x) d2 [7] = Some (True, [1])"
    using newer_table_is_shadowed [OF snappy_id d1(2) _ m2(2) small(2), of "[7]" "[1]"] by auto
  moreover have "sl_get m2 [7] = Some (True, [9])" using sl_lookup(1) [OF m2(2), of "[7]"] by simp
  ultimately show ?thesis using d(1) d1(1) m2(1) by blast
qed

end
