(* ===== verification/Txn.thy ===== *)
theory Txn
  imports Prelude
begin

text \<open>
  Transactions: \<open>include/transaction/txn.h\<close> (write records, lock modes, the identifiers of lockable
  data) and \<open>include/transaction/Transaction.h\<close> (the transaction object with one set of held locks
  per granularity and mode). Lock modes are ordered by what they conflict with.
\<close>

section \<open>Write records\<close>

datatype wtype = INSERT_TUPLE | DELETE_TUPLE

record write_record =
  wr_type :: wtype
  wr_key :: bytes
  wr_value :: bytes

text \<open>The two constructors assert their type.\<close>

definition write_record_insert :: "bytes \<Rightarrow> wtype \<Rightarrow> write_record option" where
  "write_record_insert key ty =
     (if ty = INSERT_TUPLE then Some \<lparr>wr_type = ty, wr_key = key, wr_value = []\<rparr> else None)"

definition write_record_delete :: "bytes \<Rightarrow> bytes \<Rightarrow> wtype \<Rightarrow> write_record option" where
  "write_record_delete key val ty =
     (if ty = DELETE_TUPLE then Some \<lparr>wr_type = ty, wr_key = key, wr_value = val\<rparr> else None)"

section \<open>Lockable data\<close>

datatype lock_data_type = TABLE | PARTITION | ROW

datatype lock_mode = SHARED | EXLUCSIVE | INTENTION_SHARED | INTENTION_EXCLUSIVE | S_IX

record lock_data_id =
  ld_oid :: "32 word"
  ld_p_id :: "32 word"
  ld_row_id :: "32 word"
  ld_type :: lock_data_type

definition table_id_of :: "32 word \<Rightarrow> lock_data_id" where
  "table_id_of oid = \<lparr>ld_oid = oid, ld_p_id = 0, ld_row_id = 0, ld_type = TABLE\<rparr>"

definition partition_id_of :: "32 word \<Rightarrow> 32 word \<Rightarrow> lock_data_id" where
  "partition_id_of oid p_id = \<lparr>ld_oid = oid, ld_p_id = p_id, ld_row_id = 0, ld_type = PARTITION\<rparr>"

definition row_id_of :: "32 word \<Rightarrow> 32 word \<Rightarrow> 32 word \<Rightarrow> lock_data_id" where
  "row_id_of oid p_id row_id = \<lparr>ld_oid = oid, ld_p_id = p_id, ld_row_id = row_id, ld_type = ROW\<rparr>"

fun lock_data_type_code :: "lock_data_type \<Rightarrow> 64 word" where
  "lock_data_type_code TABLE = 0"
| "lock_data_type_code PARTITION = 1"
| "lock_data_type_code ROW = 2"

unbundle bit_operations_syntax

text \<open>\<open>Get\<close>: the casts of the signed identifiers to \<open>size_t\<close> extend the sign.\<close>

definition lock_data_get :: "lock_data_id \<Rightarrow> 64 word" where
  "lock_data_get l =
     push_bit 62 (lock_data_type_code (ld_type l)) OR push_bit 47 (scast (ld_oid l)) OR
     push_bit 32 (scast (ld_p_id l)) OR scast (ld_row_id l)"

section \<open>Lock modes\<close>

definition conflicts :: "lock_mode \<Rightarrow> lock_mode set" where
  "conflicts m =
     (case m of
        INTENTION_SHARED \<Rightarrow> {EXLUCSIVE}
      | INTENTION_EXCLUSIVE \<Rightarrow> {SHARED, S_IX, EXLUCSIVE}
      | SHARED \<Rightarrow> {INTENTION_EXCLUSIVE, S_IX, EXLUCSIVE}
      | S_IX \<Rightarrow> {INTENTION_EXCLUSIVE, SHARED, S_IX, EXLUCSIVE}
      | EXLUCSIVE \<Rightarrow> {INTENTION_SHARED, INTENTION_EXCLUSIVE, SHARED, S_IX, EXLUCSIVE})"

text \<open>A mode is stronger when it conflicts with more.\<close>

instantiation lock_mode :: order
begin

definition less_eq_lock_mode :: "lock_mode \<Rightarrow> lock_mode \<Rightarrow> bool" where
  "less_eq_lock_mode a b \<longleftrightarrow> conflicts a \<subseteq> conflicts b"

definition less_lock_mode :: "lock_mode \<Rightarrow> lock_mode \<Rightarrow> bool" where
  "less_lock_mode a b \<longleftrightarrow> conflicts a \<subset> conflicts b"

instance
proof
  fix a b c :: lock_mode
  show "a < b \<longleftrightarrow> a \<le> b \<and> \<not> b \<le> a" by (auto simp: less_eq_lock_mode_def less_lock_mode_def)
  show "a \<le> a" by (simp add: less_eq_lock_mode_def)
  show "a \<le> b \<Longrightarrow> b \<le> c \<Longrightarrow> a \<le> c" by (auto simp: less_eq_lock_mode_def)
  show "a \<le> b \<Longrightarrow> b \<le> a \<Longrightarrow> a = b"
    unfolding less_eq_lock_mode_def conflicts_def by (cases a; cases b; simp; blast)
qed

end

section \<open>Transactions\<close>

datatype txn_state = DEFAULT | GROWING | SHRINKING | COMMITTED | ABORTED | PREPARED

datatype isolation_level = READ_UNCOMMITTED | REPEATABLE_READ | READ_COMMITTED | SERIALIZABLE

record ip_port =
  ip_addr :: string
  ip_port_no :: "32 word"

type_synonym txn_id = "64 word"
type_synonym lsn = "32 word"

record lock_sets =
  table_S_lock_set :: "lock_data_id set"
  table_X_lock_set :: "lock_data_id set"
  table_IS_lock_set :: "lock_data_id set"
  table_IX_lock_set :: "lock_data_id set"
  table_SIX_lock_set :: "lock_data_id set"
  partition_S_lock_set :: "lock_data_id set"
  partition_X_lock_set :: "lock_data_id set"
  partition_IS_lock_set :: "lock_data_id set"
  partition_IX_lock_set :: "lock_data_id set"
  partition_SIX_lock_set :: "lock_data_id set"
  row_S_lock_set :: "lock_data_id set"
  row_X_lock_set :: "lock_data_id set"

record transaction =
  tx_id :: txn_id
  tx_state :: txn_state
  tx_isolation :: isolation_level
  tx_prev_lsn :: lsn
  tx_write_set :: "write_record list"
  tx_is_distributed :: bool
  tx_nodes :: "ip_port list"
  tx_locks :: lock_sets

definition invalid_lsn :: lsn where
  "invalid_lsn = -1"

definition transaction_new :: "txn_id \<Rightarrow> isolation_level \<Rightarrow> transaction" where
  "transaction_new i lvl = \<lparr>tx_id = i, tx_state = DEFAULT, tx_isolation = lvl, tx_prev_lsn = invalid_lsn,
     tx_write_set = [], tx_is_distributed = False, tx_nodes = [],
     tx_locks = \<lparr>table_S_lock_set = {}, table_X_lock_set = {}, table_IS_lock_set = {}, table_IX_lock_set = {},
       table_SIX_lock_set = {}, partition_S_lock_set = {}, partition_X_lock_set = {},
       partition_IS_lock_set = {}, partition_IX_lock_set = {}, partition_SIX_lock_set = {},
       row_S_lock_set = {}, row_X_lock_set = {}\<rparr>\<rparr>"

fun locks_update :: "lock_data_type \<Rightarrow> lock_mode \<Rightarrow> (lock_data_id set \<Rightarrow> lock_data_id set) \<Rightarrow> lock_sets \<Rightarrow> lock_sets" where
  "locks_update TABLE SHARED f = table_S_lock_set_update f"
| "locks_update TABLE EXLUCSIVE f = table_X_lock_set_update f"
| "locks_update TABLE INTENTION_SHARED f = table_IS_lock_set_update f"
| "locks_update TABLE INTENTION_EXCLUSIVE f = table_IX_lock_set_update f"
| "locks_update TABLE S_IX f = table_SIX_lock_set_update f"
| "locks_update PARTITION SHARED f = partition_S_lock_set_update f"
| "locks_update PARTITION EXLUCSIVE f = partition_X_lock_set_update f"
| "locks_update PARTITION INTENTION_SHARED f = partition_IS_lock_set_update f"
| "locks_update PARTITION INTENTION_EXCLUSIVE f = partition_IX_lock_set_update f"
| "locks_update PARTITION S_IX f = partition_SIX_lock_set_update f"
| "locks_update ROW SHARED f = row_S_lock_set_update f"
| "locks_update ROW EXLUCSIVE f = row_X_lock_set_update f"
| "locks_update ROW _ f = id"

definition add_lock_set :: "lock_mode \<Rightarrow> lock_data_id \<Rightarrow> transaction \<Rightarrow> transaction" where
  "add_lock_set m l txn = txn\<lparr>tx_locks := locks_update (ld_type l) m (insert l) (tx_locks txn)\<rparr>"

text \<open>\<open>get_lock_set\<close>: null for an intention mode on a row.\<close>

fun locks_of :: "lock_data_type \<Rightarrow> lock_mode \<Rightarrow> lock_sets \<Rightarrow> lock_data_id set option" where
  "locks_of TABLE SHARED ls = Some (table_S_lock_set ls)"
| "locks_of TABLE EXLUCSIVE ls = Some (table_X_lock_set ls)"
| "locks_of TABLE INTENTION_SHARED ls = Some (table_IS_lock_set ls)"
| "locks_of TABLE INTENTION_EXCLUSIVE ls = Some (table_IX_lock_set ls)"
| "locks_of TABLE S_IX ls = Some (table_SIX_lock_set ls)"
| "locks_of PARTITION SHARED ls = Some (partition_S_lock_set ls)"
| "locks_of PARTITION EXLUCSIVE ls = Some (partition_X_lock_set ls)"
| "locks_of PARTITION INTENTION_SHARED ls = Some (partition_IS_lock_set ls)"
| "locks_of PARTITION INTENTION_EXCLUSIVE ls = Some (partition_IX_lock_set ls)"
| "locks_of PARTITION S_IX ls = Some (partition_SIX_lock_set ls)"
| "locks_of ROW SHARED ls = Some (row_S_lock_set ls)"
| "locks_of ROW EXLUCSIVE ls = Some (row_X_lock_set ls)"
| "locks_of ROW _ ls = None"

definition get_lock_set :: "lock_data_type \<Rightarrow> lock_mode \<Rightarrow> transaction \<Rightarrow> lock_data_id set option" where
  "get_lock_set ty m txn = locks_of ty m (tx_locks txn)"

text \<open>\<open>get_lock_set(type, mode)->erase(l)\<close>.\<close>

definition erase_lock :: "lock_mode \<Rightarrow> lock_data_id \<Rightarrow> transaction \<Rightarrow> transaction" where
  "erase_lock m l txn = txn\<lparr>tx_locks := locks_update (ld_type l) m (\<lambda>s. s - {l}) (tx_locks txn)\<rparr>"

definition holds :: "transaction \<Rightarrow> lock_mode \<Rightarrow> lock_data_id \<Rightarrow> bool" where
  "holds txn m l \<longleftrightarrow> (\<exists>s. get_lock_set (ld_type l) m txn = Some s \<and> l \<in> s)"

definition lockable :: "lock_data_type \<Rightarrow> lock_mode \<Rightarrow> bool" where
  "lockable ty m \<longleftrightarrow> ty \<noteq> ROW \<or> m = SHARED \<or> m = EXLUCSIVE"

lemma locks_of_update:
  "locks_of ty m (locks_update ty' m' f ls) =
     (if ty' = ty \<and> m' = m then map_option f (locks_of ty m ls) else locks_of ty m ls)"
  by (cases ty; cases m; cases ty'; cases m'; simp)

lemma locks_of_Some: "lockable ty m \<Longrightarrow> \<exists>s. locks_of ty m ls = Some s"
  by (cases ty; cases m; simp add: lockable_def)

lemma holds_add:
  "lockable (ld_type l) m \<Longrightarrow> holds (add_lock_set m l txn) m' l' \<longleftrightarrow> holds txn m' l' \<or> m' = m \<and> l' = l"
  using locks_of_Some [of "ld_type l" m "tx_locks txn"]
  by (auto simp: holds_def add_lock_set_def get_lock_set_def locks_of_update split: if_splits)

lemma holds_erase:
  "holds (erase_lock m l txn) m' l' \<longleftrightarrow> holds txn m' l' \<and> \<not> (m' = m \<and> l' = l)"
  by (auto simp: holds_def erase_lock_def get_lock_set_def locks_of_update split: if_splits)

lemma lock_update_fields [simp]:
  "tx_id (add_lock_set m l txn) = tx_id txn" "tx_state (add_lock_set m l txn) = tx_state txn"
  "tx_id (erase_lock m l txn) = tx_id txn" "tx_state (erase_lock m l txn) = tx_state txn"
  by (simp_all add: add_lock_set_def erase_lock_def)

lemma holds_state [simp]: "holds (txn\<lparr>tx_state := st\<rparr>) m l = holds txn m l"
  by (simp add: holds_def get_lock_set_def)

lemma holds_new [simp]: "\<not> holds (transaction_new i lvl) m l"
  by (cases "ld_type l"; cases m; simp add: holds_def get_lock_set_def transaction_new_def)

section \<open>Reasons of an abort\<close>

text \<open>What \<open>TransactionAbortException\<close> carries. The lock manager catches every such exception itself, prints the text
  and returns false.\<close>

datatype abort_reason =
    LOCK_ON_SHRINKING | UPGRADE_CONFLICT | LOCK_SHARED_ON_READ_UNCOMMITTED | TABLE_LOCK_NOT_PRESENT
  | PARTITION_LOCK_NOT_PRESENT | ATTEMPTED_INTENTION_LOCK_ON_ROW | TABLE_UNLOCKED_BEFORE_UNLOCKING_ROWS
  | INCOMPATIBLE_UPGRADE | ATTEMPTED_UNLOCK_BUT_NO_LOCK_HELD | DEAD_LOCK_PREVENT_NO_WAIT

fun reason_text :: "abort_reason \<Rightarrow> string" where
  "reason_text LOCK_ON_SHRINKING = '' aborted because it can not take locks in the shrinking state''"
| "reason_text UPGRADE_CONFLICT = '' aborted because another transaction is already waiting to upgrade its lock''"
| "reason_text LOCK_SHARED_ON_READ_UNCOMMITTED = '' aborted on lockshared on READ_UNCOMMITTED''"
| "reason_text TABLE_LOCK_NOT_PRESENT = '' aborted because table lock not present''"
| "reason_text PARTITION_LOCK_NOT_PRESENT = '' aborted because table lock not present''"
| "reason_text ATTEMPTED_INTENTION_LOCK_ON_ROW = '' aborted because intention lock attempted on row''"
| "reason_text TABLE_UNLOCKED_BEFORE_UNLOCKING_ROWS = '' aborted because table locks dropped before dropping row locks''"
| "reason_text INCOMPATIBLE_UPGRADE = '' aborted because attempted lock upgrade is incompatible''"
| "reason_text ATTEMPTED_UNLOCK_BUT_NO_LOCK_HELD = '' aborted because attempted to unlock but no lock held ''"
| "reason_text DEAD_LOCK_PREVENT_NO_WAIT = '' aborted because attempted to lock but need to wait(deadlock prevent) ''"

definition abort_info :: "txn_id \<Rightarrow> abort_reason \<Rightarrow> string" where
  "abort_info i r = ''Transaction '' @ dec_string (unat i) @ reason_text r"

text \<open>The text tells the reason, but for a missing partition lock, which is reported as a missing table lock.\<close>

lemma abort_info_tells_reason:
  "abort_info i r = abort_info i q \<longleftrightarrow> r = q \<or> {r, q} = {TABLE_LOCK_NOT_PRESENT, PARTITION_LOCK_NOT_PRESENT}"
  by (cases r; cases q) (auto simp: abort_info_def)

end
