(* ===== verification/LogRecord.thy ===== *)
theory LogRecord
  imports Txn
begin

text \<open>
  Log records (\<open>include/recovery/log_record.h\<close>): the record object, its two constructors, the bytes
  that \<open>LogManager::AppendLogRecord\<close> copies into the log buffer, and \<open>LogRecord::DeserializeFrom\<close>.

  The object starts with the five fields of the 24-byte header in the order of the comment, so the
  \<open>memcpy\<close> of \<open>HEADER_SIZE\<close> bytes from the object is their little-endian image. A \<open>const char*\<close>
  member is the bytes of the object it points to. The argument \<open>ndebug\<close> tells whether the build
  defines \<open>NDEBUG\<close> (the default build type, Release, does): if not, a failed \<open>assert\<close> is \<open>None\<close>.
\<close>

datatype log_record_type =
  INVALID_REC | CREATE_TABLE | DROP_TABLE | INSERT_REC | DELETE_REC | BEGIN_REC | COMMIT_REC | ABORT_REC | PREPARED_REC

fun log_type_code :: "log_record_type \<Rightarrow> nat" where
  "log_type_code INVALID_REC = 0"
| "log_type_code CREATE_TABLE = 1"
| "log_type_code DROP_TABLE = 2"
| "log_type_code INSERT_REC = 3"
| "log_type_code DELETE_REC = 4"
| "log_type_code BEGIN_REC = 5"
| "log_type_code COMMIT_REC = 6"
| "log_type_code ABORT_REC = 7"
| "log_type_code PREPARED_REC = 8"

record log_record =
  rec_size :: "32 word"
  rec_lsn :: lsn
  rec_txn :: txn_id
  rec_prev :: lsn
  rec_type :: log_record_type
  rec_key_size :: "32 word"
  rec_key :: bytes
  rec_value_size :: "32 word"
  rec_value :: bytes

abbreviation header_size :: nat where "header_size \<equiv> 24"

text \<open>The default constructor; the sizes and pointers of the payload are not initialised there and
  not read for a record without payload.\<close>

definition record_default :: log_record where
  "record_default = \<lparr>rec_size = 0, rec_lsn = invalid_lsn, rec_txn = 0, rec_prev = invalid_lsn, rec_type = INVALID_REC,
     rec_key_size = 0, rec_key = [], rec_value_size = 0, rec_value = []\<rparr>"

definition record_control :: "bool \<Rightarrow> txn_id \<Rightarrow> lsn \<Rightarrow> log_record_type \<Rightarrow> log_record option" where
  "record_control ndebug txn prev ty =
     (if \<not> ndebug \<and> ty \<notin> {BEGIN_REC, COMMIT_REC, ABORT_REC, PREPARED_REC} then None
      else Some (record_default\<lparr>rec_size := of_nat header_size, rec_txn := txn, rec_prev := prev, rec_type := ty\<rparr>))"

text \<open>The sizes are given as \<open>uint32_t\<close>; the sum is a \<open>size_t\<close>, cut to \<open>int32_t\<close>.\<close>

definition record_data :: "txn_id \<Rightarrow> lsn \<Rightarrow> log_record_type \<Rightarrow> 32 word \<Rightarrow> bytes \<Rightarrow> 32 word \<Rightarrow> bytes \<Rightarrow> log_record" where
  "record_data txn prev ty key_size key value_size val =
     \<lparr>rec_size = of_nat (header_size + 4 + unat key_size + 4 + unat value_size), rec_lsn = invalid_lsn, rec_txn = txn,
      rec_prev = prev, rec_type = ty, rec_key_size = key_size, rec_key = key, rec_value_size = value_size, rec_value = val\<rparr>"

text \<open>The calls \<open>LogRecord(.., key.size(), key.c_str(), value.size(), value.c_str())\<close>.\<close>

definition record_of_kv :: "txn_id \<Rightarrow> lsn \<Rightarrow> log_record_type \<Rightarrow> bytes \<Rightarrow> bytes \<Rightarrow> log_record" where
  "record_of_kv txn prev ty key val =
     record_data txn prev ty (of_nat (length key)) key (of_nat (length val)) val"

definition has_payload :: "log_record \<Rightarrow> bool" where
  "has_payload r \<longleftrightarrow> rec_type r = INSERT_REC \<or> rec_type r = DELETE_REC"

section \<open>Serialisation\<close>

definition header_image :: "log_record \<Rightarrow> bytes" where
  "header_image r = le_bytes 4 (unat (rec_size r)) @ le_bytes 4 (unat (rec_lsn r)) @ le_bytes 8 (unat (rec_txn r)) @
     le_bytes 4 (unat (rec_prev r)) @ le_bytes 4 (log_type_code (rec_type r))"

text \<open>A size and that many bytes of the object, which must have them.\<close>

definition sized_image :: "32 word \<Rightarrow> bytes \<Rightarrow> bytes option" where
  "sized_image n s = (if unat n \<le> length s then Some (le_bytes 4 (unat n) @ take (unat n) s) else None)"

definition record_image :: "log_record \<Rightarrow> bytes option" where
  "record_image r =
     (if has_payload r then do {
        k \<leftarrow> sized_image (rec_key_size r) (rec_key r);
        v \<leftarrow> sized_image (rec_value_size r) (rec_value r);
        Some (header_image r @ k @ v) }
      else Some (header_image r))"

section \<open>Deserialisation\<close>

definition read_u32 :: "bytes \<Rightarrow> nat \<Rightarrow> 32 word option" where
  "read_u32 buf off = map_option of_nat (read_le buf off 4)"

definition read_chars :: "bytes \<Rightarrow> nat \<Rightarrow> nat \<Rightarrow> bytes option" where
  "read_chars buf off n = (if off + n \<le> length buf then Some (take n (drop off buf)) else None)"

text \<open>The \<open>switch\<close>: the record and the position that \<open>storage\<close> points to behind it.\<close>

definition deserialize_payload :: "bytes \<Rightarrow> nat \<Rightarrow> txn_id \<Rightarrow> lsn \<Rightarrow> log_record_type \<Rightarrow> (log_record \<times> nat) option" where
  "deserialize_payload buf off txn prev ty = do {
     ks \<leftarrow> read_u32 buf off;
     key \<leftarrow> read_chars buf (off + 4) (unat ks);
     vs \<leftarrow> read_u32 buf (off + 4 + unat ks);
     val \<leftarrow> read_chars buf (off + 8 + unat ks) (unat vs);
     Some (record_data txn prev ty ks key vs val, off + 8 + unat ks + unat vs) }"

definition deserialize_switch :: "bool \<Rightarrow> bytes \<Rightarrow> nat \<Rightarrow> txn_id \<Rightarrow> lsn \<Rightarrow> nat \<Rightarrow> (log_record \<times> nat) option" where
  "deserialize_switch ndebug buf off txn prev ty =
     (if ty = log_type_code COMMIT_REC then map_option (\<lambda>r. (r, off)) (record_control ndebug txn prev COMMIT_REC)
      else if ty = log_type_code ABORT_REC then map_option (\<lambda>r. (r, off)) (record_control ndebug txn prev ABORT_REC)
      else if ty = log_type_code BEGIN_REC then map_option (\<lambda>r. (r, off)) (record_control ndebug txn prev BEGIN_REC)
      else if ty = log_type_code INSERT_REC then deserialize_payload buf off txn prev INSERT_REC
      else if ty = log_type_code DELETE_REC then deserialize_payload buf off txn prev DELETE_REC
      else Some (record_default, off))"

text \<open>\<open>deserialize ndebug buf off\<close> is \<open>DeserializeFrom(buf + off)\<close> for a buffer object \<open>buf\<close>.
  The last assertion reads four bytes behind the record.\<close>

definition deserialize :: "bool \<Rightarrow> bytes \<Rightarrow> nat \<Rightarrow> log_record option" where
  "deserialize ndebug buf off = do {
     lsn \<leftarrow> read_u32 buf (off + 4);
     txn \<leftarrow> map_option of_nat (read_le buf (off + 8) 8);
     prev \<leftarrow> read_u32 buf (off + 16);
     ty \<leftarrow> read_le buf (off + 20) 4;
     (if \<not> ndebug \<and> ty = 0 then None else do {
        (res, end) \<leftarrow> deserialize_switch ndebug buf (off + 24) txn prev ty;
        let r = res\<lparr>rec_lsn := lsn\<rparr>;
        (if ndebug then Some r else do {
           n \<leftarrow> read_u32 buf end;
           (if n = rec_size r then Some r else None) }) }) }"

section \<open>Round trip\<close>

text \<open>The records that the two constructors make: a control record without payload, or a key and a value that
  fit into an \<open>int32_t\<close> size. The \<open>switch\<close> of \<open>DeserializeFrom\<close> has no case for \<open>PREPARED\<close>, so such a record is
  written but not read back (\<open>comes_back\<close>).\<close>

definition record_ok :: "log_record \<Rightarrow> bool" where
  "record_ok r \<longleftrightarrow>
     (if has_payload r
      then header_size + 8 + length (rec_key r) + length (rec_value r) < 2 ^ 31 \<and>
        rec_size r = of_nat (header_size + 8 + length (rec_key r) + length (rec_value r)) \<and>
        rec_key_size r = of_nat (length (rec_key r)) \<and> rec_value_size r = of_nat (length (rec_value r))
      else rec_type r \<in> {BEGIN_REC, COMMIT_REC, ABORT_REC, PREPARED_REC} \<and> rec_size r = of_nat header_size \<and>
        rec_key_size r = 0 \<and> rec_key r = [] \<and> rec_value_size r = 0 \<and> rec_value r = [])"

definition comes_back :: "log_record \<Rightarrow> bool" where
  "comes_back r \<longleftrightarrow> record_ok r \<and> rec_type r \<noteq> PREPARED_REC"

lemma record_ok_lsn [simp]:
  "record_ok (r\<lparr>rec_lsn := l\<rparr>) \<longleftrightarrow> record_ok r" "comes_back (r\<lparr>rec_lsn := l\<rparr>) \<longleftrightarrow> comes_back r"
  by (simp_all add: record_ok_def comes_back_def has_payload_def)

lemma comes_back_ok: "comes_back r \<Longrightarrow> record_ok r"
  by (simp add: comes_back_def)

lemma unat_small: "n < 2 ^ 32 \<Longrightarrow> unat (of_nat n :: 32 word) = n"
  by (simp add: unat_of_nat take_bit_nat_eq_self)

lemma record_of_kv_ok:
  assumes "ty = INSERT_REC \<or> ty = DELETE_REC" and "32 + length key + length val < 2 ^ 31"
  shows "record_ok (record_of_kv txn prev ty key val)"
proof -
  have "unat (of_nat (length key) :: 32 word) = length key" "unat (of_nat (length val) :: 32 word) = length val"
    using assms(2) by (intro unat_small; simp)+
  with assms show ?thesis by (auto simp: record_ok_def record_of_kv_def record_data_def has_payload_def)
qed

lemma record_control_ok:
  assumes "ty \<in> {BEGIN_REC, COMMIT_REC, ABORT_REC, PREPARED_REC}"
  shows "\<exists>r. record_control ndebug txn prev ty = Some r \<and> record_ok r \<and> rec_type r = ty \<and> rec_txn r = txn \<and> rec_prev r = prev"
  using assms by (auto simp: record_control_def record_ok_def record_default_def has_payload_def)

lemma length_header_image [simp, codec_simps]: "length (header_image r) = 24"
  by (simp add: header_image_def)

lemma word_image:
  "of_nat (le_value (le_bytes 4 (unat w))) = (w :: 32 word)" "of_nat (le_value (le_bytes 8 (unat x))) = (x :: 64 word)"
proof -
  have "unat w < 2 ^ 32" "unat x < 2 ^ 64" using unsigned_less [of w] unsigned_less [of x] by simp_all
  then show "of_nat (le_value (le_bytes 4 (unat w))) = w" "of_nat (le_value (le_bytes 8 (unat x))) = x"
    by (simp_all add: le_value_le_bytes)
qed

lemma read_u32_append: "length pre = off \<Longrightarrow> read_u32 (pre @ le_bytes 4 (unat w) @ post) off = Some w"
  by (simp add: read_u32_def read_le_append word_image)

lemma read_chars_append: "length pre = off \<Longrightarrow> length s = n \<Longrightarrow> read_chars (pre @ s @ post) off n = Some s"
  by (auto simp: read_chars_def)

lemma header_reads:
  fixes pre post :: bytes and r :: log_record
  defines "buf \<equiv> pre @ header_image r @ post"
  shows "read_u32 buf (length pre) = Some (rec_size r)" "read_u32 buf (length pre + 4) = Some (rec_lsn r)"
    "map_option of_nat (read_le buf (length pre + 8) 8) = Some (rec_txn r)"
    "read_u32 buf (length pre + 16) = Some (rec_prev r)"
    "read_le buf (length pre + 20) 4 = Some (log_type_code (rec_type r))"
proof -
  let ?s = "le_bytes 4 (unat (rec_size r))" and ?l = "le_bytes 4 (unat (rec_lsn r))" and ?t = "le_bytes 8 (unat (rec_txn r))"
    and ?p = "le_bytes 4 (unat (rec_prev r))" and ?c = "le_bytes 4 (log_type_code (rec_type r))"
  show "read_u32 buf (length pre) = Some (rec_size r)"
    using read_u32_append [of pre "length pre" "rec_size r" "?l @ ?t @ ?p @ ?c @ post"]
    by (simp add: buf_def header_image_def)
  show "read_u32 buf (length pre + 4) = Some (rec_lsn r)"
    using read_u32_append [of "pre @ ?s" "length pre + 4" "rec_lsn r" "?t @ ?p @ ?c @ post"]
    by (simp add: buf_def header_image_def)
  show "map_option of_nat (read_le buf (length pre + 8) 8) = Some (rec_txn r)"
    using read_le_append [of "pre @ ?s @ ?l" "length pre + 8" ?t 8 "?p @ ?c @ post"]
    by (simp add: buf_def header_image_def word_image)
  show "read_u32 buf (length pre + 16) = Some (rec_prev r)"
    using read_u32_append [of "pre @ ?s @ ?l @ ?t" "length pre + 16" "rec_prev r" "?c @ post"]
    by (simp add: buf_def header_image_def)
  have "le_value ?c = log_type_code (rec_type r)" by (cases "rec_type r") (simp_all add: le_value_le_bytes)
  then show "read_le buf (length pre + 20) 4 = Some (log_type_code (rec_type r))"
    using read_le_append [of "pre @ ?s @ ?l @ ?t @ ?p" "length pre + 20" ?c 4 post]
    by (simp add: buf_def header_image_def)
qed

lemma payload_image:
  assumes "record_ok r" and "has_payload r"
  shows "record_image r = Some (header_image r @ (le_bytes 4 (unat (rec_key_size r)) @ rec_key r) @
      le_bytes 4 (unat (rec_value_size r)) @ rec_value r)"
    "unat (rec_key_size r) = length (rec_key r)" "unat (rec_value_size r) = length (rec_value r)"
    "unat (rec_size r) = 32 + length (rec_key r) + length (rec_value r)"
proof -
  have b: "header_size + 8 + length (rec_key r) + length (rec_value r) < 2 ^ 31" using assms by (simp add: record_ok_def)
  show k: "unat (rec_key_size r) = length (rec_key r)" and v: "unat (rec_value_size r) = length (rec_value r)"
    and "unat (rec_size r) = 32 + length (rec_key r) + length (rec_value r)"
    using assms b unat_small [of "length (rec_key r)"] unat_small [of "length (rec_value r)"]
      unat_small [of "header_size + 8 + length (rec_key r) + length (rec_value r)"]
    by (simp_all add: record_ok_def)
  show "record_image r = Some (header_image r @ (le_bytes 4 (unat (rec_key_size r)) @ rec_key r) @
      le_bytes 4 (unat (rec_value_size r)) @ rec_value r)"
    using assms(2) by (simp add: record_image_def sized_image_def k v)
qed

lemma record_image_ok:
  assumes "record_ok r"
  shows "\<exists>img. record_image r = Some img \<and> length img = unat (rec_size r) \<and> unat (rec_size r) < 2 ^ 31"
proof (cases "has_payload r")
  case True
  with assms have "header_size + 8 + length (rec_key r) + length (rec_value r) < 2 ^ 31" by (simp add: record_ok_def)
  with payload_image [OF assms True] show ?thesis by simp
next
  case False
  with assms show ?thesis by (simp add: record_image_def record_ok_def)
qed

lemma behind_record: "read_u32 (pre @ img @ post) (length pre + length img) = read_u32 post 0"
  by (simp add: read_u32_def read_le_def)

lemma deserialize_payload_image:
  assumes ok: "record_ok r" and pl: "has_payload r" and img: "record_image r = Some img"
  shows "deserialize_payload (pre @ img @ post) (length pre + 24) (rec_txn r) (rec_prev r) (rec_type r) =
    Some (r\<lparr>rec_lsn := invalid_lsn\<rparr>, length pre + length img)"
proof -
  note i = payload_image [OF ok pl]
  let ?ks = "le_bytes 4 (unat (rec_key_size r))" and ?vs = "le_bytes 4 (unat (rec_value_size r))"
  let ?k = "rec_key r" and ?v = "rec_value r" and ?h = "header_image r"
  have img: "img = ?h @ (?ks @ ?k) @ ?vs @ ?v" using img i(1) by simp
  let ?buf = "pre @ img @ post"
  have p: "read_u32 ?buf (length pre + 24) = Some (rec_key_size r)"
    "read_chars ?buf (length pre + 24 + 4) (length ?k) = Some ?k"
    "read_u32 ?buf (length pre + 24 + 4 + length ?k) = Some (rec_value_size r)"
    "read_chars ?buf (length pre + 24 + 8 + length ?k) (length ?v) = Some ?v"
    using read_u32_append [of "pre @ ?h" "length pre + 24" "rec_key_size r" "?k @ ?vs @ ?v @ post"]
      read_chars_append [of "pre @ ?h @ ?ks" "length pre + 24 + 4" ?k "length ?k" "?vs @ ?v @ post"]
      read_u32_append [of "pre @ ?h @ ?ks @ ?k" "length pre + 24 + 4 + length ?k" "rec_value_size r" "?v @ post"]
      read_chars_append [of "pre @ ?h @ ?ks @ ?k @ ?vs" "length pre + 24 + 8 + length ?k" ?v "length ?v" post]
    by (simp_all add: img)
  have r: "record_data (rec_txn r) (rec_prev r) (rec_type r) (rec_key_size r) ?k (rec_value_size r) ?v = r\<lparr>rec_lsn := invalid_lsn\<rparr>"
    using ok pl i(2,3) by (simp add: record_ok_def record_data_def)
  show ?thesis
    unfolding deserialize_payload_def p i(2,3) Option.bind.bind_lunit r by (simp add: img)
qed

lemma deserialize_switch_image:
  assumes cb: "comes_back r" and img: "record_image r = Some img"
  shows "deserialize_switch ndebug (pre @ img @ post) (length pre + 24) (rec_txn r) (rec_prev r) (log_type_code (rec_type r)) =
    Some (r\<lparr>rec_lsn := invalid_lsn\<rparr>, length pre + length img)"
proof (cases "has_payload r")
  note ok = comes_back_ok [OF cb]
  case True
  then show ?thesis
    using deserialize_payload_image [OF ok True img] by (auto simp: deserialize_switch_def has_payload_def)
next
  note ok = comes_back_ok [OF cb]
  case False
  then have t: "rec_type r \<in> {BEGIN_REC, COMMIT_REC, ABORT_REC}" and "length img = 24"
    using cb img by (auto simp: comes_back_def record_ok_def record_image_def)
  moreover have "record_default\<lparr>rec_size := of_nat header_size, rec_txn := rec_txn r, rec_prev := rec_prev r,
      rec_type := rec_type r\<rparr> = r\<lparr>rec_lsn := invalid_lsn\<rparr>"
    using ok False by (simp add: record_ok_def record_default_def)
  ultimately show ?thesis
    unfolding deserialize_switch_def record_control_def by auto
qed

lemma image_reads:
  assumes "record_image r = Some img"
  shows "read_u32 (pre @ img @ post) (length pre + 4) = Some (rec_lsn r)"
    "map_option of_nat (read_le (pre @ img @ post) (length pre + 8) 8) = Some (rec_txn r)"
    "read_u32 (pre @ img @ post) (length pre + 16) = Some (rec_prev r)"
    "read_le (pre @ img @ post) (length pre + 20) 4 = Some (log_type_code (rec_type r))"
proof -
  have "\<exists>rest. img = header_image r @ rest"
    using assms by (auto simp: record_image_def split: if_splits Option.bind_splits)
  then obtain rest where i: "img = header_image r @ rest" by blast
  show "read_u32 (pre @ img @ post) (length pre + 4) = Some (rec_lsn r)"
    "map_option of_nat (read_le (pre @ img @ post) (length pre + 8) 8) = Some (rec_txn r)"
    "read_u32 (pre @ img @ post) (length pre + 16) = Some (rec_prev r)"
    "read_le (pre @ img @ post) (length pre + 20) 4 = Some (log_type_code (rec_type r))"
    using header_reads [of pre r "rest @ post"] by (simp_all add: i)
qed

lemma deserialize_image:
  assumes cb: "comes_back r" and img: "record_image r = Some img"
  shows "deserialize ndebug (pre @ img @ post) (length pre) =
    (if ndebug \<or> read_u32 post 0 = Some (rec_size r) then Some r else None)"
proof -
  have "log_type_code (rec_type r) \<noteq> 0"
    using cb by (auto simp: comes_back_def record_ok_def has_payload_def split: if_splits)
  then show ?thesis
    unfolding deserialize_def image_reads [OF img] Option.bind.bind_lunit deserialize_switch_image [OF cb img]
    by (auto simp: behind_record split: Option.bind_split)
qed

text \<open>A \<open>PREPARED\<close> record falls into the default branch: only its LSN comes back.\<close>

lemma deserialize_prepared:
  assumes ty: "rec_type r = PREPARED_REC" and img: "record_image r = Some img"
  shows "deserialize True (pre @ img @ post) (length pre) = Some (record_default\<lparr>rec_lsn := rec_lsn r\<rparr>)"
  unfolding deserialize_def image_reads [OF img] Option.bind.bind_lunit by (simp add: deserialize_switch_def ty)

lemma le_value_zeros: "le_value (replicate n 0) = 0"
  by (induction n) auto

lemma read_u32_zeros: "read_u32 (replicate n 0) 0 = None \<or> read_u32 (replicate n 0) 0 = Some 0"
  by (simp add: read_u32_def read_le_def le_value_zeros)

section \<open>Properties\<close>

text \<open>C19. Every record that the constructors make is as long in the log as its size field says. Without assertions, the
  default build, and wherever in the buffer it is and whatever is around it, DeserializeFrom gives it back, unless
  it is a PREPARED record: of that nothing but the LSN comes back.\<close>

theorem log_record_roundtrip:
  assumes "record_ok r"
  shows "\<exists>img. record_image r = Some img \<and> length img = unat (rec_size r) \<and>
    (\<forall>pre post. deserialize True (pre @ img @ post) (length pre) =
      Some (if rec_type r = PREPARED_REC then record_default\<lparr>rec_lsn := rec_lsn r\<rparr> else r))"
proof -
  obtain img where img: "record_image r = Some img" "length img = unat (rec_size r)" using record_image_ok [OF assms] by blast
  show ?thesis
  proof (cases "rec_type r = PREPARED_REC")
    case True
    then show ?thesis using deserialize_prepared [OF True img(1)] img by simp
  next
    case False
    then have "comes_back r" using assms by (simp add: comes_back_def)
    then show ?thesis using deserialize_image [OF _ img(1)] img False by simp
  qed
qed

theorem log_record_roundtrip_witness:
  "\<exists>img. record_image (record_of_kv 5 3 INSERT_REC [1, 2] [9]) = Some img \<and> length img = 35 \<and>
    deserialize True ([7, 7] @ img @ [8]) 2 = Some (record_of_kv 5 3 INSERT_REC [1, 2] [9])"
proof -
  have "record_ok (record_of_kv 5 3 INSERT_REC [1, 2] [9])" by (rule record_of_kv_ok) simp_all
  from log_record_roundtrip [OF this] obtain img where
    "record_image (record_of_kv 5 3 INSERT_REC [1, 2] [9]) = Some img"
    "length img = unat (rec_size (record_of_kv 5 3 INSERT_REC [1, 2] [9]))"
    "\<And>pre post. deserialize True (pre @ img @ post) (length pre) = Some (record_of_kv 5 3 INSERT_REC [1, 2] [9])"
    by (auto simp: record_of_kv_def record_data_def)
  moreover from this(3) [of "[7, 7]" "[8]"] have "deserialize True ([7, 7] @ img @ [8]) 2 = Some (record_of_kv 5 3 INSERT_REC [1, 2] [9])"
    by (simp add: numeral_2_eq_2)
  moreover have "unat (rec_size (record_of_kv 5 3 INSERT_REC [1, 2] [9])) = 35"
    by (simp add: record_of_kv_def record_data_def)
  ultimately show ?thesis by auto
qed

text \<open>In a build with assertions, DeserializeFrom aborts on the last record of a log, which is followed
  by the zeros that ReadLog pads with: its last assertion compares the size of the record with the four
  bytes behind the record.\<close>

theorem deserialize_assertion_fails:
  assumes "comes_back r" and "record_image r = Some img"
  shows "deserialize False (pre @ img @ replicate n 0) (length pre) = None"
proof -
  have "unat (rec_size r) \<noteq> 0"
    using record_image_ok [OF comes_back_ok [OF assms(1)]] assms(2) length_header_image [of r]
    by (auto simp: record_image_def split: if_splits Option.bind_splits)
  then have "rec_size r \<noteq> 0" by auto
  then show ?thesis using deserialize_image [OF assms, of False pre "replicate n 0"] read_u32_zeros [of n] by auto
qed

theorem deserialize_assertion_fails_witness:
  "\<exists>img. record_image (record_of_kv 5 3 INSERT_REC [1, 2] [9]) = Some img \<and>
    deserialize False (img @ replicate 100 0) 0 = None"
proof -
  have ok: "record_ok (record_of_kv 5 3 INSERT_REC [1, 2] [9])" by (rule record_of_kv_ok) simp_all
  obtain img where img: "record_image (record_of_kv 5 3 INSERT_REC [1, 2] [9]) = Some img"
    using record_image_ok [OF ok] by blast
  have "comes_back (record_of_kv 5 3 INSERT_REC [1, 2] [9])" using ok by (simp add: comes_back_def record_of_kv_def record_data_def)
  from deserialize_assertion_fails [OF this img, of "[]" 100] img show ?thesis by simp
qed

end
