(* ===== verification/LogManager.thy ===== *)
theory LogManager
  imports LogRecord
begin

text \<open>
  The log file (\<open>include/storage/LogStorage.h\<close>) and the log manager (\<open>include/recovery/log_manager.h\<close>,
  \<open>src/recovery/log_manager.cpp\<close>).

  The log file is its bytes; the stream is opened in append mode, so every write goes to the end. I/O
  errors and the file name are left out. The log manager has two buffers, a flush thread and any
  number of threads that append. Everything done under \<open>latch_\<close> is one atomic step; the flush thread's
  write to the file, its store of the persistent LSN and its clearing of the flag are steps of their
  own, because they run without the latch. \<open>wait_for\<close> of the flush thread may return at any time, by
  its timeout, so its step from \<open>FWait\<close> is always enabled. The bytes of a buffer behind its write
  offset are never read, so a buffer is the list of the bytes before it.
\<close>

section \<open>The log file\<close>

text \<open>\<open>GetFileSize\<close> cuts the size to an \<open>int\<close>, \<open>ReadLog\<close> casts it back to \<open>size_t\<close>.\<close>

definition get_file_size :: "bytes \<Rightarrow> 32 word" where
  "get_file_size file = of_nat (length file)"

definition read_log :: "bytes \<Rightarrow> nat \<Rightarrow> nat \<Rightarrow> bytes option" where
  "read_log file n offset =
     (if unat (scast (get_file_size file) :: 64 word) \<le> offset then None
      else let got = take n (drop offset file) in Some (got @ replicate (n - length got) 0))"

definition write_log :: "bytes \<Rightarrow> bytes \<Rightarrow> bytes" where
  "write_log file data = (if data = [] then file else file @ data)"

text \<open>What the clients of the log file rely on: appended bytes can be read back, padded with zeros.\<close>

locale log_store =
  fixes wr :: "bytes \<Rightarrow> bytes \<Rightarrow> bytes" and rd :: "bytes \<Rightarrow> nat \<Rightarrow> nat \<Rightarrow> bytes option"
  assumes write_append: "wr f data = f @ data"
    and read_end: "length f < 2 ^ 31 \<Longrightarrow> length f \<le> offset \<Longrightarrow> rd f n offset = None"
    and read_zero_padded: "length f < 2 ^ 31 \<Longrightarrow> offset < length f \<Longrightarrow>
      rd f n offset = Some (take n (drop offset f @ replicate n 0))"
begin

lemma write_all: "foldl wr f datas = f @ concat datas"
  by (induction datas arbitrary: f) (simp_all add: write_append)

lemma read_back:
  assumes "length (foldl wr [] (as @ bs)) < 2 ^ 31" and "concat bs \<noteq> []"
  shows "rd (foldl wr [] (as @ bs)) n (length (concat as)) = Some (take n (concat bs @ replicate n 0))"
  using assms by (simp add: read_zero_padded write_all)

end

lemma scast_of_nat:
  assumes "n < 2 ^ 31"
  shows "(scast (of_nat n :: 32 word) :: 64 word) = of_nat n"
proof -
  have "signed_take_bit 31 (int n) = int n" using assms by (intro signed_take_bit_int_eq_self) simp_all
  then show ?thesis by (simp add: signed_of_nat)
qed

lemma unat64_small: "n < 2 ^ 64 \<Longrightarrow> unat (of_nat n :: 64 word) = n"
  by (simp add: unat_of_nat take_bit_nat_eq_self)

lemma file_size_small: "length f < 2 ^ 31 \<Longrightarrow> unat (scast (get_file_size f) :: 64 word) = length f"
  by (simp add: get_file_size_def scast_of_nat unat64_small)

interpretation lgs: log_store write_log read_log
proof unfold_locales
  fix f data :: bytes and n offset
  show "write_log f data = f @ data" by (simp add: write_log_def)
  assume f: "length f < 2 ^ 31"
  show "length f \<le> offset \<Longrightarrow> read_log f n offset = None"
    using f by (simp add: read_log_def file_size_small)
  show "offset < length f \<Longrightarrow> read_log f n offset = Some (take n (drop offset f @ replicate n 0))"
    using f by (simp add: read_log_def file_size_small Let_def)
qed

section \<open>The log manager\<close>

definition log_buffer_size :: nat where
  "log_buffer_size = (10 + 1) * 4096"

datatype flush_phase = FCheck | FWait | FWrite lsn | FStore lsn | FClear | FStopped

record log_mgr =
  lg_buf :: bytes
  lg_flush :: bytes
  lg_enable :: bool
  lg_need :: bool
  lg_next :: lsn
  lg_persistent :: lsn
  lg_flush_lsn :: lsn
  lg_thread :: flush_phase
  lg_file :: bytes

definition log_manager_new :: "bytes \<Rightarrow> log_mgr" where
  "log_manager_new file = \<lparr>lg_buf = [], lg_flush = [], lg_enable = True, lg_need = False, lg_next = 0,
     lg_persistent = invalid_lsn, lg_flush_lsn = invalid_lsn, lg_thread = FCheck, lg_file = file\<rparr>"

definition set_next_lsn :: "lsn \<Rightarrow> log_mgr \<Rightarrow> log_mgr" where
  "set_next_lsn n s = s\<lparr>lg_next := n\<rparr>"

subsection \<open>Appending\<close>

text \<open>\<open>log_buffer_write_offset_ + log_record.GetSize() < LOG_BUFFER_SIZE\<close>: the \<open>int32_t\<close> size is
  converted to \<open>size_t\<close>.\<close>

definition fits :: "log_record \<Rightarrow> log_mgr \<Rightarrow> bool" where
  "fits r s \<longleftrightarrow> (of_nat (length (lg_buf s)) + scast (rec_size r) :: 64 word) < of_nat log_buffer_size"

text \<open>The rest of \<open>AppendLogRecord\<close>; \<open>None\<close> if a \<open>memcpy\<close> leaves the buffer or reads outside the payload.\<close>

definition append_write :: "log_record \<Rightarrow> log_mgr \<Rightarrow> (log_mgr \<times> lsn option) option" where
  "append_write r s = do {
     img \<leftarrow> record_image (r\<lparr>rec_lsn := lg_next s\<rparr>);
     (if length (lg_buf s) + length img \<le> log_buffer_size
      then Some (s\<lparr>lg_buf := lg_buf s @ img, lg_next := lg_next s + 1\<rparr>, Some (lg_next s)) else None) }"

text \<open>The call up to its return, with the LSN, or up to its sleep in \<open>operation_cv_.wait\<close>; and what it
  does when it is woken up.\<close>

definition append_record :: "log_record \<Rightarrow> log_mgr \<Rightarrow> (log_mgr \<times> lsn option) option" where
  "append_record r s = (if fits r s then append_write r s else Some (s\<lparr>lg_need := True\<rparr>, None))"

definition append_wake :: "log_record \<Rightarrow> log_mgr \<Rightarrow> (log_mgr \<times> lsn option) option" where
  "append_wake r s = (if fits r s then append_write r s else Some (s, None))"

subsection \<open>The flush thread\<close>

definition swap_buffer :: "log_mgr \<Rightarrow> log_mgr" where
  "swap_buffer s = s\<lparr>lg_flush := lg_buf s, lg_buf := []\<rparr>"

definition flush_thread_step :: "log_mgr \<Rightarrow> log_mgr" where
  "flush_thread_step s =
     (case lg_thread s of
        FCheck \<Rightarrow> s\<lparr>lg_thread := if lg_enable s then FWait else FStopped\<rparr>
      | FWait \<Rightarrow>
          (if 0 < length (lg_buf s)
           then (swap_buffer s)\<lparr>lg_flush_lsn := lg_next s - 1, lg_thread := FWrite (lg_next s - 1)\<rparr>
           else s\<lparr>lg_thread := FCheck\<rparr>)
      | FWrite l \<Rightarrow> s\<lparr>lg_file := write_log (lg_file s) (lg_flush s), lg_thread := FStore l\<rparr>
      | FStore l \<Rightarrow> s\<lparr>lg_persistent := l, lg_thread := FClear\<rparr>
      | FClear \<Rightarrow> s\<lparr>lg_need := False, lg_thread := FCheck\<rparr>
      | FStopped \<Rightarrow> s)"

text \<open>\<open>Flush(lsn, force)\<close>: what it does before it spins, and when the spinning ends.\<close>

definition flush_begin :: "bool \<Rightarrow> log_mgr \<Rightarrow> log_mgr" where
  "flush_begin force s = (if force then s\<lparr>lg_need := True\<rparr> else s)"

definition flush_done :: "lsn \<Rightarrow> log_mgr \<Rightarrow> bool" where
  "flush_done l s \<longleftrightarrow> \<not> sint (lg_persistent s) < sint l"

text \<open>\<open>StopFlushThread\<close> clears the flag, and returns when the thread has ended.\<close>

definition stop_begin :: "log_mgr \<Rightarrow> log_mgr" where
  "stop_begin s = s\<lparr>lg_enable := False\<rparr>"

section \<open>Runs\<close>

text \<open>A step, labelled with the record that it puts into the log, if any.\<close>

inductive log_step :: "log_mgr \<Rightarrow> log_record list \<Rightarrow> log_mgr \<Rightarrow> bool" where
  appended: "record_ok r \<Longrightarrow> append_record r s = Some (s', Some l) \<Longrightarrow> log_step s [r\<lparr>rec_lsn := l\<rparr>] s'"
| full: "record_ok r \<Longrightarrow> append_record r s = Some (s', None) \<Longrightarrow> log_step s [] s'"
| woken: "record_ok r \<Longrightarrow> append_wake r s = Some (s', Some l) \<Longrightarrow> log_step s [r\<lparr>rec_lsn := l\<rparr>] s'"
| thread: "log_step s [] (flush_thread_step s)"
| flush: "log_step s [] (flush_begin force s)"
| stop: "log_step s [] (stop_begin s)"

inductive log_run :: "log_mgr \<Rightarrow> log_record list \<Rightarrow> log_mgr \<Rightarrow> bool" where
  log_nil: "log_run s [] s"
| log_snoc: "log_run s rs t \<Longrightarrow> log_step t es u \<Longrightarrow> log_run s (rs @ es) u"

definition image_of :: "log_record \<Rightarrow> bytes" where
  "image_of r = (case record_image r of Some img \<Rightarrow> img | None \<Rightarrow> [])"

abbreviation images :: "log_record list \<Rightarrow> bytes" where
  "images rs \<equiv> concat (map image_of rs)"

section \<open>The invariant\<close>

lemma scast_small: "unat w < 2 ^ 31 \<Longrightarrow> (scast (w :: 32 word) :: 64 word) = of_nat (unat w)"
  using scast_of_nat [of "unat w"] by simp

lemma fits_iff:
  assumes "record_ok r" and "length (lg_buf s) < log_buffer_size"
  shows "fits r s \<longleftrightarrow> length (lg_buf s) + unat (rec_size r) < log_buffer_size"
proof -
  let ?n = "length (lg_buf s) + unat (rec_size r)"
  have b: "unat (rec_size r) < 2 ^ 31" using record_image_ok [OF assms(1)] by auto
  then have "(of_nat (length (lg_buf s)) + scast (rec_size r) :: 64 word) = of_nat ?n"
    by (simp only: scast_small of_nat_add)
  moreover have "?n < 2 ^ 64" using b assms(2) by (simp add: log_buffer_size_def)
  ultimately show ?thesis
    unfolding fits_def word_less_nat_alt by (simp only: unat64_small) (simp add: unat64_small log_buffer_size_def)
qed

lemma image_of_lsn: "record_ok r \<Longrightarrow> record_image (r\<lparr>rec_lsn := l\<rparr>) = Some (image_of (r\<lparr>rec_lsn := l\<rparr>)) \<and>
    length (image_of (r\<lparr>rec_lsn := l\<rparr>)) = unat (rec_size r)"
  using record_image_ok [of "r\<lparr>rec_lsn := l\<rparr>"] by (auto simp: image_of_def)

lemma append_write_fits:
  assumes "record_ok r" and "length (lg_buf s) < log_buffer_size" and "fits r s"
  shows "append_write r s = Some (s\<lparr>lg_buf := lg_buf s @ image_of (r\<lparr>rec_lsn := lg_next s\<rparr>), lg_next := lg_next s + 1\<rparr>,
    Some (lg_next s))"
  using assms image_of_lsn [OF assms(1), of "lg_next s"] fits_iff [OF assms(1,2)] by (simp add: append_write_def)

definition last_lsn :: "lsn \<Rightarrow> nat \<Rightarrow> lsn" where
  "last_lsn n0 p = (if p = 0 then invalid_lsn else n0 + of_nat p - 1)"

text \<open>Of the records \<open>rs\<close> put into the log so far, \<open>m\<close> are in the file, the next up to \<open>k\<close> are being
  written, and the persistent LSN covers \<open>p\<close>.\<close>

definition log_at :: "bytes \<Rightarrow> lsn \<Rightarrow> log_record list \<Rightarrow> nat \<Rightarrow> nat \<Rightarrow> nat \<Rightarrow> log_mgr \<Rightarrow> bool" where
  "log_at f0 n0 rs m k p s \<longleftrightarrow> p \<le> m \<and> m \<le> k \<and> k \<le> length rs \<and>
     lg_file s = f0 @ images (take m rs) \<and> lg_buf s = images (drop k rs) \<and> lg_persistent s = last_lsn n0 p \<and>
     (case lg_thread s of
        FWrite l \<Rightarrow> m < k \<and> p = m \<and> lg_flush s = images (drop m (take k rs)) \<and> l = last_lsn n0 k
      | FStore l \<Rightarrow> k = m \<and> 0 < m \<and> l = last_lsn n0 m
      | _ \<Rightarrow> k = m \<and> p = m)"

definition log_ok :: "bytes \<Rightarrow> lsn \<Rightarrow> log_record list \<Rightarrow> log_mgr \<Rightarrow> bool" where
  "log_ok f0 n0 rs s \<longleftrightarrow> (\<forall>r \<in> set rs. record_ok r) \<and> map rec_lsn rs = map (\<lambda>i. n0 + of_nat i) [0..<length rs] \<and>
     lg_next s = n0 + of_nat (length rs) \<and> length (lg_buf s) < log_buffer_size \<and> (\<exists>m k p. log_at f0 n0 rs m k p s)"

lemma log_ok_new: "log_ok f0 n0 [] (set_next_lsn n0 (log_manager_new f0))"
  by (simp add: log_ok_def log_at_def log_manager_new_def set_next_lsn_def last_lsn_def log_buffer_size_def)

lemma log_ok_append:
  assumes ok: "log_ok f0 n0 rs s" and r: "record_ok r"
    and s': "s' = s\<lparr>lg_buf := lg_buf s @ image_of (r\<lparr>rec_lsn := lg_next s\<rparr>), lg_next := lg_next s + 1\<rparr>" and f: "fits r s"
  shows "log_ok f0 n0 (rs @ [r\<lparr>rec_lsn := lg_next s\<rparr>]) s'"
proof -
  let ?r = "r\<lparr>rec_lsn := lg_next s\<rparr>"
  obtain m k p where at: "log_at f0 n0 rs m k p s" using ok by (auto simp: log_ok_def)
  have "log_at f0 n0 (rs @ [?r]) m k p s'"
    using at unfolding log_at_def s' by (auto split: flush_phase.splits)
  moreover have "length (lg_buf s') < log_buffer_size"
    using fits_iff [OF r, of s] f ok image_of_lsn [OF r, of "lg_next s"] by (simp add: s' log_ok_def)
  ultimately show ?thesis using ok r by (auto simp: log_ok_def s')
qed

lemma log_at_fields:
  "log_at f0 n0 rs m k p (s\<lparr>lg_need := b\<rparr>) = log_at f0 n0 rs m k p s"
  "log_at f0 n0 rs m k p (s\<lparr>lg_enable := b\<rparr>) = log_at f0 n0 rs m k p s"
  by (cases "lg_thread s"; simp add: log_at_def)+

lemma log_ok_fields:
  "log_ok f0 n0 rs (s\<lparr>lg_need := b\<rparr>) = log_ok f0 n0 rs s" "log_ok f0 n0 rs (s\<lparr>lg_enable := b\<rparr>) = log_ok f0 n0 rs s"
  by (simp_all add: log_ok_def log_at_fields)

lemma images_split: "m \<le> k \<Longrightarrow> images (take m rs) @ images (drop m (take k rs)) = images (take k rs)"
proof -
  assume "m \<le> k"
  then have "take m rs @ drop m (take k rs) = take k rs" by (metis append_take_drop_id min.absorb1 take_take)
  then show ?thesis by (metis concat_append map_append)
qed

lemma log_at_thread:
  assumes at: "log_at f0 n0 rs m k p s" and nx: "lg_next s = n0 + of_nat (length rs)"
  shows "\<exists>m' k' p'. log_at f0 n0 rs m' k' p' (flush_thread_step s)"
proof (cases "lg_thread s")
  case FWait
  show ?thesis
  proof (cases "lg_buf s = []")
    case True
    then have "log_at f0 n0 rs m k p (flush_thread_step s)" using at FWait by (simp add: flush_thread_step_def log_at_def)
    then show ?thesis by blast
  next
    case False
    have "lg_buf s = images (drop m rs)" "k = m" using at FWait by (simp_all add: log_at_def)
    with False have "m < length rs" by (metis concat.simps(1) drop_all list.simps(8) not_le_imp_less)
    moreover from this have "0 < length rs" by linarith
    ultimately have "log_at f0 n0 rs m (length rs) p (flush_thread_step s)"
      using at FWait False nx by (auto simp: flush_thread_step_def log_at_def swap_buffer_def last_lsn_def)
    then show ?thesis by blast
  qed
next
  case (FWrite l)
  then have "log_at f0 n0 rs k k p (flush_thread_step s)"
    using at images_split [of m k rs] by (auto simp: flush_thread_step_def log_at_def lgs.write_append)
  then show ?thesis by blast
next
  case (FStore l)
  then have "log_at f0 n0 rs m k m (flush_thread_step s)" using at by (simp add: flush_thread_step_def log_at_def)
  then show ?thesis by blast
qed (use at in \<open>auto simp: flush_thread_step_def log_at_def split: flush_phase.splits\<close>)

lemma thread_fields:
  "lg_next (flush_thread_step s) = lg_next s" "length (lg_buf (flush_thread_step s)) \<le> length (lg_buf s)"
  "lg_enable (flush_thread_step s) = lg_enable s"
  by (auto simp: flush_thread_step_def swap_buffer_def split: flush_phase.splits)

lemma log_step_ok:
  assumes "log_step s es s'" and "log_ok f0 n0 rs s"
  shows "log_ok f0 n0 (rs @ es) s'"
  using assms
proof cases
  case (appended r l)
  then have "fits r s" by (auto simp: append_record_def split: if_splits)
  with appended append_write_fits [of r s] assms(2) have "s' = s\<lparr>lg_buf := lg_buf s @ image_of (r\<lparr>rec_lsn := lg_next s\<rparr>), lg_next := lg_next s + 1\<rparr>"
    "l = lg_next s" by (auto simp: append_record_def log_ok_def)
  with log_ok_append [OF assms(2) appended(2) _ \<open>fits r s\<close>] appended(1) show ?thesis by simp
next
  case (full r)
  then have "s' = s\<lparr>lg_need := True\<rparr>" "es = []" using assms(2) append_write_fits [of r s]
    by (auto simp: append_record_def log_ok_def [of _ _ _ s] split: if_splits)
  then show ?thesis using assms(2) by (simp add: log_ok_fields)
next
  case (woken r l)
  then have "fits r s" by (auto simp: append_wake_def split: if_splits)
  with woken append_write_fits [of r s] assms(2) have "s' = s\<lparr>lg_buf := lg_buf s @ image_of (r\<lparr>rec_lsn := lg_next s\<rparr>), lg_next := lg_next s + 1\<rparr>"
    "l = lg_next s" by (auto simp: append_wake_def log_ok_def)
  with log_ok_append [OF assms(2) woken(2) _ \<open>fits r s\<close>] woken(1) show ?thesis by simp
next
  case thread
  then show ?thesis using assms(2) log_at_thread thread_fields [of s] by (auto simp: log_ok_def)
qed (use assms(2) in \<open>auto simp: flush_begin_def stop_begin_def log_ok_fields\<close>)

lemma log_run_ok: "log_run s0 rs s \<Longrightarrow> log_ok f0 n0 [] s0 \<Longrightarrow> log_ok f0 n0 rs s"
  by (induction rule: log_run.induct) (auto intro: log_step_ok)

section \<open>Waiting for the flush thread\<close>

lemma sint_small: "n < 2 ^ 31 \<Longrightarrow> sint (of_nat n :: 32 word) = int n"
proof -
  assume "n < 2 ^ 31"
  then have "signed_take_bit 31 (int n) = int n" by (intro signed_take_bit_int_eq_self) simp_all
  then show ?thesis using signed_of_nat [of n, where 'a = int and 'b = 32] by simp
qed

lemma lsn_plus:
  assumes "unat n0 + i < 2 ^ 31"
  shows "sint (n0 + of_nat i :: lsn) = int (unat n0 + i)"
  using sint_small [OF assms] by simp

lemma last_lsn_covers:
  assumes "unat n0 + n < 2 ^ 31" and "p \<le> n" and "i < n" and "\<not> sint (last_lsn n0 p) < sint (n0 + of_nat i)"
  shows "i < p"
proof (cases p)
  case 0
  then have "sint (last_lsn n0 p) = - 1" by (simp add: last_lsn_def invalid_lsn_def)
  with assms(1,3,4) lsn_plus [of n0 i] have "\<not> - 1 < int (unat n0 + i)" by (simp only:)
  then show ?thesis by linarith
next
  case (Suc q)
  then have "last_lsn n0 p = n0 + of_nat q" by (simp add: last_lsn_def)
  then show ?thesis using assms lsn_plus [of n0 i] lsn_plus [of n0 q] Suc by simp
qed

lemma flush_done_last:
  assumes "unat n0 + n < 2 ^ 31" and "i < n" and "lg_persistent s = last_lsn n0 n"
  shows "flush_done (n0 + of_nat i) s"
proof -
  obtain q where q: "n = Suc q" using assms(2) by (cases n) auto
  then have "last_lsn n0 n = n0 + of_nat q" by (simp add: last_lsn_def)
  then show ?thesis using assms lsn_plus [of n0 i] lsn_plus [of n0 q] q by (simp add: flush_done_def)
qed

lemma log_ok_thread: "log_ok f0 n0 rs s \<Longrightarrow> log_ok f0 n0 rs ((flush_thread_step ^^ j) s)"
  using log_step_ok [OF thread] by (induction j) auto

lemma record_size_pos: "record_ok r \<Longrightarrow> image_of r \<noteq> []"
  using record_image_ok [of r] length_header_image [of r]
  by (auto simp: image_of_def record_image_def simp del: length_header_image split: if_splits Option.bind_splits)

lemma nothing_buffered:
  assumes "log_ok f0 n0 rs s" and "lg_buf s = []" and "log_at f0 n0 rs m k p s"
  shows "k = length rs"
proof (rule ccontr)
  assume "k \<noteq> length rs"
  then have "k < length rs" using assms(3) by (simp add: log_at_def)
  then have "rs ! k \<in> set rs" "drop k rs = rs ! k # drop (Suc k) rs" by (simp_all add: Cons_nth_drop_Suc)
  moreover have "images (drop k rs) = []" using assms(2,3) by (simp add: log_at_def)
  ultimately have "image_of (rs ! k) = []" "record_ok (rs ! k)" using assms(1) by (simp_all add: log_ok_def)
  then show False by (simp add: record_size_pos)
qed

lemma reaches_wait:
  assumes "lg_enable s" and "lg_thread s \<noteq> FStopped"
  obtains j where "j \<le> 4" "lg_thread ((flush_thread_step ^^ j) s) = FWait"
proof (cases "lg_thread s")
  case FCheck
  then show thesis using assms that [of 1] by (simp add: flush_thread_step_def)
next
  case FWait
  then show thesis using that [of 0] by simp
next
  case (FWrite l)
  then show thesis using assms that [of 4] by (simp add: eval_nat_numeral flush_thread_step_def)
next
  case (FStore l)
  then show thesis using assms that [of 3] by (simp add: eval_nat_numeral flush_thread_step_def)
next
  case FClear
  then show thesis using assms that [of 2] by (simp add: eval_nat_numeral flush_thread_step_def)
qed (use assms in simp)

lemma wait_step:
  assumes "lg_thread s = FWait"
  shows "lg_buf (flush_thread_step s) = []"
  using assms by (simp add: flush_thread_step_def swap_buffer_def)

lemma room_after_wait:
  assumes ok: "log_ok f0 n0 rs s" and r: "record_ok r" "unat (rec_size r) < log_buffer_size"
    and w: "lg_thread ((flush_thread_step ^^ j) s) = FWait"
  shows "\<exists>s'. append_wake r ((flush_thread_step ^^ Suc j) s) = Some (s', Some (n0 + of_nat (length rs)))"
proof -
  let ?s = "(flush_thread_step ^^ Suc j) s"
  have b: "lg_buf ?s = []" using wait_step [OF w] by simp
  have "log_ok f0 n0 rs ?s" by (rule log_ok_thread [OF ok])
  then have len: "length (lg_buf ?s) < log_buffer_size" "lg_next ?s = n0 + of_nat (length rs)" by (simp_all only: log_ok_def)
  then have "fits r ?s" using fits_iff [OF r(1) len(1)] b r(2) by simp
  with append_write_fits [OF r(1) len(1)] len(2) show ?thesis by (simp only: append_wake_def if_True) blast
qed

lemma wait_flushes:
  assumes ok: "log_ok f0 n0 rs s" and w: "lg_thread s = FWait"
  shows "lg_persistent ((flush_thread_step ^^ 3) s) = last_lsn n0 (length rs)"
proof -
  obtain m k p where at: "log_at f0 n0 rs m k p s" using ok by (auto simp: log_ok_def)
  have kp: "k = m" "p = m" "lg_persistent s = last_lsn n0 p" using at w by (simp_all add: log_at_def)
  show ?thesis
  proof (cases "lg_buf s = []")
    case True
    with nothing_buffered [OF ok True at] kp w show ?thesis
      by (simp add: eval_nat_numeral flush_thread_step_def)
  next
    case False
    then have "m < length rs" using at kp by (auto simp: log_at_def intro: ccontr)
    then have "lg_next s - 1 = last_lsn n0 (length rs)" using ok by (auto simp: log_ok_def last_lsn_def)
    with False w show ?thesis by (simp add: eval_nat_numeral flush_thread_step_def swap_buffer_def)
  qed
qed

lemma log_reach: "log_run (set_next_lsn n0 (log_manager_new f0)) rs s \<Longrightarrow> log_ok f0 n0 rs s"
  using log_run_ok log_ok_new by blast

lemma log_lsns: "log_ok f0 n0 rs s \<Longrightarrow> i < length rs \<Longrightarrow> rec_lsn (rs ! i) = n0 + of_nat i"
  unfolding log_ok_def by (metis (no_types, lifting) length_map map_nth nth_map nth_upt add_0 length_upt minus_nat.diff_0)

lemma log_content:
  assumes "log_run (set_next_lsn n0 (log_manager_new f0)) rs s"
  shows "lg_file s @ (case lg_thread s of FWrite _ \<Rightarrow> lg_flush s | _ \<Rightarrow> []) @ lg_buf s = f0 @ images rs"
proof -
  note ok = log_reach [OF assms]
  obtain m k p where at: "log_at f0 n0 rs m k p s" using ok by (auto simp: log_ok_def)
  have "images (take k rs) @ images (drop k rs) = images rs" by (metis append_take_drop_id concat_append map_append)
  moreover have "images (take m rs) @ images (drop m (take k rs)) = images (take k rs)"
    using at by (intro images_split) (simp add: log_at_def)
  ultimately have "images (take m rs) @ images (drop m (take k rs)) @ images (drop k rs) = images rs"
    "images (take k rs) @ images (drop k rs) = images rs" by (metis append_assoc)+
  then show ?thesis using at by (cases "lg_thread s") (auto simp: log_at_def)
qed

section \<open>A small run\<close>

text \<open>Two appends with the flush thread between them; then the thread is stopped while the second record
  is in the log buffer, and ends without writing it.\<close>

definition begin_1 :: log_record where
  "begin_1 = record_default\<lparr>rec_size := of_nat header_size, rec_lsn := 0, rec_txn := 1, rec_type := BEGIN_REC\<rparr>"

definition commit_1 :: log_record where
  "commit_1 = record_default\<lparr>rec_size := of_nat header_size, rec_lsn := 1, rec_txn := 1, rec_prev := 0, rec_type := COMMIT_REC\<rparr>"

lemma demo_ok: "record_ok begin_1" "record_ok commit_1"
  by (simp_all add: begin_1_def commit_1_def record_ok_def record_default_def has_payload_def)

lemmas demo_eval = append_record_def append_write_def fits_def begin_1_def commit_1_def record_default_def record_image_def
  has_payload_def set_next_lsn_def log_manager_new_def log_buffer_size_def flush_thread_step_def swap_buffer_def stop_begin_def
  flush_done_def

lemma demo_run:
  "\<exists>s. log_run (set_next_lsn 0 (log_manager_new [])) [begin_1] s \<and> lg_enable s \<and> lg_thread s = FStore 0 \<and>
     lg_buf s = [] \<and> lg_need s = False \<and> lg_persistent s = - 1 \<and> lg_next s = 1"
proof -
  let ?s0 = "set_next_lsn 0 (log_manager_new [])"
  have ne: "header_image x \<noteq> []" for x by (metis length_header_image list.size(3) zero_neq_numeral)
  obtain s1 where s1: "append_record begin_1 ?s0 = Some (s1, Some 0)" "lg_enable s1" "lg_thread s1 = FCheck" "lg_buf s1 \<noteq> []"
      "lg_next s1 = 1" "lg_persistent s1 = - 1" "\<not> lg_need s1"
    using ne by (auto simp: demo_eval invalid_lsn_def)
  have l0: "begin_1\<lparr>rec_lsn := 0\<rparr> = begin_1" by (simp add: begin_1_def)
  have r1: "log_run ?s0 ([] @ [begin_1\<lparr>rec_lsn := 0\<rparr>]) s1" by (rule log_snoc [OF log_nil appended [OF demo_ok(1) s1(1)]])
  have thr: "log_run ?s0 rs s \<Longrightarrow> log_run ?s0 rs (flush_thread_step s)" for rs s
    using log_snoc [OF _ thread] by fastforce
  have "log_run ?s0 [begin_1] (flush_thread_step (flush_thread_step (flush_thread_step s1)))"
    using thr [OF thr [OF thr [OF r1]]] l0 by simp
  then show ?thesis
    using s1(2-) by (intro exI [of _ "flush_thread_step (flush_thread_step (flush_thread_step s1))"])
      (simp add: flush_thread_step_def swap_buffer_def)
qed

lemma demo_durable:
  "\<exists>s. log_run (set_next_lsn 0 (log_manager_new [])) [begin_1] s \<and> flush_done 0 s"
proof -
  obtain s where s: "log_run (set_next_lsn 0 (log_manager_new [])) [begin_1] s" "lg_thread s = FStore 0" using demo_run by blast
  have "log_run (set_next_lsn 0 (log_manager_new [])) ([begin_1] @ []) (flush_thread_step s)" by (rule log_snoc [OF s(1) thread])
  then show ?thesis using s(2) by (intro exI [of _ "flush_thread_step s"]) (simp add: flush_thread_step_def flush_done_def)
qed

text \<open>\<open>StopFlushThread\<close>, and with it the destructor, can lose records that are still in the log buffer.\<close>

lemma stop_can_lose_records:
  "\<exists>s. log_run (set_next_lsn 0 (log_manager_new [])) [begin_1, commit_1] s \<and> lg_thread s = FStopped \<and>
     lg_file s = image_of begin_1 \<and> lg_buf s = image_of commit_1"
proof -
  let ?s0 = "set_next_lsn 0 (log_manager_new [])"
  obtain s where s: "log_run ?s0 [begin_1] s" "lg_enable s" "lg_thread s = FStore 0" "lg_buf s = []" "lg_next s = 1"
    using demo_run by blast
  have len: "length (lg_buf s) < log_buffer_size" "fits commit_1 s"
    using s(4) by (simp_all add: log_buffer_size_def fits_def commit_1_def)
  have l1: "commit_1\<lparr>rec_lsn := lg_next s\<rparr> = commit_1" using s(5) by (simp add: commit_1_def)
  define s2 where "s2 = s\<lparr>lg_buf := lg_buf s @ image_of (commit_1\<lparr>rec_lsn := lg_next s\<rparr>), lg_next := lg_next s + 1\<rparr>"
  have "append_record commit_1 s = Some (s2, Some (lg_next s))"
    using append_write_fits [OF demo_ok(2) len] len(2) by (simp add: append_record_def s2_def)
  from log_snoc [OF s(1) appended [OF demo_ok(2) this]] l1
  have r2: "log_run ?s0 [begin_1, commit_1] s2" by simp
  have thr: "log_run ?s0 rs s \<Longrightarrow> log_run ?s0 rs (flush_thread_step s)" for rs s
    using log_snoc [OF _ thread] by fastforce
  let ?s3 = "flush_thread_step (flush_thread_step (flush_thread_step (stop_begin s2)))"
  have r3: "log_run ?s0 [begin_1, commit_1] ?s3" using thr [OF thr [OF thr]] log_snoc [OF r2 stop] by simp
  have st: "lg_thread ?s3 = FStopped" "lg_buf ?s3 = image_of commit_1"
    using s(3,4) l1 by (simp_all add: flush_thread_step_def stop_begin_def s2_def)
  have "log_ok [] 0 [begin_1, commit_1] ?s3" by (rule log_reach [OF r3])
  then obtain m k p where at: "log_at [] 0 [begin_1, commit_1] m k p ?s3" by (auto simp: log_ok_def)
  then have "k = m" "images (take m [begin_1, commit_1]) = lg_file ?s3" "images (drop m [begin_1, commit_1]) = image_of commit_1"
    "m \<le> 2" using st by (auto simp: log_at_def)
  moreover have "length (image_of begin_1) = 24" "length (image_of commit_1) = 24"
    by (simp_all add: image_of_def record_image_def begin_1_def commit_1_def has_payload_def record_default_def)
  moreover from calculation(4) have "m = 0 \<or> m = 1 \<or> m = 2" by linarith
  ultimately have "lg_file ?s3 = image_of begin_1" by (elim disjE) (auto dest: arg_cong [where f = length])
  then show ?thesis using r3 st by blast
qed

section \<open>Properties\<close>

text \<open>C20. Whatever the interleaving of appending threads, flush thread and flush requests: the log file,
  the buffer being written and the log buffer together are the old file followed by the images of all
  records appended so far, in the order of their LSNs, which are consecutive.\<close>

theorem log_is_complete:
  assumes "log_run (set_next_lsn n0 (log_manager_new f0)) rs s"
  shows "lg_file s @ (case lg_thread s of FWrite _ \<Rightarrow> lg_flush s | _ \<Rightarrow> []) @ lg_buf s = f0 @ images rs \<and>
    (\<forall>i. i < length rs \<longrightarrow> rec_lsn (rs ! i) = n0 + of_nat i) \<and> lg_next s = n0 + of_nat (length rs)"
  using log_content [OF assms] log_reach [OF assms] log_lsns [OF log_reach [OF assms]] by (simp add: log_ok_def)

theorem log_is_complete_witness:
  "\<exists>s. log_run (set_next_lsn 0 (log_manager_new [])) [begin_1] s \<and> lg_file s @ lg_buf s = image_of begin_1 \<and> lg_next s = 1"
proof -
  obtain s where s: "log_run (set_next_lsn 0 (log_manager_new [])) [begin_1] s" "lg_thread s = FStore 0" using demo_run by blast
  from log_is_complete [OF s(1)] s show ?thesis by auto
qed

text \<open>C21. Durability. When \<open>Flush(lsn, force)\<close> returns for the LSN of an appended record, the log file
  contains the image of that record and of all records appended before it.\<close>

theorem flush_makes_durable:
  assumes "log_run (set_next_lsn n0 (log_manager_new f0)) rs s" and "unat n0 + length rs < 2 ^ 31"
    and "i < length rs" and "flush_done (rec_lsn (rs ! i)) s"
  shows "\<exists>more. lg_file s = f0 @ images (take (Suc i) rs) @ more"
proof -
  note ok = log_reach [OF assms(1)]
  obtain m k p where at: "log_at f0 n0 rs m k p s" using ok by (auto simp: log_ok_def)
  then have b: "p \<le> m" "m \<le> length rs" "lg_persistent s = last_lsn n0 p" "lg_file s = f0 @ images (take m rs)"
    by (auto simp: log_at_def)
  have "i < p" using last_lsn_covers [OF assms(2) _ assms(3)] assms(4) b log_lsns [OF ok assms(3)] by (simp add: flush_done_def)
  then have "take m rs = take (Suc i) rs @ drop (Suc i) (take m rs)"
    using b by (metis append_take_drop_id min.absorb1 take_take Suc_leI order.trans)
  then have "images (take m rs) = images (take (Suc i) rs) @ images (drop (Suc i) (take m rs))"
    by (metis concat_append map_append)
  with b(4) show ?thesis by simp
qed

theorem flush_makes_durable_witness:
  "\<exists>s more. log_run (set_next_lsn 0 (log_manager_new [])) [begin_1] s \<and> lg_file s = image_of begin_1 @ more"
proof -
  obtain s where s: "log_run (set_next_lsn 0 (log_manager_new [])) [begin_1] s" "flush_done 0 s" using demo_durable by blast
  have "rec_lsn begin_1 = 0" by (simp add: begin_1_def)
  with flush_makes_durable [OF s(1), of 0] s show ?thesis by auto
qed

text \<open>C22. \<open>Flush\<close> returns: while the flush thread has not been stopped, seven of its steps make every
  record appended so far durable, so the spinning on \<open>persistent_lsn_\<close> ends.\<close>

theorem flush_returns:
  assumes "log_run (set_next_lsn n0 (log_manager_new f0)) rs s" and "unat n0 + length rs < 2 ^ 31"
    and "lg_enable s" and "lg_thread s \<noteq> FStopped" and "i < length rs"
  shows "\<exists>j \<le> 7. flush_done (rec_lsn (rs ! i)) ((flush_thread_step ^^ j) s)"
proof -
  note ok = log_reach [OF assms(1)]
  obtain j where j: "j \<le> 4" "lg_thread ((flush_thread_step ^^ j) s) = FWait" using reaches_wait [OF assms(3,4)] .
  from wait_flushes [OF log_ok_thread [OF ok] j(2)]
  have "lg_persistent ((flush_thread_step ^^ (3 + j)) s) = last_lsn n0 (length rs)" by (simp only: funpow_add comp_apply)
  from flush_done_last [OF assms(2,5) this] log_lsns [OF ok assms(5)] j(1) show ?thesis
    by (intro exI [of _ "3 + j"]) simp
qed

theorem flush_returns_witness:
  "\<exists>s. log_run (set_next_lsn 0 (log_manager_new [])) [begin_1] s \<and> \<not> flush_done 0 s \<and>
     (\<exists>j \<le> 7. flush_done 0 ((flush_thread_step ^^ j) s))"
proof -
  obtain s where s: "log_run (set_next_lsn 0 (log_manager_new [])) [begin_1] s" "lg_thread s = FStore 0" "lg_enable s"
    "lg_persistent s = - 1" using demo_run by blast
  have "rec_lsn begin_1 = 0" by (simp add: begin_1_def)
  with flush_returns [OF s(1), of 0] s show ?thesis by (auto simp: flush_done_def)
qed

text \<open>\<open>AppendLogRecord\<close> returns: a record smaller than the log buffer that finds no room is appended,
  with the next LSN, when it is woken up after at most five steps of the flush thread.\<close>

theorem append_returns:
  assumes "log_run (set_next_lsn n0 (log_manager_new f0)) rs s" and "record_ok r" and "unat (rec_size r) < log_buffer_size"
    and "lg_enable s" and "lg_thread s \<noteq> FStopped"
  shows "\<exists>j \<le> 5. \<exists>s'. append_wake r ((flush_thread_step ^^ j) s) = Some (s', Some (n0 + of_nat (length rs)))"
proof -
  obtain j where j: "j \<le> 4" "lg_thread ((flush_thread_step ^^ j) s) = FWait" using reaches_wait [OF assms(4,5)] .
  from room_after_wait [OF log_reach [OF assms(1)] assms(2,3) j(2)] j(1) show ?thesis by (intro exI [of _ "Suc j"]) simp
qed

theorem append_returns_witness:
  "\<exists>s. log_run (set_next_lsn 0 (log_manager_new [])) [begin_1] s \<and>
     (\<exists>j \<le> 5. \<exists>s'. append_wake commit_1 ((flush_thread_step ^^ j) s) = Some (s', Some 1))"
proof -
  obtain s where s: "log_run (set_next_lsn 0 (log_manager_new [])) [begin_1] s" "lg_thread s = FStore 0" "lg_enable s"
    using demo_run by blast
  have "unat (rec_size commit_1) < log_buffer_size" by (simp add: commit_1_def log_buffer_size_def)
  from append_returns [OF s(1) demo_ok(2) this s(3)] s show ?thesis by auto
qed

text \<open>A record of at least the size of the log buffer is never appended: in every reachable state its
  call goes to sleep, and every wake-up puts it to sleep again.\<close>

theorem oversized_append_never_returns:
  assumes "log_run (set_next_lsn n0 (log_manager_new f0)) rs s" and "record_ok r" and "log_buffer_size \<le> unat (rec_size r)"
  shows "append_record r s = Some (s\<lparr>lg_need := True\<rparr>, None) \<and> append_wake r s = Some (s, None)"
  using fits_iff [OF assms(2), of s] log_reach [OF assms(1)] assms(3)
  by (simp add: append_record_def append_wake_def log_ok_def)

theorem oversized_append_never_returns_witness:
  "append_record (record_of_kv 1 0 INSERT_REC [] (replicate 45056 7)) (set_next_lsn 0 (log_manager_new [])) =
     Some ((set_next_lsn 0 (log_manager_new []))\<lparr>lg_need := True\<rparr>, None)"
proof -
  have len: "32 + length [] + length (replicate 45056 (7 :: byte)) < 2 ^ 31" by simp
  have ok: "record_ok (record_of_kv 1 0 INSERT_REC [] (replicate 45056 7))"
    using record_of_kv_ok [of INSERT_REC "[]" "replicate 45056 7" 1 0] len by simp
  have "log_buffer_size \<le> unat (rec_size (record_of_kv 1 0 INSERT_REC [] (replicate 45056 7)))"
    by (simp add: record_of_kv_def record_data_def log_buffer_size_def)
  from oversized_append_never_returns [OF log_nil ok this] show ?thesis by blast
qed

end
