(* ===== verification/KVStore.thy ===== *)
theory KVStore
  imports LevelStore LogManager
begin

text \<open>
  The key-value store. \<open>KVStore_beta\<close> (\<open>include/storage/KVStore_beta.h\<close>, \<open>src/storage/KVStore_beta.cpp\<close>) is
  a memtable over a disk storage; \<open>KVStore\<close> (\<open>include/storage/KVStore_new.h\<close>) adds to it writes on behalf
  of a transaction, which go to the log and to the transaction's write set first.

  Calls are sequential here; \<open>get\<close> and \<open>del\<close> give up the mutex for the search on disk, and what a caller on
  another thread may do in between is in \<open>KVConcurrent\<close>. \<open>ones\<close> is what the memtable's
  random engine draws. \<open>kv_rep\<close> relates the store to the pairs of the memtable and the list of the
  tables on disk, oldest first, on which \<open>kv_abs\<close> says what every operation does.
\<close>

definition sstable_space :: nat where
  "sstable_space = 2 * 1024 * 1024"

record kv_store =
  kv_mem :: skiplist
  kv_disk :: "filesys \<times> disk_storage"

definition kv_new :: "filesys \<Rightarrow> path \<Rightarrow> kv_store option" where
  "kv_new fs dir = do {
     m \<leftarrow> sl_new;
     d \<leftarrow> ds_new fs dir;
     Some \<lparr>kv_mem = m, kv_disk = d\<rparr> }"

definition kv_put :: "(bytes \<Rightarrow> bytes) \<Rightarrow> nat \<Rightarrow> kv_store \<Rightarrow> bytes \<Rightarrow> bytes \<Rightarrow> kv_store option" where
  "kv_put snap ones s key val = do {
     m \<leftarrow> sl_put ones (kv_mem s) key val;
     (if of_nat sstable_space < sl_space m
      then do {
        d \<leftarrow> ds_add snap (kv_disk s) m;
        m' \<leftarrow> sl_clear m;
        Some \<lparr>kv_mem = m', kv_disk = d\<rparr> }
      else Some (s\<lparr>kv_mem := m\<rparr>)) }"

definition kv_get :: "(bytes \<Rightarrow> bytes) \<Rightarrow> kv_store \<Rightarrow> bytes \<Rightarrow> (bool \<times> bytes) option" where
  "kv_get unsnap s key = do {
     has \<leftarrow> sl_contains (kv_mem s) key;
     result \<leftarrow> (if has then sl_get (kv_mem s) key else ds_search unsnap (kv_disk s) key);
     Some (if fst result \<and> snd result \<noteq> [] then result else (False, [])) }"

definition kv_del :: "(bytes \<Rightarrow> bytes) \<Rightarrow> nat \<Rightarrow> kv_store \<Rightarrow> bytes \<Rightarrow> (bool \<times> kv_store) option" where
  "kv_del unsnap ones s key = do {
     has \<leftarrow> sl_contains (kv_mem s) key;
     (if has then do {
        (b, m) \<leftarrow> sl_del (kv_mem s) key;
        Some (True, s\<lparr>kv_mem := m\<rparr>) }
      else do {
        result \<leftarrow> ds_search unsnap (kv_disk s) key;
        (if fst result \<and> snd result \<noteq> [] then do {
           m \<leftarrow> sl_put ones (kv_mem s) key [];
           Some (True, s\<lparr>kv_mem := m\<rparr>) }
         else Some (False, s)) }) }"

definition kv_reset :: "kv_store \<Rightarrow> kv_store option" where
  "kv_reset s = do { m \<leftarrow> sl_clear (kv_mem s); Some (s\<lparr>kv_mem := m\<rparr>) }"

definition kv_flush :: "(bytes \<Rightarrow> bytes) \<Rightarrow> kv_store \<Rightarrow> kv_store option" where
  "kv_flush snap s =
     (if \<not> sl_empty (kv_mem s) then do { d \<leftarrow> ds_add snap (kv_disk s) (kv_mem s); Some (s\<lparr>kv_disk := d\<rparr>) }
      else Some s)"

text \<open>The destructor of \<open>KVStore\<close> and then that of its base class: what is left are the files.\<close>

definition kv_close :: "(bytes \<Rightarrow> bytes) \<Rightarrow> kv_store \<Rightarrow> filesys option" where
  "kv_close snap s = do {
     s1 \<leftarrow> kv_flush snap s;
     s2 \<leftarrow> kv_flush snap s1;
     Some (fst (kv_disk s2)) }"

section \<open>What the operations mean\<close>

type_synonym kv_abst = "kvs \<times> kvs list"

datatype kv_op = KPut bytes bytes | KDel bytes

text \<open>The value that a lookup finds, in the memtable or else in the oldest table that has the key; an
  empty value stands for no value.\<close>

definition visible :: "kv_abst \<Rightarrow> bytes \<Rightarrow> bytes" where
  "visible a k = (case a of (ps, ts) \<Rightarrow>
     (case map_of ps k of Some v \<Rightarrow> v | None \<Rightarrow> (case map_of (concat ts) k of Some v \<Rightarrow> v | None \<Rightarrow> [])))"

fun kv_abs :: "kv_abst \<Rightarrow> kv_op \<Rightarrow> kv_abst" where
  "kv_abs (ps, ts) (KPut k v) =
     (if sstable_space < kvs_size (al_upd k v ps) then ([], ts @ [al_upd k v ps]) else (al_upd k v ps, ts))"
| "kv_abs (ps, ts) (KDel k) =
     (if map_of ps k \<noteq> None then (al_del k ps, ts)
      else if visible (ps, ts) k \<noteq> [] then (al_upd k [] ps, ts) else (ps, ts))"

text \<open>What \<open>del\<close> answers.\<close>

definition deletes :: "kv_abst \<Rightarrow> bytes \<Rightarrow> bool" where
  "deletes a k \<longleftrightarrow> map_of (fst a) k \<noteq> None \<or> visible a k \<noteq> []"

text \<open>Sizes stay far below the width of the counters.\<close>

fun kv_fits :: "kv_abst \<Rightarrow> kv_op \<Rightarrow> bool" where
  "kv_fits (ps, ts) (KPut k v) \<longleftrightarrow> small (al_upd k v ps) \<and> Suc (length ts) < two64"
| "kv_fits (ps, ts) (KDel k) \<longleftrightarrow> True"

definition kv_rep :: "(bytes \<Rightarrow> bytes) \<Rightarrow> kv_store \<Rightarrow> kv_abst \<Rightarrow> bool" where
  "kv_rep snap s a \<longleftrightarrow> sl_rep (kv_mem s) (fst a) \<and> ds_rep snap (kv_disk s) (snd a)"

lemma space_test:
  assumes "sl_rep m ps" and "small ps"
  shows "of_nat sstable_space < sl_space m \<longleftrightarrow> sstable_space < kvs_size ps"
proof -
  have "kvs_size ps < 2 ^ 48" using assms(2) by (simp add: small_def length_entries)
  then have "unat (of_nat (kvs_size ps) :: 64 word) = kvs_size ps" by (intro unat64_small) simp
  moreover have "unat (of_nat sstable_space :: 64 word) = sstable_space" by (intro unat64_small) (simp add: sstable_space_def)
  ultimately show ?thesis unfolding mt.space_rep [OF assms(1)] word_less_nat_alt by simp
qed

lemma kv_put_rep:
  assumes snap: "snappy_ok snap unsnap" and rep: "kv_rep snap s (ps, ts)" and fits: "kv_fits (ps, ts) (KPut k v)"
  shows "\<exists>s'. kv_put snap ones s k v = Some s' \<and> kv_rep snap s' (kv_abs (ps, ts) (KPut k v))"
proof -
  obtain m where m: "sl_put ones (kv_mem s) k v = Some m" "sl_rep m (al_upd k v ps)"
    using mt.put_rep [of "kv_mem s" ps ones k v] rep unfolding kv_rep_def by auto
  obtain d where d: "ds_add snap (kv_disk s) m = Some d" "ds_rep snap d (ts @ [al_upd k v ps])"
    using dst.add_rep [of snap unsnap "kv_disk s" ts m "al_upd k v ps"] snap rep m(2) fits unfolding kv_rep_def by auto
  obtain m' where "sl_clear m = Some m'" "sl_rep m' []" using mt.clear_rep [OF m(2)] by blast
  with m d rep space_test [OF m(2)] fits show ?thesis by (auto simp: kv_put_def kv_rep_def)
qed

lemma disk_search:
  assumes "snappy_ok snap unsnap" and "kv_rep snap s (ps, ts)"
  shows "ds_search unsnap (kv_disk s) k = Some (lookup (concat ts) k)"
  using dst.search_rep [of snap unsnap] assms by (auto simp: kv_rep_def)

lemma kv_get_rep:
  assumes snap: "snappy_ok snap unsnap" and rep: "kv_rep snap s a"
  shows "kv_get unsnap s k = Some (visible a k \<noteq> [], visible a k)"
proof -
  obtain ps ts where a: "a = (ps, ts)" by (cases a)
  have mem: "sl_rep (kv_mem s) ps" using rep by (simp add: kv_rep_def a)
  show ?thesis
    unfolding kv_get_def mt.has_rep [OF mem] mt.get_rep [OF mem] disk_search [OF snap rep [unfolded a]]
    by (simp add: visible_def a split: option.splits)
qed

lemma kv_del_rep:
  assumes snap: "snappy_ok snap unsnap" and rep: "kv_rep snap s a"
  shows "\<exists>s'. kv_del unsnap ones s k = Some (deletes a k, s') \<and> kv_rep snap s' (kv_abs a (KDel k))"
proof -
  obtain ps ts where a: "a = (ps, ts)" by (cases a)
  have mem: "sl_rep (kv_mem s) ps" using rep by (simp add: kv_rep_def a)
  show ?thesis
  proof (cases "map_of ps k")
    case (Some v)
    obtain m where "sl_del (kv_mem s) k = Some (True, m)" "sl_rep m (al_del k ps)"
      using mt.del_rep [OF mem, of k] Some by auto
    with Some mt.has_rep [OF mem] rep show ?thesis by (simp add: kv_del_def kv_rep_def deletes_def a)
  next
    case None
    obtain m where "sl_put ones (kv_mem s) k [] = Some m" "sl_rep m (al_upd k [] ps)"
      using mt.put_rep [OF mem] by blast
    with None mt.has_rep [OF mem] rep disk_search [OF snap rep [unfolded a], of k] show ?thesis
      by (simp add: kv_del_def kv_rep_def deletes_def visible_def a split: option.splits)
  qed
qed

lemma kv_flush_rep:
  assumes snap: "snappy_ok snap unsnap" and rep: "kv_rep snap s (ps, ts)" and "small ps" and "Suc (length ts) < two64"
  shows "\<exists>s'. kv_flush snap s = Some s' \<and> kv_rep snap s' (ps, if ps = [] then ts else ts @ [ps]) \<and> kv_mem s' = kv_mem s"
proof -
  have mem: "sl_rep (kv_mem s) ps" using rep by (simp add: kv_rep_def)
  have "length ps < 2 ^ 64" using assms(3) by (simp add: small_def length_entries)
  then have "sl_empty (kv_mem s) \<longleftrightarrow> ps = []"
    using sl_rep_counts(1) [OF mem] unat64_small [of "length ps"] by (auto simp: sl_empty_def sl_size_def)
  moreover obtain d where "ds_add snap (kv_disk s) (kv_mem s) = Some d" "ds_rep snap d (ts @ [ps])"
    using dst.add_rep [of snap unsnap "kv_disk s" ts "kv_mem s" ps] assms mem unfolding kv_rep_def by auto
  ultimately show ?thesis using rep by (cases "ps = []") (auto simp: kv_flush_def kv_rep_def)
qed

lemma kv_reset_rep: "kv_rep snap s (ps, ts) \<Longrightarrow> \<exists>s'. kv_reset s = Some s' \<and> kv_rep snap s' ([], ts)"
  using mt.clear_rep [of "kv_mem s" ps] by (auto simp: kv_reset_def kv_rep_def)


text \<open>Whatever value a store is taken to represent, the memtable and the number of tables are the same, so an operation fits or not.\<close>

lemma sorted_kvs_unique:
  assumes "sorted_kvs ps" and "sorted_kvs qs" and "map_of ps = map_of qs"
  shows "ps = qs"
proof -
  have d: "distinct (map fst ps)" "distinct (map fst qs)" using assms sorted_kvs_distinct by auto
  have s: "set ps = set qs" using map_of_eq_Some_iff [OF d(1)] map_of_eq_Some_iff [OF d(2)] assms(3) by auto
  have o: "sorted (map fst ps)" "sorted (map fst qs)"
    using assms(1,2) by (auto simp: sorted_wrt_map elim: sorted_wrt_mono_rel [rotated])
  have "inj_on fst (set ps \<union> set qs)" using d(2) s by (simp add: distinct_map)
  then show ?thesis by (rule map_sorted_distinct_set_unique) (use d s o in auto)
qed

lemma kv_rep_same:
  assumes "kv_rep snap s (ps, ts)" and "kv_rep snap s (qs, us)"
  shows "ps = qs" "length ts = length us"
proof -
  have m: "sl_rep (kv_mem s) ps" "sl_rep (kv_mem s) qs" using assms by (simp_all add: kv_rep_def)
  have "map_of ps k = map_of qs k" for k
    using mt.get_rep [OF m(1), of k] mt.get_rep [OF m(2), of k] by (auto split: option.splits)
  then show "ps = qs" using sorted_kvs_unique mt.rep_sorted m by blast
  show "length ts = length us" using assms by (auto simp: kv_rep_def ds_rep_def split: prod.splits)
qed

lemma kv_rep_fits: "kv_rep snap s a \<Longrightarrow> kv_fits a (KPut k v) \<Longrightarrow> \<forall>b. kv_rep snap s b \<longrightarrow> kv_fits b (KPut k v)"
proof (intro allI impI)
  fix b assume "kv_rep snap s a" "kv_fits a (KPut k v)" "kv_rep snap s b"
  moreover obtain ps ts qs us where "a = (ps, ts)" "b = (qs, us)" by (cases a, cases b)
  ultimately show "kv_fits b (KPut k v)" using kv_rep_same [of snap s ps ts qs us] by simp
qed

section \<open>Sequences of operations\<close>

fun kv_step :: "(bytes \<Rightarrow> bytes) \<Rightarrow> (bytes \<Rightarrow> bytes) \<Rightarrow> kv_store \<Rightarrow> nat \<times> kv_op \<Rightarrow> (bool \<times> kv_store) option" where
  "kv_step snap unsnap s (ones, KPut k v) = map_option (Pair True) (kv_put snap ones s k v)"
| "kv_step snap unsnap s (ones, KDel k) = kv_del unsnap ones s k"

fun op_result :: "kv_abst \<Rightarrow> kv_op \<Rightarrow> bool" where
  "op_result a (KPut k v) = True"
| "op_result a (KDel k) = deletes a k"

fun op_results :: "kv_abst \<Rightarrow> kv_op list \<Rightarrow> bool list" where
  "op_results a [] = []"
| "op_results a (x # xs) = op_result a x # op_results (kv_abs a x) xs"

fun all_fit :: "kv_abst \<Rightarrow> kv_op list \<Rightarrow> bool" where
  "all_fit a [] \<longleftrightarrow> True"
| "all_fit a (x # xs) \<longleftrightarrow> kv_fits a x \<and> all_fit (kv_abs a x) xs"

lemma all_fit_append: "all_fit a (xs @ ys) \<longleftrightarrow> all_fit a xs \<and> all_fit (foldl kv_abs a xs) ys"
  by (induction xs arbitrary: a) auto

text \<open>The contract of a store, for those who write to it and replay their writes.\<close>

locale kv_engine =
  fixes rep :: "'s \<Rightarrow> kv_abst \<Rightarrow> bool"
    and step :: "'s \<Rightarrow> nat \<times> kv_op \<Rightarrow> (bool \<times> 's) option"
    and get :: "'s \<Rightarrow> bytes \<Rightarrow> (bool \<times> bytes) option"
  assumes step_rep: "rep s a \<Longrightarrow> kv_fits a x \<Longrightarrow> \<exists>s'. step s (ones, x) = Some (op_result a x, s') \<and> rep s' (kv_abs a x)"
    and get_rep: "rep s a \<Longrightarrow> get s k = Some (visible a k \<noteq> [], visible a k)"
begin

fun run :: "'s \<Rightarrow> (nat \<times> kv_op) list \<Rightarrow> (bool list \<times> 's) option" where
  "run s [] = Some ([], s)"
| "run s (x # xs) = do { (b, t) \<leftarrow> step s x; (bs, u) \<leftarrow> run t xs; Some (b # bs, u) }"

lemma run_rep:
  "rep s a \<Longrightarrow> all_fit a (map snd xs) \<Longrightarrow>
   \<exists>s'. run s xs = Some (op_results a (map snd xs), s') \<and> rep s' (foldl kv_abs a (map snd xs)) \<and>
     get s' k = Some (visible (foldl kv_abs a (map snd xs)) k \<noteq> [], visible (foldl kv_abs a (map snd xs)) k)"
proof (induction xs arbitrary: s a)
  case Nil
  then show ?case by (simp add: get_rep)
next
  case (Cons x xs)
  obtain ones y where x: "x = (ones, y)" by (cases x)
  obtain t where t: "step s (ones, y) = Some (op_result a y, t)" "rep t (kv_abs a y)"
    using step_rep [OF Cons.prems(1), of y ones] Cons.prems(2) by (auto simp: x)
  from Cons.IH [OF t(2)] Cons.prems(2) t(1) show ?case by (auto simp: x)
qed

text \<open>Replaying the operations on another store that starts from the same pairs gives a store that
  answers alike, whatever the two random engines draw.\<close>

lemma replay:
  assumes "rep s a" and "rep t a" and "all_fit a (map snd xs)" and "map snd ys = map snd xs"
  shows "\<exists>s' t' bs. run s xs = Some (bs, s') \<and> run t ys = Some (bs, t') \<and> get s' k = get t' k"
  using run_rep [OF assms(1,3), of k] run_rep [of t a ys k] assms(2-4) by auto

end

interpretation kve: kv_engine "\<lambda>s a. snappy_ok snap unsnap \<and> kv_rep snap s a" "kv_step snap unsnap" "kv_get unsnap"
  for snap unsnap
proof
  fix s a k x ones
  assume rep: "snappy_ok snap unsnap \<and> kv_rep snap s a"
  then show "kv_get unsnap s k = Some (visible a k \<noteq> [], visible a k)" using kv_get_rep by blast
  assume "kv_fits a x"
  with rep show "\<exists>s'. kv_step snap unsnap s (ones, x) = Some (op_result a x, s') \<and> snappy_ok snap unsnap \<and>
      kv_rep snap s' (kv_abs a x)"
    using kv_put_rep [of snap unsnap s "fst a" "snd a"] kv_del_rep [of snap unsnap s a] by (cases x) fastforce+
qed

fun kv_run :: "(bytes \<Rightarrow> bytes) \<Rightarrow> (bytes \<Rightarrow> bytes) \<Rightarrow> kv_store \<Rightarrow> (nat \<times> kv_op) list \<Rightarrow> (bool list \<times> kv_store) option" where
  "kv_run snap unsnap s [] = Some ([], s)"
| "kv_run snap unsnap s (x # xs) = do {
     (b, t) \<leftarrow> kv_step snap unsnap s x;
     (bs, u) \<leftarrow> kv_run snap unsnap t xs;
     Some (b # bs, u) }"

lemma kv_run_eq: "kv_run snap unsnap s xs = kve.run snap unsnap s xs"
  by (induction xs arbitrary: s) auto

lemma kv_new_rep:
  assumes "fresh_dir fs dir"
  shows "\<exists>s. kv_new fs dir = Some s \<and> kv_rep snap s ([], []) \<and> ds_dir (snd (kv_disk s)) = dir"
proof -
  obtain m where m: "sl_new = Some m" "sl_rep m []" using sl_new_rep by blast
  obtain d where "ds_new fs dir = Some d" "ds_rep snap d []" "ds_dir (snd d) = dir" using ds_new_fresh [OF assms] by blast
  with m(2) show ?thesis unfolding kv_new_def by (subst m(1)) (simp add: kv_rep_def)
qed

section \<open>Closing and opening again\<close>

definition kv_reopen :: "(bytes \<Rightarrow> bytes) \<Rightarrow> kv_store \<Rightarrow> kv_store option" where
  "kv_reopen snap s = do { fs \<leftarrow> kv_close snap s; kv_new fs (ds_dir (snd (kv_disk s))) }"

lemma kv_flush_dir: "kv_flush snap s = Some s' \<Longrightarrow> ds_dir (snd (kv_disk s')) = ds_dir (snd (kv_disk s))"
  by (auto simp: kv_flush_def ds_add_def Let_def split: if_splits Option.bind_splits prod.splits)

lemma kv_new_existing:
  assumes "ds_rep snap d ts"
  shows "\<exists>s. kv_new (fst d) (ds_dir (snd d)) = Some s \<and> kv_rep snap s ([], ts)"
proof -
  obtain m where m: "sl_new = Some m" "sl_rep m []" using sl_new_rep by blast
  have "ds_new (fst d) (ds_dir (snd d)) = Some d" using ds_reopen [of snap "fst d" "snd d" ts] assms by simp
  with m(2) assms show ?thesis unfolding kv_new_def by (subst m(1)) (simp add: kv_rep_def)
qed

lemma kv_reopen_rep:
  assumes snap: "snappy_ok snap unsnap" and rep: "kv_rep snap s (ps, ts)" and "small ps" and "length ts + 2 < two64"
  shows "\<exists>s'. kv_reopen snap s = Some s' \<and> kv_rep snap s' ([], if ps = [] then ts else ts @ [ps, ps])"
proof -
  obtain s1 where s1: "kv_flush snap s = Some s1" "kv_rep snap s1 (ps, if ps = [] then ts else ts @ [ps])"
    using kv_flush_rep [OF snap rep assms(3)] assms(4) by auto
  obtain s2 where s2: "kv_flush snap s1 = Some s2" "kv_rep snap s2 (ps, if ps = [] then ts else ts @ [ps, ps])"
    using kv_flush_rep [OF snap s1(2) assms(3)] assms(4) by (cases "ps = []") auto
  have "ds_dir (snd (kv_disk s2)) = ds_dir (snd (kv_disk s))" using kv_flush_dir s1(1) s2(1) by simp
  with s1 s2 kv_new_existing [of snap "kv_disk s2"] show ?thesis
    by (auto simp: kv_reopen_def kv_close_def kv_rep_def)
qed

section \<open>A map, as long as nothing is flushed\<close>

fun ideal :: "(bytes \<rightharpoonup> bytes) \<Rightarrow> kv_op \<Rightarrow> (bytes \<rightharpoonup> bytes)" where
  "ideal m (KPut k v) = m(k \<mapsto> v)"
| "ideal m (KDel k) = m(k := None)"

lemma abs_ideal:
  "snd (foldl kv_abs ([], []) ops) = [] \<Longrightarrow> sorted_kvs (fst (foldl kv_abs ([], []) ops)) \<and>
     map_of (fst (foldl kv_abs ([], []) ops)) = foldl ideal Map.empty ops"
proof (induction ops rule: rev_induct)
  case (snoc x ops)
  obtain ps ts where a: "foldl kv_abs ([], []) ops = (ps, ts)" by (cases "foldl kv_abs ([], []) ops")
  have ts: "ts = []" using snoc.prems a by (cases x) (auto split: if_splits)
  have ih: "sorted_kvs ps" "map_of ps = foldl ideal Map.empty ops" using snoc.IH a ts by auto
  show ?case
  proof (cases x)
    case (KPut k v)
    then show ?thesis using snoc.prems ih a ts
      by (auto simp: sorted_al_upd map_of_al_upd split: if_splits)
  next
    case (KDel k)
    then show ?thesis using ih a ts
      by (auto simp: sorted_al_del map_of_al_del visible_def)
  qed
qed simp

section \<open>Properties\<close>

text \<open>C16. A store created in a fresh directory and given any sequence of put and del returns from every
  call, with the answers of \<open>op_results\<close>, and get then finds the value in the memtable or else in the
  oldest table that has the key; an empty value counts as none. Flushes happen exactly when a put
  brings the memtable over SSTABLE_SPACE.\<close>

theorem store_answers:
  assumes "snappy_ok snap unsnap" and "fresh_dir fs dir" and "all_fit ([], []) (map snd xs)"
  shows "\<exists>s s'. kv_new fs dir = Some s \<and> kv_run snap unsnap s xs = Some (op_results ([], []) (map snd xs), s') \<and>
    kv_get unsnap s' k = Some (visible (foldl kv_abs ([], []) (map snd xs)) k \<noteq> [],
      visible (foldl kv_abs ([], []) (map snd xs)) k)"
proof -
  obtain s where s: "kv_new fs dir = Some s" "kv_rep snap s ([], [])" using kv_new_rep [OF assms(2)] by blast
  with kve.run_rep [of snap unsnap s "([], [])" xs k] assms(1,3) show ?thesis by (auto simp: kv_run_eq)
qed

lemma small_example: "all_fit ([], []) [KPut [5] [1], KPut [6] [2], KDel [5]]"
  by (simp add: small_def sstable_space_def)

theorem store_answers_witness:
  "\<exists>s s'. kv_new empty_fs ''data'' = Some s \<and>
    kv_run (\<lambda>x. x) (\<lambda>x. x) s [(0, KPut [5] [1]), (3, KPut [6] [2]), (1, KDel [5])] = Some ([True, True, True], s') \<and>
    kv_get (\<lambda>x. x) s' [6] = Some (True, [2])"
  using store_answers [OF snappy_id fresh_empty [of "''data''"], of "[(0, KPut [5] [1]), (3, KPut [6] [2]), (1, KDel [5])]" "[6]"]
    small_example by (simp add: sstable_space_def visible_def deletes_def)

text \<open>As long as nothing is flushed, the store is a map: get finds the last value put and not deleted
  since.\<close>

theorem unflushed_store_is_a_map:
  assumes "snappy_ok snap unsnap" and "fresh_dir fs dir" and "all_fit ([], []) (map snd xs)"
    and "snd (foldl kv_abs ([], []) (map snd xs)) = []"
  shows "\<exists>s bs s'. kv_new fs dir = Some s \<and> kv_run snap unsnap s xs = Some (bs, s') \<and>
    kv_get unsnap s' k = Some (case foldl ideal Map.empty (map snd xs) k of Some v \<Rightarrow> (v \<noteq> [], v) | None \<Rightarrow> (False, []))"
proof -
  let ?a = "foldl kv_abs ([], []) (map snd xs)"
  obtain s where s: "kv_new fs dir = Some s" "kv_rep snap s ([], [])" using kv_new_rep [OF assms(2)] by blast
  have "visible ?a k = (case foldl ideal Map.empty (map snd xs) k of Some v \<Rightarrow> v | None \<Rightarrow> [])"
    using abs_ideal [OF assms(4)] assms(4) by (simp add: visible_def case_prod_unfold split: option.splits)
  with s kve.run_rep [of snap unsnap s "([], [])" xs k] assms(1,3) show ?thesis
    by (auto simp: kv_run_eq split: option.splits)
qed

theorem unflushed_store_is_a_map_witness:
  "\<exists>s bs s'. kv_new empty_fs ''data'' = Some s \<and>
    kv_run (\<lambda>x. x) (\<lambda>x. x) s [(0, KPut [5] [1]), (3, KPut [6] [2]), (1, KDel [5])] = Some (bs, s') \<and>
    kv_get (\<lambda>x. x) s' [5] = Some (False, [])"
  using unflushed_store_is_a_map [OF snappy_id fresh_empty [of "''data''"],
      of "[(0, KPut [5] [1]), (3, KPut [6] [2]), (1, KDel [5])]" "[5]"]
    small_example by (simp add: sstable_space_def)

text \<open>Closing a store and opening its directory again: get finds the value of the oldest table that has
  the key, and only for a key that no older table has, the value that was in the memtable. So a newer
  value of a key that was flushed before is lost.\<close>

theorem close_and_reopen:
  assumes "snappy_ok snap unsnap" and "kv_rep snap s (ps, ts)" and "small ps" and "length ts + 2 < two64"
  shows "\<exists>s'. kv_reopen snap s = Some s' \<and>
    kv_get unsnap s' k = Some (case map_of (concat ts) k of Some v \<Rightarrow> (v \<noteq> [], v)
      | None \<Rightarrow> (case map_of ps k of Some v \<Rightarrow> (v \<noteq> [], v) | None \<Rightarrow> (False, [])))"
proof -
  obtain s' where s': "kv_reopen snap s = Some s'" "kv_rep snap s' ([], if ps = [] then ts else ts @ [ps, ps])"
    using kv_reopen_rep [OF assms] by blast
  from kv_get_rep [OF assms(1) s'(2), of k] s'(1) show ?thesis
    by (auto simp: visible_def map_add_def split: option.splits if_splits)
qed

theorem close_and_reopen_witness:
  "\<exists>s s1 bs s2 s3. kv_new empty_fs ''data'' = Some s \<and> kv_run (\<lambda>x. x) (\<lambda>x. x) s [(0, KPut [5] [1])] = Some (bs, s1) \<and>
    kv_reopen (\<lambda>x. x) s1 = Some s2 \<and> kv_get (\<lambda>x. x) s2 [5] = Some (True, [1])"
proof -
  obtain s where s: "kv_new empty_fs ''data'' = Some s" "kv_rep (\<lambda>x. x) s ([], [])"
    using kv_new_rep [OF fresh_empty [of "''data''"]] by auto
  have fit: "kv_fits ([], []) (KPut [5] [1])" by (simp add: small_def)
  obtain s1 where s1: "kv_put (\<lambda>x. x) 0 s [5] [1] = Some s1" "kv_rep (\<lambda>x. x) s1 ([([5], [1])], [])"
    using kv_put_rep [OF snappy_id s(2) fit, of 0] by (auto simp: sstable_space_def)
  have "small [([5], [1])]" by (simp add: small_def)
  from close_and_reopen [OF snappy_id s1(2) this, of "[5]"] s(1) s1(1) show ?thesis by auto
qed

text \<open>C18. Deleting a key that is in the memtable and, with a value, in a table on disk reports success and
  leaves the key in the store: get finds the value on disk.\<close>

theorem deleted_key_reappears:
  assumes "snappy_ok snap unsnap" and "kv_rep snap s (ps, ts)" and "map_of ps k = Some v"
    and "map_of (concat ts) k = Some w" and "w \<noteq> []"
  shows "\<exists>s'. kv_del unsnap ones s k = Some (True, s') \<and> kv_get unsnap s' k = Some (True, w)"
proof -
  obtain s' where s': "kv_del unsnap ones s k = Some (True, s')" "kv_rep snap s' (al_del k ps, ts)"
    using kv_del_rep [OF assms(1,2), of ones k] assms(3) by (auto simp: deletes_def)
  have "sorted_kvs ps" using assms(2) mt.rep_sorted by (auto simp: kv_rep_def)
  then have "visible (al_del k ps, ts) k = w" using assms(4) by (simp add: visible_def map_of_al_del)
  with kv_get_rep [OF assms(1) s'(2), of k] s'(1) assms(5) show ?thesis by simp
qed

theorem deleted_key_reappears_witness:
  "\<exists>s s1 s2 s3 s4. kv_new empty_fs ''data'' = Some s \<and> kv_put (\<lambda>x. x) 0 s [5] [1] = Some s1 \<and>
    kv_flush (\<lambda>x. x) s1 = Some s2 \<and> kv_del (\<lambda>x. x) 0 s2 [5] = Some (True, s3) \<and> kv_get (\<lambda>x. x) s3 [5] = Some (True, [1])"
proof -
  obtain s where s: "kv_new empty_fs ''data'' = Some s" "kv_rep (\<lambda>x. x) s ([], [])"
    using kv_new_rep [OF fresh_empty [of "''data''"]] by auto
  have fit: "kv_fits ([], []) (KPut [5] [1])" by (simp add: small_def)
  obtain s1 where s1: "kv_put (\<lambda>x. x) 0 s [5] [1] = Some s1" "kv_rep (\<lambda>x. x) s1 ([([5], [1])], [])"
    using kv_put_rep [OF snappy_id s(2) fit, of 0] by (auto simp: sstable_space_def)
  have "small [([5], [1])]" by (simp add: small_def)
  from kv_flush_rep [OF snappy_id s1(2) this] obtain s2 where
    s2: "kv_flush (\<lambda>x. x) s1 = Some s2" "kv_rep (\<lambda>x. x) s2 ([([5], [1])], [[([5], [1])]])" by auto
  from deleted_key_reappears [OF snappy_id s2(2), of "[5]" "[1]" "[1]" 0] s(1) s1(1) s2(1) show ?thesis by auto
qed

end
