(* ===== verification/TxnStore.thy ===== *)
theory TxnStore
  imports KVStore
begin

text \<open>
  Writes of transactions: \<open>KVStore::put\<close> and \<open>KVStore::del\<close> with a transaction
  (\<open>include/storage/KVStore_new.h\<close>) and \<open>TransactionManager::Begin\<close>
  (\<open>src/transaction/transaction_manager.cpp\<close>), over the store, the log manager and the transaction map.

  A call of \<open>AppendLogRecord\<close> that finds no room sleeps; \<open>j\<close> is the number of steps that the flush thread
  makes until it is woken up. The identifier of a new transaction is what the timestamp server
  returned, or the argument of the other overload.
\<close>

definition enable_logging :: bool where
  "enable_logging = True"

text \<open>A whole call of \<open>AppendLogRecord\<close>; \<open>None\<close> also if it still sleeps after the wake-up.\<close>

definition append_call :: "nat \<Rightarrow> log_record \<Rightarrow> log_mgr \<Rightarrow> (log_mgr \<times> lsn) option" where
  "append_call j r log = do {
     (log1, res) \<leftarrow> append_record r log;
     (case res of
        Some l \<Rightarrow> Some (log1, l)
      | None \<Rightarrow> do {
          (log2, res2) \<leftarrow> append_wake r ((flush_thread_step ^^ j) log1);
          map_option (Pair log2) res2 }) }"

text \<open>\<open>auto lsn = log_manager_->AppendLogRecord(record); txn->set_prev_lsn(lsn);\<close>\<close>

definition log_for :: "nat \<Rightarrow> log_record \<Rightarrow> log_mgr \<times> transaction \<Rightarrow> (log_mgr \<times> transaction) option" where
  "log_for j r s = (case s of (log, txn) \<Rightarrow> do {
     (log1, l) \<leftarrow> append_call j r log;
     Some (log1, txn\<lparr>tx_prev_lsn := l\<rparr>) })"

definition push_write :: "write_record \<Rightarrow> transaction \<Rightarrow> transaction" where
  "push_write wr txn = txn\<lparr>tx_write_set := tx_write_set txn @ [wr]\<rparr>"

definition kvt_put :: "(bytes \<Rightarrow> bytes) \<Rightarrow> nat \<Rightarrow> nat \<Rightarrow> bool \<Rightarrow> bytes \<Rightarrow> bytes \<Rightarrow> kv_store \<times> log_mgr \<times> transaction \<Rightarrow>
    (kv_store \<times> log_mgr \<times> transaction) option" where
  "kvt_put snap j ones add_writeset key val st = (case st of (s, log, txn) \<Rightarrow> do {
     (log1, txn1) \<leftarrow>
       (if enable_logging
        then log_for j (record_of_kv (tx_id txn) (tx_prev_lsn txn) INSERT_REC key val) (log, txn) else Some (log, txn));
     txn2 \<leftarrow> (if add_writeset then do { wr \<leftarrow> write_record_insert key INSERT_TUPLE; Some (push_write wr txn1) } else Some txn1);
     s1 \<leftarrow> kv_put snap ones s key val;
     Some (s1, log1, txn2) })"

text \<open>Both branches of \<open>del\<close> remember the value that the key had in the write set. The branch for a key on disk logs
  that value first.\<close>

definition remember_delete :: "bool \<Rightarrow> bytes \<Rightarrow> bytes \<Rightarrow> transaction \<Rightarrow> transaction option" where
  "remember_delete add_writeset key val txn =
     (if add_writeset then do { wr \<leftarrow> write_record_delete key val DELETE_TUPLE; Some (push_write wr txn) } else Some txn)"

definition log_delete :: "nat \<Rightarrow> bool \<Rightarrow> bytes \<Rightarrow> bytes \<Rightarrow> log_mgr \<times> transaction \<Rightarrow> (log_mgr \<times> transaction) option" where
  "log_delete j add_writeset key val s = (case s of (log, txn) \<Rightarrow> do {
     (log1, txn1) \<leftarrow>
       (if enable_logging
        then log_for j (record_of_kv (tx_id txn) (tx_prev_lsn txn) DELETE_REC key val) (log, txn) else Some (log, txn));
     txn2 \<leftarrow> remember_delete add_writeset key val txn1;
     Some (log1, txn2) })"

text \<open>The branch for a key in the memtable makes its log record from \<open>memtable_.get(key).second.c_str()\<close>. The string is
  a temporary that is destroyed at the end of that declaration, and the record keeps the pointer (\<open>log_record.h:43\<close>), so
  \<open>AppendLogRecord\<close> copies from freed memory: undefined, whenever logging is on.\<close>

definition kvt_del :: "(bytes \<Rightarrow> bytes) \<Rightarrow> nat \<Rightarrow> nat \<Rightarrow> bool \<Rightarrow> bytes \<Rightarrow> kv_store \<times> log_mgr \<times> transaction \<Rightarrow>
    (bool \<times> kv_store \<times> log_mgr \<times> transaction) option" where
  "kvt_del unsnap j ones add_writeset key st = (case st of (s, log, txn) \<Rightarrow> do {
     has \<leftarrow> sl_contains (kv_mem s) key;
     (if has then do {
        (log1, txn1) \<leftarrow> (if enable_logging then None else Some (log, txn));
        old \<leftarrow> sl_get (kv_mem s) key;
        txn2 \<leftarrow> remember_delete add_writeset key (snd old) txn1;
        (b, m) \<leftarrow> sl_del (kv_mem s) key;
        Some (True, s\<lparr>kv_mem := m\<rparr>, log1, txn2) }
      else do {
        result \<leftarrow> ds_search unsnap (kv_disk s) key;
        (if fst result \<and> snd result \<noteq> [] then do {
           (log1, txn1) \<leftarrow> log_delete j add_writeset key (snd result) (log, txn);
           m \<leftarrow> sl_put ones (kv_mem s) key [];
           Some (True, s\<lparr>kv_mem := m\<rparr>, log1, txn1) }
         else Some (False, s, log, txn)) }) })"

text \<open>\<open>Begin\<close>: a null transaction pointer makes a new transaction.\<close>

definition tm_begin :: "bool \<Rightarrow> nat \<Rightarrow> txn_id \<Rightarrow> isolation_level \<Rightarrow> transaction option \<Rightarrow> log_mgr \<times> (txn_id \<rightharpoonup> transaction) \<Rightarrow>
    (log_mgr \<times> (txn_id \<rightharpoonup> transaction) \<times> transaction) option" where
  "tm_begin ndebug j i lvl t s = (case s of (log, txn_map) \<Rightarrow> do {
     let txn = (case t of Some txn \<Rightarrow> txn | None \<Rightarrow> transaction_new i lvl);
     (log1, txn1) \<leftarrow>
       (if enable_logging then do {
          r \<leftarrow> record_control ndebug (tx_id txn) (tx_prev_lsn txn) BEGIN_REC;
          log_for j r (log, txn) }
        else Some (log, txn));
     Some (log1, txn_map(tx_id txn1 \<mapsto> txn1), txn1) })"

section \<open>The log under a call\<close>

lemma log_run_trans: "log_run t qs u \<Longrightarrow> log_run s rs t \<Longrightarrow> log_run s (rs @ qs) u"
  by (induction rule: log_run.induct) (auto simp flip: append_assoc intro: log_run.intros)

lemma log_run_thread: "log_run s rs t \<Longrightarrow> log_run s rs ((flush_thread_step ^^ j) t)"
  by (induction j) (use log_snoc [OF _ thread] in fastforce)+

lemma append_call_run:
  assumes "append_call j r log = Some (log', l)" and "record_ok r"
  shows "log_run log [r\<lparr>rec_lsn := l\<rparr>] log'"
proof -
  obtain log1 res where 1: "append_record r log = Some (log1, res)" using assms(1) by (auto simp: append_call_def split: Option.bind_splits)
  show ?thesis
  proof (cases res)
    case (Some l')
    then have "log_step log [r\<lparr>rec_lsn := l\<rparr>] log'" using 1 assms by (auto simp: append_call_def intro: log_step.appended)
    from log_snoc [OF log_nil this] show ?thesis by simp
  next
    case None
    then have w: "append_wake r ((flush_thread_step ^^ j) log1) = Some (log', Some l)"
      using 1 assms(1) by (auto simp: append_call_def split: Option.bind_splits)
    have "log_step log [] log1" using log_step.full [OF assms(2)] 1 None by simp
    from log_snoc [OF log_nil this] have "log_run log [] ((flush_thread_step ^^ j) log1)" by (intro log_run_thread) simp
    from log_snoc [OF this log_step.woken [OF assms(2) w]] show ?thesis by simp
  qed
qed

text \<open>The call succeeds for some \<open>j\<close> when the flush thread runs.\<close>

lemma append_call_returns:
  assumes ok: "log_ok f0 n0 rs log" and r: "record_ok r" "unat (rec_size r) < log_buffer_size"
    and t: "lg_enable log" "lg_thread log \<noteq> FStopped"
  shows "\<exists>j \<le> 5. \<exists>log'. append_call j r log = Some (log', n0 + of_nat (length rs))"
proof (cases "fits r log")
  case True
  then show ?thesis
    using append_write_fits [OF r(1) _ True] ok by (auto simp: append_call_def append_record_def log_ok_def)
next
  case False
  let ?log = "log\<lparr>lg_need := True\<rparr>"
  have ok1: "log_ok f0 n0 rs ?log" using ok by (simp add: log_ok_fields)
  obtain j where j: "j \<le> 4" "lg_thread ((flush_thread_step ^^ j) ?log) = FWait" using reaches_wait [of ?log] t by auto
  from room_after_wait [OF ok1 r j(2)]
  have "\<exists>log'. append_call (Suc j) r log = Some (log', n0 + of_nat (length rs))"
    using False by (auto simp: append_call_def append_record_def simp del: funpow.simps)
  with j(1) show ?thesis by (intro exI [of _ "Suc j"]) simp
qed


lemma record_of_kv_back:
  assumes "ty = INSERT_REC \<or> ty = DELETE_REC" and "32 + length k + length v < 2 ^ 31"
  shows "comes_back (record_of_kv i prev ty k v)"
  using record_of_kv_ok [OF assms] assms(1) by (auto simp: comes_back_def record_of_kv_def record_data_def)

section \<open>Runs of transactions\<close>

record txn_store =
  ts_kv :: kv_store
  ts_log :: log_mgr
  ts_txns :: "txn_id \<rightharpoonup> transaction"

text \<open>Calls of any transactions in any order, with steps of the flush thread between them. A new
  transaction gets a fresh identifier. The last two conditions bound sizes.\<close>

inductive txn_run :: "(bytes \<Rightarrow> bytes) \<Rightarrow> (bytes \<Rightarrow> bytes) \<Rightarrow> txn_store \<Rightarrow> txn_store \<Rightarrow> bool" for snap unsnap where
  txn_nil: "txn_run snap unsnap s s"
| txn_begin: "txn_run snap unsnap s t \<Longrightarrow> ts_txns t i = None \<Longrightarrow>
    tm_begin ndebug j i lvl None (ts_log t, ts_txns t) = Some (log', txns', txn') \<Longrightarrow>
    txn_run snap unsnap s (t\<lparr>ts_log := log', ts_txns := txns'\<rparr>)"
| txn_put: "txn_run snap unsnap s t \<Longrightarrow> ts_txns t i = Some txn \<Longrightarrow>
    kvt_put snap j ones w k v (ts_kv t, ts_log t, txn) = Some (kv', log', txn') \<Longrightarrow>
    32 + length k + length v < 2 ^ 31 \<Longrightarrow> \<forall>a. kv_rep snap (ts_kv t) a \<longrightarrow> kv_fits a (KPut k v) \<Longrightarrow>
    txn_run snap unsnap s \<lparr>ts_kv = kv', ts_log = log', ts_txns = (ts_txns t)(i \<mapsto> txn')\<rparr>"
| txn_del: "txn_run snap unsnap s t \<Longrightarrow> ts_txns t i = Some txn \<Longrightarrow>
    kvt_del unsnap j ones w k (ts_kv t, ts_log t, txn) = Some (b, kv', log', txn') \<Longrightarrow>
    \<forall>a. kv_rep snap (ts_kv t) a \<longrightarrow> 32 + length k + length (visible a k) < 2 ^ 31 \<Longrightarrow>
    txn_run snap unsnap s \<lparr>ts_kv = kv', ts_log = log', ts_txns = (ts_txns t)(i \<mapsto> txn')\<rparr>"
| txn_thread: "txn_run snap unsnap s t \<Longrightarrow> txn_run snap unsnap s (t\<lparr>ts_log := flush_thread_step (ts_log t)\<rparr>)"

text \<open>The store operations that a log stands for, and the LSN of the last record of a transaction.\<close>

definition op_of :: "log_record \<Rightarrow> kv_op list" where
  "op_of r = (case rec_type r of INSERT_REC \<Rightarrow> [KPut (rec_key r) (rec_value r)] | DELETE_REC \<Rightarrow> [KDel (rec_key r)] | _ \<Rightarrow> [])"

abbreviation ops_of :: "log_record list \<Rightarrow> kv_op list" where
  "ops_of rs \<equiv> concat (map op_of rs)"

definition last_of :: "txn_id \<Rightarrow> log_record list \<Rightarrow> lsn" where
  "last_of i rs = (case find (\<lambda>r. rec_txn r = i) (rev rs) of Some r \<Rightarrow> rec_lsn r | None \<Rightarrow> invalid_lsn)"

lemma op_of_lsn [simp]: "op_of (r\<lparr>rec_lsn := l\<rparr>) = op_of r"
  by (cases "rec_type r") (simp_all add: op_of_def)

lemma last_of_snoc: "last_of i (rs @ [r]) = (if rec_txn r = i then rec_lsn r else last_of i rs)"
  by (simp add: last_of_def)

lemma last_of_fresh: "\<forall>r \<in> set rs. rec_txn r \<noteq> i \<Longrightarrow> last_of i rs = invalid_lsn"
proof -
  assume "\<forall>r \<in> set rs. rec_txn r \<noteq> i"
  then have "find (\<lambda>r. rec_txn r = i) (rev rs) = None" by (simp add: find_None_iff)
  then show "last_of i rs = invalid_lsn" by (simp add: last_of_def)
qed

definition chained :: "log_record list \<Rightarrow> bool" where
  "chained rs \<longleftrightarrow> (\<forall>n < length rs. rec_prev (rs ! n) = last_of (rec_txn (rs ! n)) (take n rs))"

lemma chained_snoc: "chained (rs @ [r]) \<longleftrightarrow> chained rs \<and> rec_prev r = last_of (rec_txn r) rs"
proof -
  have "(\<forall>n < length rs. rec_prev ((rs @ [r]) ! n) = last_of (rec_txn ((rs @ [r]) ! n)) (take n (rs @ [r]))) \<longleftrightarrow>
      (\<forall>n < length rs. rec_prev (rs ! n) = last_of (rec_txn (rs ! n)) (take n rs))"
    by (intro all_cong) (simp add: nth_append)
  then show ?thesis unfolding chained_def by (simp add: All_less_Suc conj_commute)
qed

definition txn_store_ok :: "(bytes \<Rightarrow> bytes) \<Rightarrow> lsn \<Rightarrow> log_record list \<Rightarrow> txn_store \<Rightarrow> bool" where
  "txn_store_ok snap n0 rs s \<longleftrightarrow> log_run (set_next_lsn n0 (log_manager_new [])) rs (ts_log s) \<and> chained rs \<and>
     (\<forall>i txn. ts_txns s i = Some txn \<longrightarrow> tx_id txn = i \<and> tx_prev_lsn txn = last_of i rs) \<and>
     (\<forall>i. ts_txns s i = None \<longrightarrow> (\<forall>r \<in> set rs. rec_txn r \<noteq> i)) \<and> (\<forall>r \<in> set rs. rec_type r \<noteq> PREPARED_REC) \<and>
     all_fit ([], []) (ops_of rs) \<and> kv_rep snap (ts_kv s) (foldl kv_abs ([], []) (ops_of rs))"

text \<open>A call of transaction \<open>i\<close> that logs \<open>r\<close> and applies the operation that \<open>r\<close> stands for.\<close>

lemma txn_store_ok_log:
  assumes ok: "txn_store_ok snap n0 rs s" and r: "comes_back r" "rec_txn r = i" "rec_prev r = last_of i rs"
    and log: "log_for j r (ts_log s, txn) = Some (log', txn')" and id: "tx_id txn = i"
    and t: "tx_id txn'' = tx_id txn'" "tx_prev_lsn txn'' = tx_prev_lsn txn'"
    and fit: "all_fit (foldl kv_abs ([], []) (ops_of rs)) (op_of r)"
    and kv: "kv_rep snap kv' (foldl kv_abs (foldl kv_abs ([], []) (ops_of rs)) (op_of r))"
  shows "\<exists>rs'. txn_store_ok snap n0 rs' \<lparr>ts_kv = kv', ts_log = log', ts_txns = (ts_txns s)(i \<mapsto> txn'')\<rparr>"
proof -
  obtain l where l: "append_call j r (ts_log s) = Some (log', l)" "txn' = txn\<lparr>tx_prev_lsn := l\<rparr>"
    using log by (auto simp: log_for_def split: Option.bind_splits)
  let ?r = "r\<lparr>rec_lsn := l\<rparr>"
  have "log_run (set_next_lsn n0 (log_manager_new [])) (rs @ [?r]) log'"
    using log_run_trans [OF append_call_run [OF l(1) comes_back_ok [OF r(1)]]] ok by (simp add: txn_store_ok_def)
  then have "txn_store_ok snap n0 (rs @ [?r]) \<lparr>ts_kv = kv', ts_log = log', ts_txns = (ts_txns s)(i \<mapsto> txn'')\<rparr>"
    using ok r id t l(2) kv fit by (auto simp: txn_store_ok_def comes_back_def chained_snoc last_of_snoc all_fit_append)
  then show ?thesis by blast
qed

lemma log_delete_fields:
  assumes "log_delete j w k v (log, txn) = Some (log', txn')"
  shows "\<exists>txn1. log_for j (record_of_kv (tx_id txn) (tx_prev_lsn txn) DELETE_REC k v) (log, txn) = Some (log', txn1) \<and>
    tx_id txn' = tx_id txn1 \<and> tx_prev_lsn txn' = tx_prev_lsn txn1"
  using assms by (auto simp: log_delete_def remember_delete_def enable_logging_def write_record_delete_def push_write_def
    split: Option.bind_splits if_splits)

lemma kvt_put_fields:
  assumes "kvt_put snap j ones w k v (s, log, txn) = Some (s', log', txn')"
  shows "kv_put snap ones s k v = Some s' \<and>
    (\<exists>txn1. log_for j (record_of_kv (tx_id txn) (tx_prev_lsn txn) INSERT_REC k v) (log, txn) = Some (log', txn1) \<and>
      tx_id txn' = tx_id txn1 \<and> tx_prev_lsn txn' = tx_prev_lsn txn1)"
  using assms by (auto simp: kvt_put_def enable_logging_def write_record_insert_def push_write_def split: Option.bind_splits if_splits)

text \<open>A transactional delete that is defined does to the store what \<open>KVStore_beta::del\<close> does to a key that is not in the
  memtable, and logs the value that was visible.\<close>

lemma kvt_del_fields:
  assumes snap: "snappy_ok snap unsnap" and rep: "kv_rep snap s a"
    and del: "kvt_del unsnap j ones w k (s, log, txn) = Some (b, s', log', txn')"
  shows "kv_del unsnap ones s k = Some (b, s')" and "b = deletes a k"
    and "if b then log_delete j w k (visible a k) (log, txn) = Some (log', txn') else log' = log \<and> txn' = txn"
proof -
  obtain ps ts where a: "a = (ps, ts)" by (cases a)
  have mem: "sl_rep (kv_mem s) ps" using rep by (simp add: kv_rep_def a)
  note reads = mt.has_rep [OF mem, of k] disk_search [OF snap rep [unfolded a], of k]
  have "map_of ps k = None" using del reads by (cases "map_of ps k") (simp_all add: kvt_del_def enable_logging_def)
  with del reads have "kv_del unsnap ones s k = Some (b, s') \<and>
    (if b then log_delete j w k (visible a k) (log, txn) = Some (log', txn') else log' = log \<and> txn' = txn)"
    by (auto simp: kvt_del_def kv_del_def visible_def a split: Option.bind_splits option.splits if_splits)
  moreover from this kv_del_rep [OF snap rep, of ones k] have "b = deletes a k" by auto
  ultimately show "kv_del unsnap ones s k = Some (b, s')" "b = deletes a k"
    "if b then log_delete j w k (visible a k) (log, txn) = Some (log', txn') else log' = log \<and> txn' = txn" by auto
qed

text \<open>On a key in the memtable it is undefined.\<close>

lemma kvt_del_in_memtable:
  assumes "kv_rep snap s a" and "map_of (fst a) k \<noteq> None"
  shows "kvt_del unsnap j ones w k (s, log, txn) = None"
proof -
  have "sl_rep (kv_mem s) (fst a)" using assms(1) by (simp add: kv_rep_def)
  from mt.has_rep [OF this, of k] assms(2) show ?thesis by (simp add: kvt_del_def enable_logging_def)
qed

lemma txn_store_ok_begin:
  assumes ok: "txn_store_ok snap n0 rs t" and fresh: "ts_txns t i = None"
    and call: "tm_begin ndebug j i lvl None (ts_log t, ts_txns t) = Some (log', txns', txn')"
  shows "\<exists>rs'. txn_store_ok snap n0 rs' (t\<lparr>ts_log := log', ts_txns := txns'\<rparr>)"
proof -
  obtain r where r: "record_control ndebug i invalid_lsn BEGIN_REC = Some r" "comes_back r" "rec_type r = BEGIN_REC"
      "rec_txn r = i" "rec_prev r = invalid_lsn"
    using record_control_ok [of BEGIN_REC ndebug i invalid_lsn] by (auto simp: comes_back_def)
  have log: "log_for j r (ts_log t, transaction_new i lvl) = Some (log', txn')" "txns' = (ts_txns t)(tx_id txn' \<mapsto> txn')"
    using call r(1) by (auto simp: tm_begin_def enable_logging_def transaction_new_def split: Option.bind_splits)
  then have id: "tx_id txn' = i" by (auto simp: log_for_def transaction_new_def split: Option.bind_splits)
  have "rec_prev r = last_of i rs" using r(5) last_of_fresh [of rs i] ok fresh by (simp add: txn_store_ok_def)
  moreover have "kv_rep snap (ts_kv t) (foldl kv_abs (foldl kv_abs ([], []) (ops_of rs)) (op_of r))"
    using ok r(3) by (simp add: txn_store_ok_def op_of_def)
  moreover have "all_fit (foldl kv_abs ([], []) (ops_of rs)) (op_of r)" using r(3) by (simp add: op_of_def)
  moreover have "tx_id (transaction_new i lvl) = i" by (simp add: transaction_new_def)
  ultimately have "\<exists>rs'. txn_store_ok snap n0 rs' \<lparr>ts_kv = ts_kv t, ts_log = log', ts_txns = (ts_txns t)(i \<mapsto> txn')\<rparr>"
    using txn_store_ok_log [OF ok r(2,4) _ log(1) _ refl refl] by blast
  moreover have "t\<lparr>ts_log := log', ts_txns := txns'\<rparr> = \<lparr>ts_kv = ts_kv t, ts_log = log', ts_txns = (ts_txns t)(i \<mapsto> txn')\<rparr>"
    using log(2) id by simp
  ultimately show ?thesis by simp
qed

lemma txn_store_ok_put:
  assumes snap: "snappy_ok snap unsnap" and ok: "txn_store_ok snap n0 rs t" and t: "ts_txns t i = Some txn"
    and call: "kvt_put snap j ones w k v (ts_kv t, ts_log t, txn) = Some (kv', log', txn')"
    and size: "32 + length k + length v < 2 ^ 31" and fits: "\<forall>a. kv_rep snap (ts_kv t) a \<longrightarrow> kv_fits a (KPut k v)"
  shows "\<exists>rs'. txn_store_ok snap n0 rs' \<lparr>ts_kv = kv', ts_log = log', ts_txns = (ts_txns t)(i \<mapsto> txn')\<rparr>"
proof -
  let ?a = "foldl kv_abs ([], []) (ops_of rs)" and ?r = "record_of_kv (tx_id txn) (tx_prev_lsn txn) INSERT_REC k v"
  have rep: "kv_rep snap (ts_kv t) ?a" and txn: "tx_id txn = i" "tx_prev_lsn txn = last_of i rs"
    using ok t by (auto simp: txn_store_ok_def)
  obtain txn1 where put: "kv_put snap ones (ts_kv t) k v = Some kv'"
      "log_for j ?r (ts_log t, txn) = Some (log', txn1)" "tx_id txn' = tx_id txn1" "tx_prev_lsn txn' = tx_prev_lsn txn1"
    using kvt_put_fields [OF call] by blast
  have "kv_rep snap kv' (kv_abs ?a (KPut k v))"
    using kv_put_rep [OF snap, of "ts_kv t" "fst ?a" "snd ?a" k v ones] rep fits put(1) by auto
  then have "kv_rep snap kv' (foldl kv_abs ?a (op_of ?r))" by (simp add: op_of_def record_of_kv_def record_data_def)
  moreover have "kv_fits ?a (KPut k v)" using rep fits by blast
  then have "all_fit ?a (op_of ?r)" by (simp add: op_of_def record_of_kv_def record_data_def)
  ultimately show ?thesis
    using txn_store_ok_log [OF ok record_of_kv_back [OF _ size] _ _ put(2) txn(1) put(3,4)] txn
    by (simp add: record_of_kv_def record_data_def)
qed

lemma txn_run_ok:
  assumes "txn_run snap unsnap s0 s" and snap: "snappy_ok snap unsnap" and "txn_store_ok snap n0 [] s0"
  shows "\<exists>rs. txn_store_ok snap n0 rs s"
  using assms(1,3)
proof (induction rule: txn_run.induct)
  case (txn_begin s t i ndebug j lvl log' txns' txn')
  then show ?case using txn_store_ok_begin by blast
next
  case (txn_put s t i txn j ones w k v kv' log' txn')
  then show ?case using txn_store_ok_put [OF snap] by blast
next
  case (txn_del s t i txn j ones w k b kv' log' txn')
  then obtain rs where ok: "txn_store_ok snap n0 rs t" by blast
  let ?a = "foldl kv_abs ([], []) (ops_of rs)"
  let ?r = "record_of_kv (tx_id txn) (tx_prev_lsn txn) DELETE_REC k (visible ?a k)"
  have rep: "kv_rep snap (ts_kv t) ?a" and txn: "tx_id txn = i" "tx_prev_lsn txn = last_of i rs"
    using ok txn_del.hyps(2) by (auto simp: txn_store_ok_def)
  note del = kvt_del_fields [OF snap rep txn_del.hyps(3)]
  have kv: "kv_rep snap kv' (kv_abs ?a (KDel k))" using kv_del_rep [OF snap rep, of ones k] del(1) by auto
  show ?case
  proof (cases b)
    case True
    then obtain txn1 where log: "log_for j ?r (ts_log t, txn) = Some (log', txn1)" "tx_id txn' = tx_id txn1"
        "tx_prev_lsn txn' = tx_prev_lsn txn1"
      using del(3) log_delete_fields by fastforce
    have size: "32 + length k + length (visible ?a k) < 2 ^ 31" using txn_del.hyps(4) rep by blast
    have "kv_rep snap kv' (foldl kv_abs ?a (op_of ?r))" using kv by (simp add: op_of_def record_of_kv_def record_data_def)
    moreover have "all_fit ?a (op_of ?r)"
      by (cases ?a) (simp add: op_of_def record_of_kv_def record_data_def)
    ultimately show ?thesis
      using txn_store_ok_log [OF ok record_of_kv_back [OF _ size] _ _ log(1) txn(1) log(2,3)] txn
      by (simp add: record_of_kv_def record_data_def)
  next
    case False
    then have "kv_abs ?a (KDel k) = ?a" using del(2) by (cases ?a) (simp add: deletes_def)
    then have "txn_store_ok snap n0 rs \<lparr>ts_kv = kv', ts_log = log', ts_txns = (ts_txns t)(i \<mapsto> txn')\<rparr>"
      using ok False del(3) kv txn txn_del.hyps(2) by (auto simp: txn_store_ok_def)
    then show ?thesis by blast
  qed
next
  case (txn_thread s t)
  then obtain rs where ok: "txn_store_ok snap n0 rs t" by blast
  then have "log_run (set_next_lsn n0 (log_manager_new [])) (rs @ []) (flush_thread_step (ts_log t))"
    using log_snoc [OF _ thread] unfolding txn_store_ok_def by blast
  then have "txn_store_ok snap n0 rs (t\<lparr>ts_log := flush_thread_step (ts_log t)\<rparr>)" using ok by (simp add: txn_store_ok_def)
  then show ?case by blast
qed auto

definition txn_store_new :: "kv_store \<Rightarrow> lsn \<Rightarrow> txn_store" where
  "txn_store_new kv n0 = \<lparr>ts_kv = kv, ts_log = set_next_lsn n0 (log_manager_new []), ts_txns = Map.empty\<rparr>"

lemma txn_store_new_ok:
  assumes "fresh_dir fs dir" and "kv_new fs dir = Some kv"
  shows "txn_store_ok snap n0 [] (txn_store_new kv n0)"
  using kv_new_rep [OF assms(1), of snap] assms(2)
  by (auto simp: txn_store_ok_def txn_store_new_def chained_def intro: log_nil)

text \<open>The flush thread runs as long as nobody stops it, so no call sleeps for ever.\<close>

definition log_alive :: "log_mgr \<Rightarrow> bool" where
  "log_alive log \<longleftrightarrow> lg_enable log \<and> lg_thread log \<noteq> FStopped"

lemma log_alive_steps:
  "log_alive log \<Longrightarrow> log_alive ((flush_thread_step ^^ j) log)"
  "log_alive log \<Longrightarrow> append_record r log = Some (log', res) \<Longrightarrow> log_alive log'"
  "log_alive log \<Longrightarrow> append_wake r log = Some (log', res) \<Longrightarrow> log_alive log'"
proof -
  have "log_alive log \<Longrightarrow> log_alive (flush_thread_step log)" for log
    by (auto simp: log_alive_def flush_thread_step_def swap_buffer_def split: flush_phase.splits)
  then show "log_alive log \<Longrightarrow> log_alive ((flush_thread_step ^^ j) log)" by (induction j) auto
qed (auto simp: log_alive_def append_record_def append_wake_def append_write_def split: if_splits Option.bind_splits)

lemma append_call_alive: "append_call j r log = Some (log', l) \<Longrightarrow> log_alive log \<Longrightarrow> log_alive log'"
proof -
  assume call: "append_call j r log = Some (log', l)" and alive: "log_alive log"
  then obtain log1 res where 1: "append_record r log = Some (log1, res)" by (auto simp: append_call_def split: Option.bind_splits)
  then have "log_alive log1" by (rule log_alive_steps(2) [OF alive])
  then have 2: "log_alive ((flush_thread_step ^^ j) log1)" by (rule log_alive_steps(1))
  show "log_alive log'"
  proof (cases res)
    case (Some l')
    then show ?thesis using call 1 \<open>log_alive log1\<close> by (simp add: append_call_def)
  next
    case None
    then obtain res2 where "append_wake r ((flush_thread_step ^^ j) log1) = Some (log', res2)"
      using call 1 by (auto simp: append_call_def split: Option.bind_splits)
    then show ?thesis by (rule log_alive_steps(3) [OF 2])
  qed
qed

lemma log_for_alive: "log_for j r (log, txn) = Some (log', txn') \<Longrightarrow> log_alive log \<Longrightarrow> log_alive log'"
  by (auto simp: log_for_def split: Option.bind_splits intro: append_call_alive)

lemma txn_run_alive:
  assumes "txn_run snap unsnap s0 s" and snap: "snappy_ok snap unsnap" and "txn_store_ok snap n0 [] s0" and "log_alive (ts_log s0)"
  shows "log_alive (ts_log s)"
  using assms(1,3,4)
proof (induction rule: txn_run.induct)
  case (txn_begin s t i ndebug j lvl log' txns' txn')
  then show ?case
    by (auto simp: tm_begin_def enable_logging_def Let_def split: Option.bind_splits intro: log_for_alive)
next
  case (txn_put s t i txn j ones w k v kv' log' txn')
  with kvt_put_fields [OF txn_put.hyps(3)] show ?case by (auto intro: log_for_alive)
next
  case (txn_del s t i txn j ones w k b kv' log' txn')
  obtain rs where "txn_store_ok snap n0 rs t" using txn_run_ok [OF txn_del.hyps(1) snap txn_del.prems(1)] by blast
  then have rep: "kv_rep snap (ts_kv t) (foldl kv_abs ([], []) (ops_of rs))" by (simp add: txn_store_ok_def)
  from kvt_del_fields(3) [OF snap rep txn_del.hyps(3)] txn_del.IH [OF txn_del.prems] show ?case
    by (cases b) (auto dest!: log_delete_fields intro: log_for_alive)
next
  case (txn_thread s t)
  then show ?case using log_alive_steps(1) [of "ts_log t" 1] by simp
qed auto

lemma log_for_returns:
  assumes "txn_store_ok snap n0 rs s" and "log_alive (ts_log s)" and "record_ok r" and "unat (rec_size r) < log_buffer_size"
  shows "\<exists>j \<le> 5. \<exists>log'. log_for j r (ts_log s, txn) = Some (log', txn\<lparr>tx_prev_lsn := n0 + of_nat (length rs)\<rparr>) \<and>
    log_run (ts_log s) [r\<lparr>rec_lsn := n0 + of_nat (length rs)\<rparr>] log'"
proof -
  have "log_ok [] n0 rs (ts_log s)" using assms(1) log_reach by (simp add: txn_store_ok_def)
  from append_call_returns [OF this assms(3,4)] assms(2) obtain j log' where
    j: "j \<le> 5" "append_call j r (ts_log s) = Some (log', n0 + of_nat (length rs))" by (auto simp: log_alive_def)
  from append_call_run [OF this(2) assms(3)] j show ?thesis by (intro exI [of _ j]) (simp add: log_for_def)
qed

lemma size_of_kv:
  assumes "32 + length k + length v < log_buffer_size" and "ty = INSERT_REC \<or> ty = DELETE_REC"
  shows "record_ok (record_of_kv i prev ty k v)" "unat (rec_size (record_of_kv i prev ty k v)) < log_buffer_size"
proof -
  show ok: "record_ok (record_of_kv i prev ty k v)"
    using assms by (intro record_of_kv_ok) (simp_all add: log_buffer_size_def)
  have "has_payload (record_of_kv i prev ty k v)" using assms(2) by (auto simp: has_payload_def record_of_kv_def record_data_def)
  from payload_image(4) [OF ok this] assms(1) show "unat (rec_size (record_of_kv i prev ty k v)) < log_buffer_size"
    by (simp add: record_of_kv_def record_data_def)
qed

lemma put_returns:
  assumes snap: "snappy_ok snap unsnap" and ok: "txn_store_ok snap n0 rs s" and alive: "log_alive (ts_log s)"
    and txn: "ts_txns s i = Some txn" and size: "32 + length k + length v < log_buffer_size"
    and fits: "\<forall>a. kv_rep snap (ts_kv s) a \<longrightarrow> kv_fits a (KPut k v)"
  shows "\<exists>j \<le> 5. \<exists>kv' log' txn'. kvt_put snap j ones w k v (ts_kv s, ts_log s, txn) = Some (kv', log', txn') \<and>
    log_run (ts_log s) [(record_of_kv i (tx_prev_lsn txn) INSERT_REC k v)\<lparr>rec_lsn := n0 + of_nat (length rs)\<rparr>] log' \<and>
    tx_prev_lsn txn' = n0 + of_nat (length rs) \<and>
    tx_write_set txn' = tx_write_set txn @ (if w then [\<lparr>wr_type = INSERT_TUPLE, wr_key = k, wr_value = []\<rparr>] else [])"
proof -
  let ?a = "foldl kv_abs ([], []) (ops_of rs)"
  have rep: "kv_rep snap (ts_kv s) ?a" and id: "tx_id txn = i" using ok txn by (auto simp: txn_store_ok_def)
  obtain kv' where "kv_put snap ones (ts_kv s) k v = Some kv'"
    using kv_put_rep [OF snap, of "ts_kv s" "fst ?a" "snd ?a" k v ones] rep fits by auto
  moreover obtain j log' where "j \<le> 5" "log_for j (record_of_kv i (tx_prev_lsn txn) INSERT_REC k v) (ts_log s, txn) =
      Some (log', txn\<lparr>tx_prev_lsn := n0 + of_nat (length rs)\<rparr>)"
      "log_run (ts_log s) [(record_of_kv i (tx_prev_lsn txn) INSERT_REC k v)\<lparr>rec_lsn := n0 + of_nat (length rs)\<rparr>] log'"
    using log_for_returns [OF ok alive size_of_kv [OF size]] by blast
  ultimately show ?thesis
    by (intro exI [of _ j]) (simp add: kvt_put_def enable_logging_def write_record_insert_def push_write_def id)
qed

text \<open>What \<open>del\<close> answers for a key that is not in the memtable.\<close>

lemma del_returns:
  assumes snap: "snappy_ok snap unsnap" and ok: "txn_store_ok snap n0 rs s" and alive: "log_alive (ts_log s)"
    and txn: "ts_txns s i = Some txn" and a: "kv_rep snap (ts_kv s) a" and size: "32 + length k + length (visible a k) < log_buffer_size"
    and mem: "map_of (fst a) k = None"
  shows "if deletes a k
    then \<exists>j \<le> 5. \<exists>kv' log' txn'. kvt_del unsnap j ones w k (ts_kv s, ts_log s, txn) = Some (True, kv', log', txn') \<and>
      log_run (ts_log s) [(record_of_kv i (tx_prev_lsn txn) DELETE_REC k (visible a k))\<lparr>rec_lsn := n0 + of_nat (length rs)\<rparr>] log' \<and>
      tx_prev_lsn txn' = n0 + of_nat (length rs) \<and>
      tx_write_set txn' = tx_write_set txn @ (if w then [\<lparr>wr_type = DELETE_TUPLE, wr_key = k, wr_value = visible a k\<rparr>] else [])
    else \<forall>j. kvt_del unsnap j ones w k (ts_kv s, ts_log s, txn) = Some (False, ts_kv s, ts_log s, txn)"
proof -
  obtain ps ts where ps: "a = (ps, ts)" by (cases a)
  have rep: "sl_rep (kv_mem (ts_kv s)) ps" using a by (simp add: kv_rep_def ps)
  have id: "tx_id txn = i" using ok txn by (auto simp: txn_store_ok_def)
  note reads = mt.has_rep [OF rep, of k] disk_search [OF snap a [unfolded ps], of k]
  obtain j log' where j: "j \<le> 5" "log_for j (record_of_kv i (tx_prev_lsn txn) DELETE_REC k (visible a k)) (ts_log s, txn) =
      Some (log', txn\<lparr>tx_prev_lsn := n0 + of_nat (length rs)\<rparr>)"
      "log_run (ts_log s) [(record_of_kv i (tx_prev_lsn txn) DELETE_REC k (visible a k))\<lparr>rec_lsn := n0 + of_nat (length rs)\<rparr>] log'"
    using log_for_returns [OF ok alive size_of_kv [OF size]] by blast
  obtain txn' where d: "log_delete j w k (visible a k) (ts_log s, txn) = Some (log', txn')" "tx_prev_lsn txn' = n0 + of_nat (length rs)"
      "tx_write_set txn' = tx_write_set txn @ (if w then [\<lparr>wr_type = DELETE_TUPLE, wr_key = k, wr_value = visible a k\<rparr>] else [])"
    using j(2) by (cases w) (auto simp: log_delete_def remember_delete_def enable_logging_def write_record_delete_def push_write_def id)
  obtain m where m: "sl_put ones (kv_mem (ts_kv s)) k [] = Some m" using mt.put_rep [OF rep, of ones k "[]"] by blast
  show ?thesis
  proof (cases "deletes a k")
    case True
    then obtain v where v: "map_of (concat ts) k = Some v" "v \<noteq> []" "visible a k = v"
      using mem by (auto simp: deletes_def visible_def ps split: option.splits)
    then have "kvt_del unsnap j ones w k (ts_kv s, ts_log s, txn) = Some (True, (ts_kv s)\<lparr>kv_mem := m\<rparr>, log', txn')"
      using d(1) reads m mem by (simp add: kvt_del_def ps)
    with True j(1,3) d(2,3) show ?thesis by auto
  next
    case False
    then have "map_of (concat ts) k = None \<or> map_of (concat ts) k = Some []"
      using mem by (auto simp: deletes_def visible_def ps split: option.splits)
    then show ?thesis using False reads mem by (auto simp: kvt_del_def ps)
  qed
qed

lemma begin_returns:
  assumes ok: "txn_store_ok snap n0 rs s" and alive: "log_alive (ts_log s)"
  shows "\<exists>j \<le> 5. \<exists>log'. tm_begin ndebug j i lvl None (ts_log s, ts_txns s) =
    Some (log', (ts_txns s)(i \<mapsto> (transaction_new i lvl)\<lparr>tx_prev_lsn := n0 + of_nat (length rs)\<rparr>),
      (transaction_new i lvl)\<lparr>tx_prev_lsn := n0 + of_nat (length rs)\<rparr>) \<and>
    (\<exists>r. record_control ndebug i invalid_lsn BEGIN_REC = Some r \<and>
      log_run (ts_log s) [r\<lparr>rec_lsn := n0 + of_nat (length rs)\<rparr>] log')"
proof -
  let ?t = "transaction_new i lvl"
  have t: "tx_id ?t = i" "tx_prev_lsn ?t = invalid_lsn" by (simp_all add: transaction_new_def)
  obtain r where r: "record_control ndebug i invalid_lsn BEGIN_REC = Some r" "record_ok r" "rec_type r = BEGIN_REC"
    using record_control_ok [of BEGIN_REC ndebug i invalid_lsn] by auto
  have "unat (rec_size r) < log_buffer_size"
    using r(2,3) by (simp add: record_ok_def has_payload_def log_buffer_size_def)
  from log_for_returns [OF ok alive r(2) this, of ?t] obtain j log' where
    l: "j \<le> 5" "log_for j r (ts_log s, ?t) = Some (log', ?t\<lparr>tx_prev_lsn := n0 + of_nat (length rs)\<rparr>)"
      "log_run (ts_log s) [r\<lparr>rec_lsn := n0 + of_nat (length rs)\<rparr>] log'" by blast
  then have "tm_begin ndebug j i lvl None (ts_log s, ts_txns s) =
    Some (log', (ts_txns s)(i \<mapsto> ?t\<lparr>tx_prev_lsn := n0 + of_nat (length rs)\<rparr>), ?t\<lparr>tx_prev_lsn := n0 + of_nat (length rs)\<rparr>)"
    using r(1) t by (simp add: tm_begin_def enable_logging_def)
  with l(1,3) r(1) show ?thesis by blast
qed

lemma tm_begin_log:
  assumes "tm_begin ndebug j i lvl None (log, txns) = Some (log', txns', txn')"
  shows "\<exists>r l. record_control ndebug i invalid_lsn BEGIN_REC = Some r \<and> append_call j r log = Some (log', l) \<and> tx_prev_lsn txn' = l"
  using assms by (auto simp: tm_begin_def enable_logging_def log_for_def transaction_new_def Let_def split: Option.bind_splits)

text \<open>A transaction that puts one pair into an empty store.\<close>

definition demo_log :: "log_record list" where
  "demo_log = [record_default\<lparr>rec_size := 24, rec_lsn := 0, rec_txn := 7, rec_type := BEGIN_REC\<rparr>,
     (record_of_kv 7 0 INSERT_REC [5] [1])\<lparr>rec_lsn := 1\<rparr>]"

lemma demo_txn:
  "\<exists>kv s txn. kv_new empty_fs ''data'' = Some kv \<and> txn_run (\<lambda>x. x) (\<lambda>x. x) (txn_store_new kv 0) s \<and>
     ts_txns s 7 = Some txn \<and> tx_write_set txn = [\<lparr>wr_type = INSERT_TUPLE, wr_key = [5], wr_value = []\<rparr>] \<and>
     log_alive (ts_log s) \<and> kv_rep (\<lambda>x. x) (ts_kv s) ([([5], [1])], []) \<and>
     log_run (set_next_lsn 0 (log_manager_new [])) demo_log (ts_log s)"
proof -
  obtain kv where kv: "kv_new empty_fs ''data'' = Some kv" "kv_rep (\<lambda>x. x) kv ([], [])"
    using kv_new_rep [OF fresh_empty [of "''data''"]] by auto
  let ?s0 = "txn_store_new kv 0" and ?t = "(transaction_new 7 SERIALIZABLE)\<lparr>tx_prev_lsn := 0\<rparr>"
  have ok0: "txn_store_ok (\<lambda>x. x) 0 [] ?s0" by (rule txn_store_new_ok [OF fresh_empty kv(1)]) simp
  have alive: "log_alive (ts_log ?s0)" by (simp add: log_alive_def txn_store_new_def set_next_lsn_def log_manager_new_def)
  obtain j log1 where b: "tm_begin True j 7 SERIALIZABLE None (ts_log ?s0, ts_txns ?s0) = Some (log1, (ts_txns ?s0)(7 \<mapsto> ?t), ?t)"
    using begin_returns [OF ok0 alive, of True 7 SERIALIZABLE] by auto
  let ?s1 = "?s0\<lparr>ts_log := log1, ts_txns := (ts_txns ?s0)(7 \<mapsto> ?t)\<rparr>"
  have r1: "txn_run (\<lambda>x. x) (\<lambda>x. x) ?s0 ?s1"
    by (rule txn_begin [OF txn_nil _ b]) (simp add: txn_store_new_def)
  obtain rs where ok1: "txn_store_ok (\<lambda>x. x) 0 rs ?s1" using txn_run_ok [OF r1 snappy_id ok0] by blast
  have al1: "log_alive (ts_log ?s1)" by (rule txn_run_alive [OF r1 snappy_id ok0 alive])
  have fit: "kv_fits ([], []) (KPut [5] [1])" by (simp add: small_def)
  have rep: "kv_rep (\<lambda>x. x) (ts_kv ?s1) ([], [])" using kv(2) by (simp add: txn_store_new_def)
  have fit': "\<forall>a. kv_rep (\<lambda>x. x) (ts_kv ?s1) a \<longrightarrow> kv_fits a (KPut [5] [1])"
    by (rule kv_rep_fits [OF rep fit])
  obtain r l where "record_control True 7 invalid_lsn BEGIN_REC = Some r" "append_call j r (ts_log ?s0) = Some (log1, l)" "l = 0"
    using tm_begin_log [OF b] by auto
  moreover from this(1) have "record_ok r" "r\<lparr>rec_lsn := 0\<rparr> = hd demo_log"
    by (auto simp: record_control_def record_ok_def has_payload_def record_default_def demo_log_def)
  ultimately have log1: "log_run (set_next_lsn 0 (log_manager_new [])) [hd demo_log] log1"
    using append_call_run [of j r "ts_log ?s0" log1 l] by (simp add: txn_store_new_def)
  have n1: "of_nat (length rs) = (1 :: lsn)"
    using log_reach [OF log1] log_reach [of 0 "[]" rs log1] ok1 by (simp add: log_ok_def txn_store_ok_def)
  obtain j2 kv' log2 txn' where p: "kvt_put (\<lambda>x. x) j2 0 True [5] [1] (ts_kv ?s1, ts_log ?s1, ?t) = Some (kv', log2, txn')"
      "tx_write_set txn' = [\<lparr>wr_type = INSERT_TUPLE, wr_key = [5], wr_value = []\<rparr>]" "tx_prev_lsn txn' = 1"
    using n1 put_returns [OF snappy_id ok1 al1, of 7 ?t "[5]" "[1]" 0 True] fit'
    by (auto simp: transaction_new_def log_buffer_size_def txn_store_new_def)
  let ?s2 = "\<lparr>ts_kv = kv', ts_log = log2, ts_txns = (ts_txns ?s1)(7 \<mapsto> txn')\<rparr>"
  have r2: "txn_run (\<lambda>x. x) (\<lambda>x. x) ?s0 ?s2"
    by (rule txn_put [OF r1 _ p(1) _ fit']) simp_all
  have "kv_put (\<lambda>x. x) 0 (ts_kv ?s1) [5] [1] = Some kv'" using kvt_put_fields [OF p(1)] by blast
  then have "kv_rep (\<lambda>x. x) kv' ([([5], [1])], [])"
    using kv_put_rep [OF snappy_id rep fit, of 0] by (auto simp: sstable_space_def)
  moreover have "log_run (set_next_lsn 0 (log_manager_new [])) demo_log log2"
  proof -
    let ?r = "record_of_kv 7 0 INSERT_REC [5] [1]"
    have "append_call j2 ?r log1 = Some (log2, 1)"
      using kvt_put_fields [OF p(1)] p(3) by (auto simp: log_for_def transaction_new_def split: Option.bind_splits)
    moreover have "record_ok ?r" by (rule record_of_kv_ok) simp_all
    ultimately have "log_run log1 [?r\<lparr>rec_lsn := 1\<rparr>] log2" by (rule append_call_run)
    from log_run_trans [OF this log1] show ?thesis by (simp add: demo_log_def)
  qed
  ultimately show ?thesis using kv(1) r2 p txn_run_alive [OF r2 snappy_id ok0 alive] by (intro exI [of _ kv] exI [of _ ?s2]) auto
qed

section \<open>Properties\<close>

text \<open>C23. Write-ahead logging. After any calls of any transactions, one after the other and each with defined behaviour
  (so no del of a key in the memtable), in any order, on a store in a fresh
  directory: the log holds one record per begun transaction and per successful write, each linked to
  the record that its transaction logged before it, and replaying the logged writes gives exactly what
  the store answers.\<close>

theorem log_determines_store:
  assumes "snappy_ok snap unsnap" and "fresh_dir fs dir" and "kv_new fs dir = Some kv"
    and "txn_run snap unsnap (txn_store_new kv n0) s"
  shows "\<exists>rs. log_run (set_next_lsn n0 (log_manager_new [])) rs (ts_log s) \<and> chained rs \<and>
    (\<forall>i txn. ts_txns s i = Some txn \<longrightarrow> tx_prev_lsn txn = last_of i rs) \<and>
    (\<forall>k. kv_get unsnap (ts_kv s) k = Some (visible (foldl kv_abs ([], []) (ops_of rs)) k \<noteq> [],
      visible (foldl kv_abs ([], []) (ops_of rs)) k))"
proof -
  obtain rs where "txn_store_ok snap n0 rs s"
    using txn_run_ok [OF assms(4,1) txn_store_new_ok [OF assms(2,3)]] by blast
  then show ?thesis using kv_get_rep [OF assms(1)] unfolding txn_store_ok_def by blast
qed


theorem log_determines_store_witness:
  "\<exists>kv s rs. kv_new empty_fs ''data'' = Some kv \<and> txn_run (\<lambda>x. x) (\<lambda>x. x) (txn_store_new kv 0) s \<and>
    log_run (set_next_lsn 0 (log_manager_new [])) rs (ts_log s) \<and> chained rs \<and>
    kv_get (\<lambda>x. x) (ts_kv s) [5] = Some (True, [1]) \<and> visible (foldl kv_abs ([], []) (ops_of rs)) [5] = [1]"
proof -
  obtain kv s where s: "kv_new empty_fs ''data'' = Some kv" "txn_run (\<lambda>x. x) (\<lambda>x. x) (txn_store_new kv 0) s"
      "kv_rep (\<lambda>x. x) (ts_kv s) ([([5], [1])], [])" using demo_txn by blast
  have g: "kv_get (\<lambda>x. x) (ts_kv s) [5] = Some (True, [1])" using kv_get_rep [OF snappy_id s(3), of "[5]"] by (simp add: visible_def)
  from log_determines_store [OF snappy_id fresh_empty [of "''data''"] s(1,2)] s(1,2) g show ?thesis by fastforce
qed

text \<open>C24. Whatever was done before, if the flush thread has not been stopped and the records fit into the log buffer:
  Begin and put return after at most five steps of the flush thread, and they append exactly one record, BEGIN or INSERT, under the next
  LSN, which becomes the last one of the transaction; put also appends to the write set if the caller asked for it. For a key that is
  not in the memtable, del returns: if a table has a value for it, del answers true, logs that value under the next LSN and remembers
  it in the write set, else it answers false and changes nothing. For a key in the memtable del is undefined.\<close>

theorem writes_return:
  assumes "snappy_ok snap unsnap" and "txn_store_ok snap n0 rs s" and "log_alive (ts_log s)"
    and "ts_txns s i = Some txn" and "kv_rep snap (ts_kv s) a" and "32 + length k + length v < log_buffer_size"
    and "kv_fits a (KPut k v)" and "32 + length k + length (visible a k) < log_buffer_size"
  shows "(\<exists>j \<le> 5. \<exists>log'. tm_begin ndebug j i' lvl None (ts_log s, ts_txns s) =
      Some (log', (ts_txns s)(i' \<mapsto> (transaction_new i' lvl)\<lparr>tx_prev_lsn := n0 + of_nat (length rs)\<rparr>),
        (transaction_new i' lvl)\<lparr>tx_prev_lsn := n0 + of_nat (length rs)\<rparr>) \<and>
      (\<exists>r. record_control ndebug i' invalid_lsn BEGIN_REC = Some r \<and>
        log_run (ts_log s) [r\<lparr>rec_lsn := n0 + of_nat (length rs)\<rparr>] log')) \<and>
    (\<exists>j \<le> 5. \<exists>kv' log' txn'. kvt_put snap j ones w k v (ts_kv s, ts_log s, txn) = Some (kv', log', txn') \<and>
      log_run (ts_log s) [(record_of_kv i (tx_prev_lsn txn) INSERT_REC k v)\<lparr>rec_lsn := n0 + of_nat (length rs)\<rparr>] log' \<and>
      tx_prev_lsn txn' = n0 + of_nat (length rs) \<and>
      tx_write_set txn' = tx_write_set txn @ (if w then [\<lparr>wr_type = INSERT_TUPLE, wr_key = k, wr_value = []\<rparr>] else [])) \<and>
    (if map_of (fst a) k \<noteq> None then \<forall>j. kvt_del unsnap j ones w k (ts_kv s, ts_log s, txn) = None
     else if deletes a k then \<exists>j \<le> 5. \<exists>kv' log' txn'. kvt_del unsnap j ones w k (ts_kv s, ts_log s, txn) = Some (True, kv', log', txn') \<and>
       log_run (ts_log s) [(record_of_kv i (tx_prev_lsn txn) DELETE_REC k (visible a k))\<lparr>rec_lsn := n0 + of_nat (length rs)\<rparr>] log' \<and>
       tx_prev_lsn txn' = n0 + of_nat (length rs) \<and>
       tx_write_set txn' = tx_write_set txn @ (if w then [\<lparr>wr_type = DELETE_TUPLE, wr_key = k, wr_value = visible a k\<rparr>] else [])
     else \<forall>j. kvt_del unsnap j ones w k (ts_kv s, ts_log s, txn) = Some (False, ts_kv s, ts_log s, txn))"
proof (intro conjI)
  show "if map_of (fst a) k \<noteq> None then \<forall>j. kvt_del unsnap j ones w k (ts_kv s, ts_log s, txn) = None
     else if deletes a k then \<exists>j \<le> 5. \<exists>kv' log' txn'. kvt_del unsnap j ones w k (ts_kv s, ts_log s, txn) = Some (True, kv', log', txn') \<and>
       log_run (ts_log s) [(record_of_kv i (tx_prev_lsn txn) DELETE_REC k (visible a k))\<lparr>rec_lsn := n0 + of_nat (length rs)\<rparr>] log' \<and>
       tx_prev_lsn txn' = n0 + of_nat (length rs) \<and>
       tx_write_set txn' = tx_write_set txn @ (if w then [\<lparr>wr_type = DELETE_TUPLE, wr_key = k, wr_value = visible a k\<rparr>] else [])
     else \<forall>j. kvt_del unsnap j ones w k (ts_kv s, ts_log s, txn) = Some (False, ts_kv s, ts_log s, txn)"
    using kvt_del_in_memtable [OF assms(5)] del_returns [OF assms(1-5,8)] by (cases "map_of (fst a) k = None") simp_all
qed (use begin_returns [OF assms(2,3)] put_returns [OF assms(1-4,6) kv_rep_fits [OF assms(5,7)]] in blast)+

theorem writes_return_witness:
  "\<exists>kv s txn. kv_new empty_fs ''data'' = Some kv \<and> txn_run (\<lambda>x. x) (\<lambda>x. x) (txn_store_new kv 0) s \<and> ts_txns s 7 = Some txn \<and>
    (\<exists>j \<le> 5. \<exists>kv' log' txn'. kvt_put (\<lambda>x. x) j 0 True [6] [2] (ts_kv s, ts_log s, txn) = Some (kv', log', txn') \<and>
      tx_write_set txn' = [\<lparr>wr_type = INSERT_TUPLE, wr_key = [5], wr_value = []\<rparr>, \<lparr>wr_type = INSERT_TUPLE, wr_key = [6], wr_value = []\<rparr>]) \<and>
    kvt_del (\<lambda>x. x) 0 0 True [6] (ts_kv s, ts_log s, txn) = Some (False, ts_kv s, ts_log s, txn) \<and>
    kvt_del (\<lambda>x. x) 0 0 True [5] (ts_kv s, ts_log s, txn) = None"
proof -
  let ?a = "([([5 :: byte], [1 :: byte])], [] :: kvs list)"
  obtain kv s txn where s: "kv_new empty_fs ''data'' = Some kv" "txn_run (\<lambda>x. x) (\<lambda>x. x) (txn_store_new kv 0) s"
      "ts_txns s 7 = Some txn" "log_alive (ts_log s)" "kv_rep (\<lambda>x. x) (ts_kv s) ?a"
      "tx_write_set txn = [\<lparr>wr_type = INSERT_TUPLE, wr_key = [5], wr_value = []\<rparr>]" using demo_txn by blast
  obtain rs where ok: "txn_store_ok (\<lambda>x. x) 0 rs s"
    using txn_run_ok [OF s(2) snappy_id txn_store_new_ok [OF fresh_empty [of "''data''"] s(1)]] by auto
  have v: "visible ?a [5] = [1]" "visible ?a [6] = []" "\<not> deletes ?a [6]" by (simp_all add: visible_def deletes_def)
  note ret = writes_return [OF snappy_id ok s(4,3,5)]
  have "32 + length [6 :: byte] + length [2 :: byte] < log_buffer_size" "kv_fits ?a (KPut [6] [2])"
    "32 + length [6 :: byte] + length (visible ?a [6]) < log_buffer_size"
    by (simp_all add: v small_def log_buffer_size_def)
  note new = ret [OF this, of True 8 SERIALIZABLE 0 True]
  have "32 + length [5 :: byte] + length [2 :: byte] < log_buffer_size" "kv_fits ?a (KPut [5] [2])"
    "32 + length [5 :: byte] + length (visible ?a [5]) < log_buffer_size"
    by (simp_all add: v small_def log_buffer_size_def)
  note old = ret [OF this, of True 8 SERIALIZABLE 0 True]
  from new old s(1-3,6) v show ?thesis by fastforce
qed

end
