(* ===== verification/FaultTolerance.thy ===== *)
theory FaultTolerance
  imports TxnStore
begin

text \<open>
  Fault tolerance: the file in which a participant keeps the results of the prepare phase
  (\<open>coordinator_backup.h\<close>), and the transactions that a node takes over as new coordinator (\<open>coordinator.h\<close>,
  \<open>coordinator.cpp\<close>, \<open>fault_tolerance_rpc.h\<close>).

  The file is open for appending, so it is the list of its bytes. A \<open>PrepareResult\<close> has eight bytes for the
  transaction identifier, one for the result, and seven that are whatever the memory holds: they come with each
  record. A result byte that is neither 0 nor 1 is no \<open>bool\<close> (\<open>None\<close>).
\<close>

section \<open>Results of the prepare phase\<close>

record prepare_result =
  pr_txn :: txn_id
  pr_res :: bool
  pr_pad :: bytes

abbreviation sizeof_prepare_result :: nat where "sizeof_prepare_result \<equiv> 16"

definition prepare_image :: "prepare_result \<Rightarrow> bytes" where
  "prepare_image p = u64_bytes (unat (pr_txn p)) @ (if pr_res p then 1 else 0) # pr_pad p"

definition write_coordinator_backup :: "prepare_result \<Rightarrow> bytes \<Rightarrow> bytes" where
  "write_coordinator_backup p file = file @ prepare_image p"

definition bool_of_byte :: "byte \<Rightarrow> bool option" where
  "bool_of_byte b = (if b = 0 then Some False else if b = 1 then Some True else None)"

text \<open>The loop goes back byte by byte.\<close>

fun read_back_from :: "txn_id \<Rightarrow> bytes \<Rightarrow> nat \<Rightarrow> bool option" where
  "read_back_from i file pos = do {
     n \<leftarrow> read_u64 file pos;
     b \<leftarrow> nth_opt file (pos + 8);
     (if i = of_nat n then bool_of_byte b
      else if pos = 0 then Some False
      else read_back_from i file (pos - 1)) }"

declare read_back_from.simps [simp del]

definition read_backwards :: "txn_id \<Rightarrow> bytes \<Rightarrow> bool option" where
  "read_backwards i file =
     (if length file < sizeof_prepare_result then Some False
      else read_back_from i file (length file - sizeof_prepare_result))"

text \<open>What it shall find: the last result written for the transaction, and false if there is none.\<close>

definition last_result :: "txn_id \<Rightarrow> prepare_result list \<Rightarrow> bool" where
  "last_result i ps = (case find (\<lambda>p. pr_txn p = i) (rev ps) of Some p \<Rightarrow> pr_res p | None \<Rightarrow> False)"

definition backup_file :: "prepare_result list \<Rightarrow> bytes" where
  "backup_file ps = fold write_coordinator_backup ps []"

text \<open>No eight bytes that straddle fields look like the identifier.\<close>

definition no_false_match :: "txn_id \<Rightarrow> bytes \<Rightarrow> bool" where
  "no_false_match i file \<longleftrightarrow>
     list_all (\<lambda>pos. pos mod 16 = 0 \<or> take 8 (drop pos file) \<noteq> u64_bytes (unat i)) [0..<length file]"

lemma read_u64_match:
  fixes i :: txn_id
  assumes "read_u64 file pos = Some x" and "i = of_nat x"
  shows "take 8 (drop pos file) = u64_bytes (unat i)"
proof -
  let ?bs = "take 8 (drop pos file)"
  have x: "x = le_value ?bs" and l: "length ?bs = 8" using assms(1) by (auto simp: read_le_def split: if_splits)
  have "x < two64" using le_value_bound [of ?bs] unfolding x l by simp
  then have "unat i = le_value ?bs" using assms(2) x by (simp add: unat_of_nat)
  then show ?thesis using le_bytes_le_value [of ?bs] unfolding l u64_bytes_def by simp
qed

lemma backup_file_concat: "backup_file ps = concat (map prepare_image ps)"
proof -
  have "fold write_coordinator_backup ps f = f @ concat (map prepare_image ps)" for f
    by (induction ps arbitrary: f) (simp_all add: write_coordinator_backup_def)
  then show ?thesis by (simp add: backup_file_def)
qed

lemma length_prepare_image: "length (pr_pad p) = 7 \<Longrightarrow> length (prepare_image p) = 16"
  by (simp add: prepare_image_def)

lemma length_prepare_images: "\<forall>p \<in> set ps. length (pr_pad p) = 7 \<Longrightarrow> length (concat (map prepare_image ps)) = 16 * length ps"
  by (induction ps) (simp_all add: length_prepare_image)

lemma read_prepare_record:
  assumes "\<forall>p \<in> set ps. length (pr_pad p) = 7" and "k < length ps"
  shows "read_u64 (backup_file ps) (16 * k) = Some (unat (pr_txn (ps ! k)))"
    and "nth_opt (backup_file ps) (16 * k + 8) = Some (if pr_res (ps ! k) then 1 else 0)"
proof -
  let ?a = "concat (map prepare_image (take k ps))" and ?z = "concat (map prepare_image (drop (Suc k) ps))"
  have f: "backup_file ps = ?a @ prepare_image (ps ! k) @ ?z"
    unfolding backup_file_concat by (subst id_take_nth_drop [OF assms(2)]) simp
  have l: "length ?a = 16 * k"
    using length_prepare_images [of "take k ps"] assms by (auto dest: in_set_takeD)
  have image: "prepare_image (ps ! k) @ ?z = u64_bytes (unat (pr_txn (ps ! k))) @ (if pr_res (ps ! k) then 1 else 0) # pr_pad (ps ! k) @ ?z"
    by (simp add: prepare_image_def)
  have "unat (pr_txn (ps ! k)) < two64" using unsigned_less [of "pr_txn (ps ! k)"] by simp
  then show "read_u64 (backup_file ps) (16 * k) = Some (unat (pr_txn (ps ! k)))"
    unfolding f image by (rule read_u64_append [OF l])
  show "nth_opt (backup_file ps) (16 * k + 8) = Some (if pr_res (ps ! k) then 1 else 0)"
    unfolding nth_opt_def f by (auto simp: prepare_image_def nth_append l)
qed

lemma read_back_step:
  assumes "read_u64 file pos = Some x" and "nth_opt file (pos + 8) = Some b" and "pos \<noteq> 0" and "i \<noteq> of_nat x"
  shows "read_back_from i file pos = read_back_from i file (pos - 1)"
  using assms by (subst read_back_from.simps) simp

lemma skip_misaligned:
  assumes len: "length file = 16 * n" and nf: "no_false_match i file" and k: "Suc k < n" and r: "r < 16"
  shows "read_back_from i file (16 * k + r) = read_back_from i file (16 * k)"
  using r
proof (induction r)
  case (Suc r)
  let ?pos = "16 * k + Suc r"
  have pos: "?pos < length file" "?pos + 8 < length file" "?pos mod 16 \<noteq> 0" using len k Suc.prems by auto
  then obtain x where x: "read_u64 file ?pos = Some x" by (simp add: read_le_def)
  have "?pos \<in> set [0..<length file]" using pos(1) by simp
  from bspec [OF nf [unfolded no_false_match_def list_all_iff] this] pos(3)
  have "take 8 (drop ?pos file) \<noteq> u64_bytes (unat i)" by (simp only: simp_thms)
  then have "i \<noteq> of_nat x" using read_u64_match [OF x, of i] by auto
  then have "read_back_from i file ?pos = read_back_from i file (16 * k + r)"
    using read_back_step [OF x nth_opt_Some [OF pos(2)]] by simp
  with Suc show ?case by simp
qed simp

lemma read_back_prefix:
  assumes pads: "\<forall>p \<in> set ps. length (pr_pad p) = 7" and nf: "no_false_match i (backup_file ps)" and k: "k < length ps"
  shows "read_back_from i (backup_file ps) (16 * k) = Some (last_result i (take (Suc k) ps))"
  using k
proof (induction k)
  case 0
  have "take (Suc 0) ps = [ps ! 0]" using 0 by (cases ps) simp_all
  then show ?case
    using read_prepare_record [OF pads 0] by (subst read_back_from.simps) (simp add: last_result_def bool_of_byte_def)
next
  case (Suc k)
  have len: "length (backup_file ps) = 16 * length ps" unfolding backup_file_concat by (rule length_prepare_images [OF pads])
  have t: "take (Suc (Suc k)) ps = take (Suc k) ps @ [ps ! Suc k]" using Suc.prems by (simp add: take_Suc_conv_app_nth)
  have "16 * Suc k - 1 = 16 * k + 15" by simp
  then have d: "read_back_from i (backup_file ps) (16 * Suc k - 1) = Some (last_result i (take (Suc k) ps))"
    using skip_misaligned [OF len nf Suc.prems, of 15] Suc by (simp add: add.commute)
  show ?case
    using read_prepare_record [OF pads Suc.prems] d
    by (subst read_back_from.simps) (simp add: t last_result_def bool_of_byte_def)
qed

text \<open>C38. \<open>ReadBackwards\<close> returns, and gives the last result that was written for the transaction, or false if there is none, as
  long as no eight bytes across two fields of the file look like its identifier: the search goes
  back byte by byte and not record by record.\<close>

theorem read_backwards_finds_last:
  assumes "\<forall>p \<in> set ps. length (pr_pad p) = 7" and "no_false_match i (backup_file ps)"
  shows "read_backwards i (backup_file ps) = Some (last_result i ps)"
proof (cases "ps = []")
  case True
  then show ?thesis by (simp add: read_backwards_def backup_file_def last_result_def)
next
  case False
  have len: "length (backup_file ps) = 16 * length ps" unfolding backup_file_concat by (rule length_prepare_images [OF assms(1)])
  then have "length (backup_file ps) - 16 = 16 * (length ps - 1)" using False by (simp add: diff_mult_distrib2)
  moreover have "\<not> length (backup_file ps) < 16" using len False by (cases ps) simp_all
  ultimately show ?thesis
    using read_back_prefix [OF assms, of "length ps - 1"] False by (simp add: read_backwards_def)
qed

definition demo_results :: "prepare_result list" where
  "demo_results =
     [\<lparr>pr_txn = 2, pr_res = True, pr_pad = [9, 9, 9, 9, 9, 9, 9]\<rparr>, \<lparr>pr_txn = 3, pr_res = False, pr_pad = [9, 9, 9, 9, 9, 9, 9]\<rparr>]"

lemma u64_bytes_unfold: "u64_bytes n =
    [of_nat n, of_nat (n div 256), of_nat (n div 256 div 256), of_nat (n div 256 div 256 div 256),
     of_nat (n div 256 div 256 div 256 div 256), of_nat (n div 256 div 256 div 256 div 256 div 256),
     of_nat (n div 256 div 256 div 256 div 256 div 256 div 256), of_nat (n div 256 div 256 div 256 div 256 div 256 div 256 div 256)]"
proof -
  have "(8 :: nat) = Suc (Suc (Suc (Suc (Suc (Suc (Suc (Suc 0)))))))" by simp
  then show ?thesis unfolding u64_bytes_def by (simp only: le_bytes.simps)
qed

lemma u64_bytes_small: "n < 256 \<Longrightarrow> u64_bytes n = [of_nat n, 0, 0, 0, 0, 0, 0, 0]"
  by (simp add: u64_bytes_unfold)

lemma u64_bytes_256: "u64_bytes 256 = [0, 1, 0, 0, 0, 0, 0, 0]"
  by (simp add: u64_bytes_unfold)

lemma image_small: "unat i < 256 \<Longrightarrow> prepare_image \<lparr>pr_txn = i, pr_res = b, pr_pad = pad\<rparr> =
    of_nat (unat i) # [0, 0, 0, 0, 0, 0, 0] @ (if b then 1 else 0) # pad"
  by (simp add: prepare_image_def u64_bytes_small)

lemma demo_file: "backup_file demo_results =
    [2, 0, 0, 0, 0, 0, 0, 0, 1, 9, 9, 9, 9, 9, 9, 9, 3, 0, 0, 0, 0, 0, 0, 0, 0, 9, 9, 9, 9, 9, 9, 9]"
  unfolding backup_file_concat demo_results_def by (simp add: image_small)

lemma demo_no_false_match: "no_false_match 2 (backup_file demo_results)"
proof -
  have "u64_bytes (unat (2 :: txn_id)) = [2, 0, 0, 0, 0, 0, 0, 0]" by (simp add: u64_bytes_small)
  then show ?thesis unfolding demo_file no_false_match_def by (simp add: upt_rec_numeral)
qed

theorem read_backwards_finds_last_witness: "read_backwards 2 (backup_file demo_results) = Some True"
proof -
  have "\<forall>p \<in> set demo_results. length (pr_pad p) = 7" by (simp add: demo_results_def)
  moreover have "last_result 2 demo_results" by (simp add: last_result_def demo_results_def)
  ultimately show ?thesis using read_backwards_finds_last [of demo_results 2] demo_no_false_match by simp
qed

text \<open>The condition is needed: transaction 256 reported true, but one byte before the record of transaction 1,
  which follows, stand the same eight bytes as in its identifier, and the byte taken for the result is 0.\<close>

definition clash_results :: "prepare_result list" where
  "clash_results =
     [\<lparr>pr_txn = 256, pr_res = True, pr_pad = [0, 0, 0, 0, 0, 0, 0]\<rparr>, \<lparr>pr_txn = 1, pr_res = False, pr_pad = [0, 0, 0, 0, 0, 0, 0]\<rparr>]"

lemma clash_file: "backup_file clash_results =
    [0, 1, 0, 0, 0, 0, 0, 0, 1, 0, 0, 0, 0, 0, 0, 0, 1, 0, 0, 0, 0, 0, 0, 0, 0, 0, 0, 0, 0, 0, 0, 0]"
proof -
  have "prepare_image \<lparr>pr_txn = 256, pr_res = True, pr_pad = pad\<rparr> = [0, 1, 0, 0, 0, 0, 0, 0, 1] @ pad" for pad
    by (simp add: prepare_image_def u64_bytes_256)
  then show ?thesis unfolding backup_file_concat clash_results_def by (simp add: image_small)
qed

lemma read_u64_nth:
  "pos + 8 \<le> length bs \<Longrightarrow> read_u64 bs pos = Some (le_value (take 8 (drop pos bs)))"
  by (simp add: read_le_def)

text \<open>\<open>ReadBackwards\<close> can give a wrong result: with the results of transactions 256 (true) and 1 (false) in the
  file, it reports false for 256, for it compares eight bytes at every offset.\<close>

theorem read_backwards_wrong: "read_backwards 256 (backup_file clash_results) = Some False \<and> last_result 256 clash_results"
proof
  have "read_back_from 256 (backup_file clash_results) 15 = Some False"
    by (subst read_back_from.simps) (simp add: clash_file read_u64_nth nth_opt_def bool_of_byte_def)
  then have "read_back_from 256 (backup_file clash_results) 16 = Some False"
    by (subst read_back_from.simps) (simp add: clash_file read_u64_nth nth_opt_def bool_of_byte_def)
  moreover have "length (backup_file clash_results) = 32" by (simp add: clash_file)
  ultimately show "read_backwards 256 (backup_file clash_results) = Some False" by (simp add: read_backwards_def)
  show "last_result 256 clash_results" by (simp add: last_result_def clash_results_def)
qed

section \<open>Taking over a transaction\<close>

text \<open>\<open>Coordinator::Insert_txn\<close>: an identifier that is known already is a repeated request. The node set of a
  new transaction starts empty. The background thread that the code starts then runs \<open>Commit\<close>, and
  removes the entry again: it holds a reference to the local pointer of a call that may have
  returned.\<close>

definition insert_txn :: "txn_id \<Rightarrow> ip_port list \<Rightarrow> (txn_id \<rightharpoonup> transaction) \<Rightarrow> (txn_id \<rightharpoonup> transaction)" where
  "insert_txn i ips txn_map =
     (if txn_map i \<noteq> None then txn_map
      else let txn = transaction_new i SERIALIZABLE in
        txn_map(i \<mapsto> txn\<lparr>tx_is_distributed := 1 < length ips, tx_nodes := tx_nodes txn @ ips\<rparr>))"

text \<open>The end of the background thread.\<close>

definition coordinator_prepare :: "transaction \<Rightarrow> (txn_id \<rightharpoonup> transaction) \<Rightarrow> (txn_id \<rightharpoonup> transaction)" where
  "coordinator_prepare txn txn_map = txn_map(tx_id txn := None)"

lemma insert_txn_again: "insert_txn i ips' (insert_txn i ips txn_map) = insert_txn i ips txn_map"
  by (simp add: insert_txn_def Let_def)

lemma insert_txn_other: "i \<noteq> j \<Longrightarrow> insert_txn i ips txn_map j = txn_map j"
  by (simp add: insert_txn_def Let_def)

lemma insert_txn_keys:
  assumes "\<forall>j txn. txn_map j = Some txn \<longrightarrow> tx_id txn = j"
  shows "insert_txn i ips txn_map j = Some txn \<Longrightarrow> tx_id txn = j"
  using assms by (auto simp: insert_txn_def Let_def transaction_new_def split: if_splits)

lemma takeover_ends:
  assumes "txn_map i = None" and "insert_txn i ips txn_map i = Some txn"
  shows "coordinator_prepare txn (insert_txn i ips txn_map) = txn_map"
  using assms by (auto simp: insert_txn_def Let_def coordinator_prepare_def transaction_new_def)

end
