(* ===== verification/Caches.thy ===== *)
theory Caches
  imports LevelStore
begin

text \<open>
  The caches that \<open>LevelZero\<close> and \<open>SSTable\<close> take pointers to: \<open>TableCache\<close> (\<open>src/storage/TableCache.cpp\<close>), open
  files under the numbers of their tables, and \<open>BlockCache\<close> (\<open>src/storage/BlockCache.cpp\<close>). Both keep a
  \<open>std::list\<close> with the entry used last in front and a map from keys to iterators into it. A node of the list
  has an address that is never used again, and an iterator is such an address: following one whose
  node was erased is undefined (\<open>None\<close>).
\<close>

section \<open>Lists with iterators\<close>

record ('k, 'v) lru =
  lru_lists :: "(nat \<times> 'k \<times> 'v) list"
  lru_map :: "'k \<rightharpoonup> nat"
  lru_fresh :: nat

definition lru_new :: "('k, 'v) lru" where
  "lru_new = \<lparr>lru_lists = [], lru_map = Map.empty, lru_fresh = 0\<rparr>"

definition node_at :: "nat \<Rightarrow> ('k, 'v) lru \<Rightarrow> ('k \<times> 'v) option" where
  "node_at a c = map_of (lru_lists c) a"

definition push_front :: "'k \<times> 'v \<Rightarrow> ('k, 'v) lru \<Rightarrow> ('k, 'v) lru" where
  "push_front n c = c\<lparr>lru_lists := (lru_fresh c, n) # lru_lists c, lru_fresh := lru_fresh c + 1\<rparr>"

definition erase_node :: "nat \<Rightarrow> ('k, 'v) lru \<Rightarrow> ('k, 'v) lru option" where
  "erase_node a c =
     (if node_at a c = None then None else Some (c\<lparr>lru_lists := filter (\<lambda>n. fst n \<noteq> a) (lru_lists c)\<rparr>))"

text \<open>\<open>map_[k] = lists_.begin()\<close>\<close>

definition map_begin :: "'k \<Rightarrow> ('k, 'v) lru \<Rightarrow> ('k, 'v) lru option" where
  "map_begin k c = (case lru_lists c of [] \<Rightarrow> None | n # _ \<Rightarrow> Some (c\<lparr>lru_map := (lru_map c)(k \<mapsto> fst n)\<rparr>))"

definition list_back :: "('k, 'v) lru \<Rightarrow> ('k \<times> 'v) option" where
  "list_back c = (if lru_lists c = [] then None else Some (snd (last (lru_lists c))))"

definition pop_back :: "('k, 'v) lru \<Rightarrow> ('k, 'v) lru option" where
  "pop_back c = (if lru_lists c = [] then None else Some (c\<lparr>lru_lists := butlast (lru_lists c)\<rparr>))"

definition map_erase :: "'k \<Rightarrow> ('k, 'v) lru \<Rightarrow> ('k, 'v) lru" where
  "map_erase k c = c\<lparr>lru_map := (lru_map c)(k := None)\<rparr>"

definition lru_entries :: "('k, 'v) lru \<Rightarrow> ('k \<times> 'v) list" where
  "lru_entries c = map snd (lru_lists c)"

text \<open>Every key has one node, and the map has its address.\<close>

definition lru_ok :: "('k, 'v) lru \<Rightarrow> bool" where
  "lru_ok c \<longleftrightarrow> distinct (map fst (lru_lists c)) \<and> distinct (map fst (lru_entries c)) \<and>
     (\<forall>n \<in> set (lru_lists c). fst n < lru_fresh c) \<and>
     lru_map c = map_of (map (\<lambda>n. (fst (snd n), fst n)) (lru_lists c))"

text \<open>The entry for \<open>k\<close> goes to the front; a new entry drops the last one of a full cache.\<close>

definition lru_touch :: "nat \<Rightarrow> 'k \<Rightarrow> 'v \<Rightarrow> ('k \<times> 'v) list \<Rightarrow> ('k \<times> 'v) list" where
  "lru_touch cap k v xs = (case map_of xs k of
     Some w \<Rightarrow> (k, w) # filter (\<lambda>p. fst p \<noteq> k) xs
   | None \<Rightarrow> (k, v) # (if length xs = cap then butlast xs else xs))"

lemma lru_new_ok: "lru_ok lru_new" and lru_new_entries: "lru_entries lru_new = []"
  by (simp_all add: lru_ok_def lru_new_def lru_entries_def)

lemma lru_map_cases:
  assumes "lru_ok c"
  obtains "lru_map c k = None" "map_of (lru_entries c) k = None"
  | a v where "lru_map c k = Some a" "map_of (lru_entries c) k = Some v" "node_at a c = Some (k, v)"
proof (cases "lru_map c k")
  case None
  then have "k \<notin> fst ` set (lru_entries c)" using assms by (auto simp: lru_ok_def lru_entries_def map_of_eq_None_iff image_iff)
  then show ?thesis using None that(1) by (simp add: map_of_eq_None_iff)
next
  case (Some a)
  then obtain v where n: "(a, k, v) \<in> set (lru_lists c)" using assms by (auto simp: lru_ok_def dest!: map_of_SomeD)
  then have "node_at a c = Some (k, v)" using assms by (auto simp: lru_ok_def node_at_def)
  moreover have "map_of (lru_entries c) k = Some v" using n assms by (force simp: lru_ok_def lru_entries_def)
  ultimately show ?thesis using Some that(2) by blast
qed

lemma map_of_filter_neq: "map_of (filter (\<lambda>n. fst n \<noteq> k) xs) = (map_of xs)(k := None)"
  by (induction xs) (auto simp: fun_eq_iff)

lemma hit_nodes:
  assumes ok: "lru_ok c" and k: "node_at a c = Some (k, v)"
  shows "filter (\<lambda>n. fst n \<noteq> a) (lru_lists c) = filter (\<lambda>n. fst (snd n) \<noteq> k) (lru_lists c)"
proof (rule filter_cong [OF refl])
  fix m assume m: "m \<in> set (lru_lists c)"
  have n: "(a, k, v) \<in> set (lru_lists c)" using k by (auto simp: node_at_def dest: map_of_SomeD)
  have "inj_on fst (set (lru_lists c))" "inj_on (\<lambda>n. fst (snd n)) (set (lru_lists c))"
    using ok by (simp_all add: lru_ok_def lru_entries_def distinct_map comp_def)
  with n m show "fst m \<noteq> a \<longleftrightarrow> fst (snd m) \<noteq> k" by (metis fst_conv inj_on_def snd_conv)
qed

text \<open>\<open>lists_.push_front(...); lists_.erase(it); map_[k] = lists_.begin();\<close>\<close>

lemma move_to_front:
  assumes ok: "lru_ok c" and k: "node_at a c = Some (k, v)"
  obtains c1 c' where "erase_node a (push_front (k, v) c) = Some c1" "map_begin k c1 = Some c'" "lru_ok c'"
    "lru_entries c' = (k, v) # filter (\<lambda>p. fst p \<noteq> k) (lru_entries c)"
    "lru_map c' k = Some (lru_fresh c)" "node_at (lru_fresh c) c' = Some (k, v)"
proof -
  have n: "(a, k, v) \<in> set (lru_lists c)" using k by (auto simp: node_at_def dest: map_of_SomeD)
  then have a: "a \<noteq> lru_fresh c" using ok by (auto simp: lru_ok_def)
  let ?ns = "filter (\<lambda>n. fst n \<noteq> a) (lru_lists c)"
  let ?c = "c\<lparr>lru_lists := (lru_fresh c, k, v) # ?ns, lru_fresh := lru_fresh c + 1, lru_map := (lru_map c)(k \<mapsto> lru_fresh c)\<rparr>"
  let ?c1 = "c\<lparr>lru_lists := (lru_fresh c, k, v) # ?ns, lru_fresh := lru_fresh c + 1\<rparr>"
  have e: "erase_node a (push_front (k, v) c) = Some ?c1" "map_begin k ?c1 = Some ?c"
    using a k by (simp_all add: erase_node_def push_front_def node_at_def map_begin_def)
  have ent: "map snd ?ns = filter (\<lambda>p. fst p \<noteq> k) (lru_entries c)"
    unfolding hit_nodes [OF assms] by (simp add: lru_entries_def filter_map comp_def)
  have "map (\<lambda>n. (fst (snd n), fst n)) ?ns = filter (\<lambda>p. fst p \<noteq> k) (map (\<lambda>n. (fst (snd n), fst n)) (lru_lists c))"
    unfolding hit_nodes [OF assms] by (simp add: filter_map comp_def)
  moreover have "lru_map c = map_of (map (\<lambda>n. (fst (snd n), fst n)) (lru_lists c))" using ok by (simp add: lru_ok_def)
  ultimately have m: "(lru_map c)(k \<mapsto> lru_fresh c) = map_of (map (\<lambda>n. (fst (snd n), fst n)) ((lru_fresh c, k, v) # ?ns))"
    by (simp add: map_of_filter_neq)
  have d: "distinct (map fst (filter (\<lambda>p. fst p \<noteq> k) (lru_entries c)))" "distinct (map fst ?ns)"
    using ok by (simp_all add: lru_ok_def distinct_map_filter)
  have "lru_ok ?c" unfolding lru_ok_def using ok m d by (auto simp: lru_ok_def lru_entries_def ent)
  with e show ?thesis using that [of ?c1 ?c] by (simp add: lru_entries_def ent node_at_def)
qed

text \<open>\<open>lists_.emplace_front(...); map_[k] = lists_.begin();\<close>\<close>

lemma insert_front:
  assumes ok: "lru_ok c" and k: "lru_map c k = None"
  obtains c' where "map_begin k (push_front (k, v) c) = Some c'" "lru_ok c'" "lru_entries c' = (k, v) # lru_entries c"
    "lru_map c' k = Some (lru_fresh c)" "node_at (lru_fresh c) c' = Some (k, v)" "lru_lists c' = (lru_fresh c, k, v) # lru_lists c"
proof -
  let ?c = "c\<lparr>lru_lists := (lru_fresh c, k, v) # lru_lists c, lru_fresh := lru_fresh c + 1, lru_map := (lru_map c)(k \<mapsto> lru_fresh c)\<rparr>"
  have "map_of (lru_entries c) k = None" by (rule lru_map_cases [OF ok, of k]) (simp_all add: k)
  then have "lru_ok ?c" using ok by (auto simp: lru_ok_def lru_entries_def map_of_eq_None_iff less_Suc_eq)
  then show ?thesis using that [of ?c] by (simp add: map_begin_def push_front_def node_at_def lru_entries_def)
qed

text \<open>\<open>map_.erase(lists_.back().first); lists_.pop_back();\<close>\<close>

lemma drop_last:
  assumes ok: "lru_ok c" and ne: "lru_entries c \<noteq> []"
  obtains k v c' where "list_back c = Some (k, v)" "pop_back (map_erase k c) = Some c'" "lru_ok c'"
    "lru_entries c = lru_entries c' @ [(k, v)]" "lru_map c' = (lru_map c)(k := None)"
proof -
  obtain ns a k v where ns: "lru_lists c = ns @ [(a, k, v)]"
    using ne unfolding lru_entries_def by (cases "lru_lists c" rule: rev_cases) auto
  let ?c = "c\<lparr>lru_lists := ns, lru_map := (lru_map c)(k := None)\<rparr>"
  have "lru_map c = map_of (map (\<lambda>n. (fst (snd n), fst n)) (ns @ [(a, k, v)]))" using ok by (simp add: lru_ok_def ns)
  moreover have "map_of (map (\<lambda>n. (fst (snd n), fst n)) ns) k = None"
    using ok by (auto simp: lru_ok_def lru_entries_def ns map_of_eq_None_iff image_iff)
  ultimately have "(lru_map c)(k := None) = map_of (map (\<lambda>n. (fst (snd n), fst n)) ns)"
    by (auto simp: fun_eq_iff map_add_def split: option.splits)
  then have "lru_ok ?c" using ok by (auto simp: lru_ok_def lru_entries_def ns)
  then show ?thesis using that [of k v ?c] by (simp add: list_back_def pop_back_def map_erase_def lru_entries_def ns)
qed

section \<open>The table cache\<close>

definition table_cache_size :: nat where
  "table_cache_size = 10"

text \<open>\<open>tc_streams\<close>: the streams on the heap, by address, with the files that they were opened on.\<close>

record table_cache =
  tc_lru :: "(uint64, nat) lru"
  tc_streams :: "nat \<rightharpoonup> path"
  tc_next :: nat

definition tc_new :: table_cache where
  "tc_new = \<lparr>tc_lru = lru_new, tc_streams = Map.empty, tc_next = 0\<rparr>"

text \<open>\<open>close\<close> and \<open>delete\<close> of a stream.\<close>

definition delete_stream :: "nat \<Rightarrow> table_cache \<Rightarrow> table_cache option" where
  "delete_stream p s = (if tc_streams s p = None then None else Some (s\<lparr>tc_streams := (tc_streams s)(p := None)\<rparr>))"

definition tc_open :: "sstable_id \<Rightarrow> table_cache \<Rightarrow> (table_cache \<times> nat) option" where
  "tc_open i s = (case lru_map (tc_lru s) (id_no i) of
     Some a \<Rightarrow> do {
       n \<leftarrow> node_at a (tc_lru s);
       c1 \<leftarrow> erase_node a (push_front n (tc_lru s));
       c \<leftarrow> map_begin (id_no i) c1;
       a' \<leftarrow> lru_map c (id_no i);
       n' \<leftarrow> node_at a' c;
       Some (s\<lparr>tc_lru := c\<rparr>, snd n') }
   | None \<Rightarrow> do {
       s1 \<leftarrow> (if length (lru_lists (tc_lru s)) = table_cache_size then do {
          n \<leftarrow> list_back (tc_lru s);
          s1 \<leftarrow> delete_stream (snd n) s;
          c \<leftarrow> pop_back (map_erase (fst n) (tc_lru s));
          Some (s1\<lparr>tc_lru := c\<rparr>) }
        else Some s);
       let ifs = tc_next s1;
       c \<leftarrow> map_begin (id_no i) (push_front (id_no i, ifs) (tc_lru s1));
       Some (s1\<lparr>tc_lru := c, tc_streams := (tc_streams s1)(ifs \<mapsto> sstable_id_name i), tc_next := ifs + 1\<rparr>, ifs) })"

text \<open>\<open>delete map_[id.no_]->second\<close> comes after the node was erased.\<close>

definition tc_close :: "sstable_id \<Rightarrow> table_cache \<Rightarrow> table_cache option" where
  "tc_close i s = (case lru_map (tc_lru s) (id_no i) of
     None \<Rightarrow> Some s
   | Some a \<Rightarrow> do {
       n \<leftarrow> node_at a (tc_lru s);
       _ \<leftarrow> tc_streams s (snd n);
       c \<leftarrow> erase_node a (tc_lru s);
       n' \<leftarrow> node_at a c;
       s1 \<leftarrow> delete_stream (snd n') (s\<lparr>tc_lru := c\<rparr>);
       Some (s1\<lparr>tc_lru := map_erase (id_no i) c\<rparr>) })"

text \<open>The destructor.\<close>

fun delete_streams :: "nat list \<Rightarrow> table_cache \<Rightarrow> table_cache option" where
  "delete_streams [] s = Some s"
| "delete_streams (p # ps) s = delete_stream p s \<bind> delete_streams ps"

definition tc_destroy :: "table_cache \<Rightarrow> table_cache option" where
  "tc_destroy s = delete_streams (map (snd \<circ> snd) (lru_lists (tc_lru s))) s"

definition open_tables :: "table_cache \<Rightarrow> (uint64 \<times> path option) list" where
  "open_tables s = map (\<lambda>(k, p). (k, tc_streams s p)) (lru_entries (tc_lru s))"

text \<open>The streams on the heap are those of the list, one each.\<close>

definition tc_ok :: "table_cache \<Rightarrow> bool" where
  "tc_ok s \<longleftrightarrow> lru_ok (tc_lru s) \<and> length (lru_entries (tc_lru s)) \<le> table_cache_size \<and>
     distinct (map snd (lru_entries (tc_lru s))) \<and> dom (tc_streams s) = snd ` set (lru_entries (tc_lru s)) \<and>
     (\<forall>p \<in> dom (tc_streams s). p < tc_next s)"

lemma tc_new_ok: "tc_ok tc_new" "open_tables tc_new = []"
  by (simp_all add: tc_ok_def tc_new_def lru_new_ok lru_new_entries open_tables_def)

lemma map_of_open_tables:
  "map_of (map (\<lambda>(k, p). (k, f p)) xs) k = map_option f (map_of xs k)"
  by (induction xs) auto

lemma length_touch: "length xs \<le> cap \<Longrightarrow> 0 < cap \<Longrightarrow> length (lru_touch cap k v xs) \<le> cap"
proof (cases "map_of xs k")
  case (Some w)
  then have "(k, w) \<in> set xs" by (rule map_of_SomeD)
  then have "length (filter (\<lambda>p. fst p \<noteq> k) xs) < length xs" by (intro length_filter_less) auto
  then show "length xs \<le> cap \<Longrightarrow> 0 < cap \<Longrightarrow> length (lru_touch cap k v xs) \<le> cap" by (simp add: lru_touch_def Some)
qed (auto simp: lru_touch_def)

lemma front_entries:
  assumes "distinct (map fst xs)" and "distinct (map snd xs)" and "map_of xs k = Some p"
  shows "snd ` set ((k, p) # filter (\<lambda>q. fst q \<noteq> k) xs) = snd ` set xs"
    and "distinct (map snd ((k, p) # filter (\<lambda>q. fst q \<noteq> k) xs))"
proof -
  obtain as bs where xs: "xs = as @ (k, p) # bs" using split_list [OF map_of_SomeD [OF assms(3)]] by blast
  have "k \<notin> fst ` set as" "k \<notin> fst ` set bs" using assms(1) xs by auto
  then have "filter (\<lambda>q. fst q \<noteq> k) as = as" "filter (\<lambda>q. fst q \<noteq> k) bs = bs" by (auto simp: filter_id_conv)
  then have "filter (\<lambda>q. fst q \<noteq> k) xs = as @ bs" by (simp add: xs)
  then show "snd ` set ((k, p) # filter (\<lambda>q. fst q \<noteq> k) xs) = snd ` set xs"
    "distinct (map snd ((k, p) # filter (\<lambda>q. fst q \<noteq> k) xs))" using assms(2) by (auto simp: xs)
qed

lemma tc_open_hit:
  assumes ok: "tc_ok s" and hit: "lru_map (tc_lru s) (id_no i) \<noteq> None"
  shows "\<exists>s' p. tc_open i s = Some (s', p) \<and> tc_ok s' \<and>
    open_tables s' = lru_touch table_cache_size (id_no i) (Some (sstable_id_name i)) (open_tables s) \<and>
    hd (open_tables s') = (id_no i, tc_streams s' p)"
proof -
  have lok: "lru_ok (tc_lru s)" using ok by (simp add: tc_ok_def)
  then show ?thesis
  proof (rule lru_map_cases [of _ "id_no i"])
    fix a p
    assume a: "lru_map (tc_lru s) (id_no i) = Some a" "map_of (lru_entries (tc_lru s)) (id_no i) = Some p"
      and n: "node_at a (tc_lru s) = Some (id_no i, p)"
    obtain c1 c where e: "erase_node a (push_front (id_no i, p) (tc_lru s)) = Some c1" "map_begin (id_no i) c1 = Some c"
      and c: "lru_ok c"
        "lru_entries c = (id_no i, p) # filter (\<lambda>p. fst p \<noteq> id_no i) (lru_entries (tc_lru s))"
        "lru_map c (id_no i) = Some (lru_fresh (tc_lru s))" "node_at (lru_fresh (tc_lru s)) c = Some (id_no i, p)"
      using move_to_front [OF lok n] by blast
    let ?xs = "lru_entries (tc_lru s)"
    have o: "tc_open i s = Some (s\<lparr>tc_lru := c\<rparr>, p)" using a n e c by (simp add: tc_open_def)
    have "distinct (map fst ?xs)" "distinct (map snd ?xs)" using ok by (simp_all add: tc_ok_def lru_ok_def)
    note front = front_entries [OF this a(2), folded c(2)]
    have tables: "open_tables (s\<lparr>tc_lru := c\<rparr>) = lru_touch table_cache_size (id_no i) (Some (sstable_id_name i)) (open_tables s)"
    proof -
      have "map_of (open_tables s) (id_no i) = Some (tc_streams s p)" by (simp add: open_tables_def map_of_open_tables a(2))
      moreover have "filter (\<lambda>q. fst q \<noteq> id_no i) (open_tables s) =
          map (\<lambda>(k, q). (k, tc_streams s q)) (filter (\<lambda>q. fst q \<noteq> id_no i) ?xs)"
        by (simp add: open_tables_def filter_map comp_def case_prod_unfold)
      ultimately show ?thesis by (simp add: lru_touch_def) (simp add: open_tables_def c(2))
    qed
    have "length (lru_entries c) \<le> table_cache_size"
      using arg_cong [OF tables, of length] length_touch [of "open_tables s" table_cache_size] ok
      by (simp add: open_tables_def tc_ok_def table_cache_size_def)
    then have "tc_ok (s\<lparr>tc_lru := c\<rparr>)" using ok c(1) front by (simp add: tc_ok_def)
    moreover have "hd (open_tables (s\<lparr>tc_lru := c\<rparr>)) = (id_no i, tc_streams (s\<lparr>tc_lru := c\<rparr>) p)"
      by (simp add: open_tables_def c(2))
    ultimately show ?thesis using o tables by blast
  qed (use hit in simp)
qed

lemma make_room:
  assumes ok: "tc_ok s"
  obtains s1 where "(if length (lru_lists (tc_lru s)) = table_cache_size then do {
      n \<leftarrow> list_back (tc_lru s);
      s1 \<leftarrow> delete_stream (snd n) s;
      c \<leftarrow> pop_back (map_erase (fst n) (tc_lru s));
      Some (s1\<lparr>tc_lru := c\<rparr>) } else Some s) = Some s1" "tc_ok s1" "length (lru_entries (tc_lru s1)) < table_cache_size"
    "open_tables s1 = (if length (open_tables s) = table_cache_size then butlast (open_tables s) else open_tables s)"
    "\<And>k. lru_map (tc_lru s) k = None \<Longrightarrow> lru_map (tc_lru s1) k = None"
proof (cases "length (lru_lists (tc_lru s)) = table_cache_size")
  case False
  then show ?thesis using that [of s] ok by (simp add: tc_ok_def lru_entries_def open_tables_def)
next
  case True
  then have ne: "lru_entries (tc_lru s) \<noteq> []" by (auto simp: lru_entries_def table_cache_size_def)
  have lok: "lru_ok (tc_lru s)" using ok by (simp add: tc_ok_def)
  from drop_last [OF lok ne] obtain k p c where c: "list_back (tc_lru s) = Some (k, p)" "pop_back (map_erase k (tc_lru s)) = Some c"
      "lru_ok c" "lru_entries (tc_lru s) = lru_entries c @ [(k, p)]" "lru_map c = (lru_map (tc_lru s))(k := None)" by blast
  let ?s = "s\<lparr>tc_lru := c, tc_streams := (tc_streams s)(p := None)\<rparr>"
  have len: "length (lru_lists (tc_lru s)) = Suc (length (lru_entries c))"
    using arg_cong [OF c(4), of length] by (simp add: lru_entries_def)
  have p: "p \<notin> snd ` set (lru_entries c)" "tc_streams s p \<noteq> None" using ok c(4) by (auto simp: tc_ok_def)
  have "tc_ok ?s" using ok c(3,4) p by (auto simp: tc_ok_def)
  moreover have "open_tables ?s = butlast (open_tables s)"
    using p(1) by (auto simp: open_tables_def c(4) image_iff)
  moreover have "length (lru_entries c) < table_cache_size" "length (open_tables s) = table_cache_size"
    using True len by (simp_all add: lru_entries_def open_tables_def)
  ultimately show ?thesis
    using that [of ?s] True c(1,2,5) p(2) by (auto simp: delete_stream_def)
qed

lemma tc_open_miss:
  assumes ok: "tc_ok s" and miss: "lru_map (tc_lru s) (id_no i) = None"
  shows "\<exists>s' p. tc_open i s = Some (s', p) \<and> tc_ok s' \<and>
    open_tables s' = lru_touch table_cache_size (id_no i) (Some (sstable_id_name i)) (open_tables s) \<and>
    hd (open_tables s') = (id_no i, tc_streams s' p)"
proof -
  have lok: "lru_ok (tc_lru s)" using ok by (simp add: tc_ok_def)
  have none: "map_of (lru_entries (tc_lru s)) (id_no i) = None"
    by (rule lru_map_cases [OF lok, of "id_no i"]) (use miss in simp_all)
  obtain s1 where s1: "tc_ok s1" "length (lru_entries (tc_lru s1)) < table_cache_size" "lru_map (tc_lru s1) (id_no i) = None"
      "open_tables s1 = (if length (open_tables s) = table_cache_size then butlast (open_tables s) else open_tables s)"
    and room: "(if length (lru_lists (tc_lru s)) = table_cache_size then do {
      n \<leftarrow> list_back (tc_lru s);
      s1 \<leftarrow> delete_stream (snd n) s;
      c \<leftarrow> pop_back (map_erase (fst n) (tc_lru s));
      Some (s1\<lparr>tc_lru := c\<rparr>) } else Some s) = Some s1"
    by (rule make_room [OF ok]) (use miss in blast)
  have lok1: "lru_ok (tc_lru s1)" using s1(1) by (simp add: tc_ok_def)
  let ?p = "tc_next s1"
  obtain c where c: "map_begin (id_no i) (push_front (id_no i, ?p) (tc_lru s1)) = Some c" "lru_ok c"
      "lru_entries c = (id_no i, ?p) # lru_entries (tc_lru s1)"
    using insert_front [OF lok1 s1(3), of ?p] by blast
  let ?s = "s1\<lparr>tc_lru := c, tc_streams := (tc_streams s1)(?p \<mapsto> sstable_id_name i), tc_next := ?p + 1\<rparr>"
  have o: "tc_open i s = Some (?s, ?p)" unfolding tc_open_def miss option.case room using c(1) by (simp add: Let_def)
  have new: "?p \<notin> snd ` set (lru_entries (tc_lru s1))" using s1(1) by (auto simp: tc_ok_def)
  have "\<forall>p \<in> dom (tc_streams ?s). p < tc_next ?s" using s1(1) by (simp add: tc_ok_def less_SucI)
  moreover have "dom (tc_streams ?s) = snd ` set (lru_entries c)" using s1(1) c(3) by (simp add: tc_ok_def)
  ultimately have "tc_ok ?s" using s1(1,2) c(2,3) new by (simp add: tc_ok_def)
  moreover have "open_tables ?s = (id_no i, Some (sstable_id_name i)) # open_tables s1"
  proof -
    have "q \<noteq> ?p" if "(k, q) \<in> set (lru_entries (tc_lru s1))" for k q using new that by force
    then show ?thesis by (auto simp: open_tables_def c(3))
  qed
  moreover have "map_of (open_tables s) (id_no i) = None" using none by (simp add: open_tables_def map_of_open_tables)
  ultimately show ?thesis using o s1(4) by (auto simp: lru_touch_def)
qed

lemma tc_open_lru:
  assumes "tc_ok s"
  shows "\<exists>s' p. tc_open i s = Some (s', p) \<and> tc_ok s' \<and>
    open_tables s' = lru_touch table_cache_size (id_no i) (Some (sstable_id_name i)) (open_tables s) \<and>
    hd (open_tables s') = (id_no i, tc_streams s' p)"
  using tc_open_hit [OF assms] tc_open_miss [OF assms] by (cases "lru_map (tc_lru s) (id_no i)") simp_all

text \<open>The caller asks for tables one after the other, and is given streams.\<close>

fun open_all :: "sstable_id list \<Rightarrow> table_cache \<Rightarrow> (table_cache \<times> nat list) option" where
  "open_all [] s = Some (s, [])"
| "open_all (i # is) s = do {
     (s1, p) \<leftarrow> tc_open i s;
     (s2, ps) \<leftarrow> open_all is s1;
     Some (s2, p # ps) }"

definition lru_tables :: "sstable_id list \<Rightarrow> (uint64 \<times> path option) list \<Rightarrow> (uint64 \<times> path option) list" where
  "lru_tables is = fold (\<lambda>i. lru_touch table_cache_size (id_no i) (Some (sstable_id_name i))) is"

lemma open_all_lru:
  "tc_ok s \<Longrightarrow> \<exists>s' ps. open_all is s = Some (s', ps) \<and> tc_ok s' \<and> open_tables s' = lru_tables is (open_tables s) \<and> length ps = length is"
proof (induction "is" arbitrary: s)
  case (Cons i "is")
  then obtain s1 p where 1: "tc_open i s = Some (s1, p)" "tc_ok s1"
      "open_tables s1 = lru_touch table_cache_size (id_no i) (Some (sstable_id_name i)) (open_tables s)"
    using tc_open_lru by blast
  with Cons.IH [OF 1(2)] show ?case by (auto simp: lru_tables_def)
qed (simp add: lru_tables_def)

lemma delete_streams_all:
  "distinct ps \<Longrightarrow> set ps \<subseteq> dom (tc_streams s) \<Longrightarrow>
    \<exists>s'. delete_streams ps s = Some s' \<and> dom (tc_streams s') = dom (tc_streams s) - set ps"
proof (induction ps arbitrary: s)
  case (Cons p ps)
  let ?s = "s\<lparr>tc_streams := (tc_streams s)(p := None)\<rparr>"
  have "set ps \<subseteq> dom (tc_streams ?s)" using Cons.prems by auto
  moreover have d: "dom (tc_streams ?s) = dom (tc_streams s) - {p}" by auto
  ultimately obtain s' where s': "delete_streams ps ?s = Some s'"
      "dom (tc_streams s') = dom (tc_streams s) - {p} - set ps" using Cons.IH [of ?s] Cons.prems(1) unfolding d by auto
  have "tc_streams s p \<noteq> None" using Cons.prems(2) by auto
  with s' show ?case by (auto simp: delete_stream_def)
qed simp

lemma tc_destroy_all:
  assumes "tc_ok s" shows "\<exists>s'. tc_destroy s = Some s' \<and> tc_streams s' = Map.empty"
proof -
  have ps: "map (snd \<circ> snd) (lru_lists (tc_lru s)) = map snd (lru_entries (tc_lru s))" by (simp add: lru_entries_def)
  obtain s' where "tc_destroy s = Some s'" "dom (tc_streams s') = {}"
    using delete_streams_all [of "map snd (lru_entries (tc_lru s))" s] assms unfolding tc_destroy_def ps by (auto simp: tc_ok_def)
  then show ?thesis by auto
qed

text \<open>C37. A \<open>TableCache\<close> that is only opened from is a least-recently-used cache of ten tables: every \<open>open\<close> returns,
  follows no iterator to an erased node, and gives a stream that stands in front of the list, on the file
  under which the number was first opened; the streams on the heap are those in the list, and the
  destructor closes them all.\<close>

theorem table_cache_is_lru:
  "\<exists>s ps s1 p s2. open_all is tc_new = Some (s, ps) \<and> tc_open i s = Some (s1, p) \<and>
    open_tables s1 = lru_tables (is @ [i]) [] \<and> length (open_tables s1) \<le> 10 \<and>
    hd (open_tables s1) = (id_no i, tc_streams s1 p) \<and>
    dom (tc_streams s1) = snd ` set (lru_entries (tc_lru s1)) \<and> tc_destroy s1 = Some s2 \<and> tc_streams s2 = Map.empty"
proof -
  obtain s ps where s: "open_all is tc_new = Some (s, ps)" "tc_ok s" "open_tables s = lru_tables is []"
    using open_all_lru [OF tc_new_ok(1), of "is"] by (auto simp: tc_new_ok(2))
  obtain s1 p where s1: "tc_open i s = Some (s1, p)" "tc_ok s1"
      "open_tables s1 = lru_touch table_cache_size (id_no i) (Some (sstable_id_name i)) (open_tables s)"
      "hd (open_tables s1) = (id_no i, tc_streams s1 p)" using tc_open_lru [OF s(2)] by blast
  obtain s2 where "tc_destroy s1 = Some s2" "tc_streams s2 = Map.empty" using tc_destroy_all [OF s1(2)] by blast
  moreover have "open_tables s1 = lru_tables (is @ [i]) []" by (simp add: s1(3) s(3) lru_tables_def)
  moreover have "length (open_tables s1) \<le> 10" "dom (tc_streams s1) = snd ` set (lru_entries (tc_lru s1))"
    using s1(2) by (simp_all add: tc_ok_def open_tables_def table_cache_size_def)
  ultimately show ?thesis using s(1) s1(1,4) by blast
qed

text \<open>\<open>close\<close> does nothing for a table that is not in the cache, and follows an iterator to the erased node for one that is.\<close>

lemma tc_close_cases:
  assumes "tc_ok s"
  shows "tc_close i s = (if map_of (open_tables s) (id_no i) = None then Some s else None)"
proof -
  have "lru_ok (tc_lru s)" using assms by (simp add: tc_ok_def)
  then show ?thesis
  proof (rule lru_map_cases [of _ "id_no i"])
    assume "lru_map (tc_lru s) (id_no i) = None" "map_of (lru_entries (tc_lru s)) (id_no i) = None"
    then show ?thesis by (simp add: tc_close_def open_tables_def map_of_open_tables)
  next
    fix a p assume a: "lru_map (tc_lru s) (id_no i) = Some a" "map_of (lru_entries (tc_lru s)) (id_no i) = Some p"
      "node_at a (tc_lru s) = Some (id_no i, p)"
    have "node_at a c = None" if "erase_node a (tc_lru s) = Some c" for c
      using that by (auto simp: erase_node_def node_at_def map_of_filter_neq split: if_splits)
    then show ?thesis using a
      by (cases "erase_node a (tc_lru s)"; cases "tc_streams s p") (auto simp: tc_close_def open_tables_def map_of_open_tables)
  qed
qed

text \<open>Closing a table right after it was opened from the cache is undefined: \<open>close\<close> erases the node and then
  takes the stream to delete from it.\<close>

lemma closing_open_table_is_undefined:
  "\<exists>s ps. open_all (is @ [i]) tc_new = Some (s, ps) \<and> tc_close i s = None"
proof -
  obtain s ps where s: "open_all (is @ [i]) tc_new = Some (s, ps)" "tc_ok s" "open_tables s = lru_tables (is @ [i]) []"
    using open_all_lru [OF tc_new_ok(1), of "is @ [i]"] by (auto simp: tc_new_ok(2))
  have "map_of (open_tables s) (id_no i) \<noteq> None"
    unfolding s(3) by (auto simp: lru_tables_def lru_touch_def split: option.splits)
  with s(1,2) show ?thesis using tc_close_cases [OF s(2), of i] by auto
qed

section \<open>The block cache\<close>

text \<open>The lines that make the identifier of a block and that load it are commented out in \<open>read\<close>, so both are the
  empty string; the hit branch looks up \<open>block\<close> where \<open>blockId\<close> is meant.\<close>

record block_cache =
  bc_num_blocks :: uint64
  bc_lru :: "(bytes, bytes) lru"

record location =
  loc_pos :: uint64
  loc_offset :: uint64
  loc_len :: uint64

definition block_cache_size :: nat where
  "block_cache_size = 100"

definition bc_new :: block_cache where
  "bc_new = \<lparr>bc_num_blocks = 0, bc_lru = lru_new\<rparr>"

text \<open>The first component is the cache after the call, also if \<open>substr\<close> throws.\<close>

definition bc_read :: "location \<Rightarrow> block_cache \<Rightarrow> (block_cache \<times> bytes option) option" where
  "bc_read loc s = (let blockId = []; block = [] in do {
     (s1, block1) \<leftarrow>
       (if lru_map (bc_lru s) blockId \<noteq> None then do {
          a \<leftarrow> lru_map (bc_lru s) block;
          n \<leftarrow> node_at a (bc_lru s);
          let block1 = snd n;
          a1 \<leftarrow> lru_map (bc_lru s) block1;
          c \<leftarrow> erase_node a1 (bc_lru s);
          c1 \<leftarrow> map_begin block1 (push_front (blockId, block1) c);
          Some (s\<lparr>bc_lru := c1\<rparr>, block1) }
        else do {
          s1 \<leftarrow> (if bc_num_blocks s = block_cache_size then do {
             n \<leftarrow> list_back (bc_lru s);
             c \<leftarrow> pop_back (map_erase (fst n) (bc_lru s));
             Some (s\<lparr>bc_num_blocks := bc_num_blocks s - 1, bc_lru := c\<rparr>) }
           else Some s);
          c \<leftarrow> map_begin blockId (push_front (blockId, block) (bc_lru s1));
          Some (s1\<lparr>bc_num_blocks := bc_num_blocks s1 + 1, bc_lru := c\<rparr>, block) });
     Some (s1, substr block1 (loc_offset loc) (loc_len loc)) })"

fun read_blocks :: "location list \<Rightarrow> block_cache \<Rightarrow> (block_cache \<times> bytes option list) option" where
  "read_blocks [] s = Some (s, [])"
| "read_blocks (loc # locs) s = do {
     (s1, r) \<leftarrow> bc_read loc s;
     (s2, rs) \<leftarrow> read_blocks locs s1;
     Some (s2, r # rs) }"

definition bc_ok :: "block_cache \<Rightarrow> bool" where
  "bc_ok s \<longleftrightarrow> (bc_num_blocks s = 0 \<and> lru_lists (bc_lru s) = [] \<and> lru_map (bc_lru s) = Map.empty) \<or>
     (\<exists>a. bc_num_blocks s = 1 \<and> lru_lists (bc_lru s) = [(a, [], [])] \<and> lru_map (bc_lru s) [] = Some a \<and> a < lru_fresh (bc_lru s))"

lemma bc_read_empty:
  assumes "bc_ok s"
  shows "\<exists>s'. bc_read loc s = Some (s', if loc_offset loc = 0 then Some [] else None) \<and> bc_ok s'"
  using assms
  by (auto simp: bc_ok_def bc_read_def Let_def substr_def block_cache_size_def node_at_def erase_node_def push_front_def map_begin_def)

lemma read_blocks_empty:
  "bc_ok s \<Longrightarrow> \<exists>s'. read_blocks locs s = Some (s', map (\<lambda>loc. if loc_offset loc = 0 then Some [] else None) locs) \<and> bc_ok s'"
proof (induction locs arbitrary: s)
  case (Cons loc locs)
  obtain s1 where "bc_read loc s = Some (s1, if loc_offset loc = 0 then Some [] else None)" "bc_ok s1"
    using bc_read_empty [OF Cons.prems] by blast
  with Cons.IH [of s1] show ?case by auto
qed auto

text \<open>Whatever block is asked for, the cache holds one entry at most and answers with nothing.\<close>

lemma block_cache_holds_nothing:
  "\<exists>s. read_blocks locs bc_new = Some (s, map (\<lambda>loc. if loc_offset loc = 0 then Some [] else None) locs) \<and> bc_num_blocks s \<le> 1"
proof -
  have "bc_ok bc_new" by (simp add: bc_ok_def bc_new_def lru_new_def)
  from read_blocks_empty [OF this] show ?thesis by (fastforce simp: bc_ok_def)
qed

end
