(* ===== verification/KVConcurrent.thy ===== *)
theory KVConcurrent
  imports KVStore
begin

text \<open>
  Calls of \<open>KVStore_beta\<close> from several threads (\<open>src/storage/KVStore_beta.cpp\<close>). \<open>put\<close> holds the mutex throughout. \<open>get\<close> and
  \<open>del\<close> hold it while they look into the memtable; if the key is not there they give it up and search the disk
  without it, one table after the other (\<open>LevelZero::search\<close>), and \<open>del\<close> takes it again to write its tombstone. A
  call is as many steps as that takes, and other threads may take any steps in between.

  A \<open>put\<close> that fills the memtable adds a table, so it changes the vector that the searches go through. If that
  happens between the moment another thread gives up the mutex and the end of its search, nothing orders the
  two accesses: it is a data race, undefined in C++. Such a step leads to \<open>None\<close>, and so has no continuation; what
  callers do with the answers of earlier calls is taken to order these before later calls. \<open>put_races\<close> shows
  that the code can run into it.

  A step carries an event. A history holds the events, newest first, each with the store as it was before.
\<close>

text \<open>\<open>GetSearch\<close> and \<open>DelSearch\<close> are calls that have given up the mutex and not yet begun the loop over the tables,
  \<open>GetScan\<close> and \<open>DelScan\<close> calls inside the loop, with the tables left.\<close>

datatype pending =
    GetSearch bytes
  | GetScan bytes "sstable_id list"
  | DelSearch bytes
  | DelScan bytes "sstable_id list"
  | DelFound bytes

record conc_store =
  cs_kv :: kv_store
  cs_pend :: "nat \<rightharpoonup> pending"

datatype kv_event =
    PutDone nat bytes bytes
  | Missed nat
  | Scanned nat
  | Found nat
  | GetDone nat bytes "bool \<times> bytes"
  | DelDone nat bytes bool

text \<open>\<open>if (result.first && result.second != "") return result; return make_pair(false, "");\<close>\<close>

definition found_value :: "bool \<times> bytes \<Rightarrow> bool \<times> bytes" where
  "found_value r = (if fst r \<and> snd r \<noteq> [] then r else (False, []))"

text \<open>\<open>get\<close> and \<open>del\<close> up to the point where they return or give up the mutex.\<close>

definition get_begin :: "nat \<Rightarrow> bytes \<Rightarrow> conc_store \<Rightarrow> (kv_event \<times> conc_store) option" where
  "get_begin i key s = do {
     has \<leftarrow> sl_contains (kv_mem (cs_kv s)) key;
     (if has then do { r \<leftarrow> sl_get (kv_mem (cs_kv s)) key; Some (GetDone i key (found_value r), s) }
      else Some (Missed i, s\<lparr>cs_pend := (cs_pend s)(i \<mapsto> GetSearch key)\<rparr>)) }"

text \<open>\<open>for (auto sst : ssts_)\<close>: the start of the loop, and one round of it: an answer or the tables that are left.\<close>

definition search_begin :: "kv_store \<Rightarrow> sstable_id list" where
  "search_begin kv = lz_ssts (ds_level0 (snd (kv_disk kv)))"

definition search_next :: "(bytes \<Rightarrow> bytes) \<Rightarrow> kv_store \<Rightarrow> bytes \<Rightarrow> sstable_id list \<Rightarrow> ((bool \<times> bytes) + sstable_id list) option" where
  "search_next unsnap kv key ssts = (case ssts of
     [] \<Rightarrow> Some (Inl (False, []))
   | sst # rest \<Rightarrow> do {
       result \<leftarrow> lz_search_from unsnap (fst (kv_disk kv)) (lz_table_cache (ds_level0 (snd (kv_disk kv)))) [sst] key;
       Some (if fst result then Inl result else Inr rest) })"

definition get_start :: "nat \<Rightarrow> bytes \<Rightarrow> conc_store \<Rightarrow> kv_event \<times> conc_store" where
  "get_start i key s = (Scanned i, s\<lparr>cs_pend := (cs_pend s)(i \<mapsto> GetScan key (search_begin (cs_kv s)))\<rparr>)"

definition get_search :: "(bytes \<Rightarrow> bytes) \<Rightarrow> nat \<Rightarrow> bytes \<Rightarrow> sstable_id list \<Rightarrow> conc_store \<Rightarrow> (kv_event \<times> conc_store) option" where
  "get_search unsnap i key ssts s = do {
     x \<leftarrow> search_next unsnap (cs_kv s) key ssts;
     Some (case x of
       Inr rest \<Rightarrow> (Scanned i, s\<lparr>cs_pend := (cs_pend s)(i \<mapsto> GetScan key rest)\<rparr>)
     | Inl r \<Rightarrow> (GetDone i key (found_value r), s\<lparr>cs_pend := (cs_pend s)(i := None)\<rparr>)) }"

definition del_begin :: "nat \<Rightarrow> bytes \<Rightarrow> conc_store \<Rightarrow> (kv_event \<times> conc_store) option" where
  "del_begin i key s = do {
     has \<leftarrow> sl_contains (kv_mem (cs_kv s)) key;
     (if has then do {
        (b, m) \<leftarrow> sl_del (kv_mem (cs_kv s)) key;
        Some (DelDone i key True, s\<lparr>cs_kv := (cs_kv s)\<lparr>kv_mem := m\<rparr>\<rparr>) }
      else Some (Missed i, s\<lparr>cs_pend := (cs_pend s)(i \<mapsto> DelSearch key)\<rparr>)) }"

definition del_start :: "nat \<Rightarrow> bytes \<Rightarrow> conc_store \<Rightarrow> kv_event \<times> conc_store" where
  "del_start i key s = (Scanned i, s\<lparr>cs_pend := (cs_pend s)(i \<mapsto> DelScan key (search_begin (cs_kv s)))\<rparr>)"

definition del_search :: "(bytes \<Rightarrow> bytes) \<Rightarrow> nat \<Rightarrow> bytes \<Rightarrow> sstable_id list \<Rightarrow> conc_store \<Rightarrow> (kv_event \<times> conc_store) option" where
  "del_search unsnap i key ssts s = do {
     x \<leftarrow> search_next unsnap (cs_kv s) key ssts;
     Some (case x of
       Inr rest \<Rightarrow> (Scanned i, s\<lparr>cs_pend := (cs_pend s)(i \<mapsto> DelScan key rest)\<rparr>)
     | Inl r \<Rightarrow> (if fst r \<and> snd r \<noteq> [] then (Found i, s\<lparr>cs_pend := (cs_pend s)(i \<mapsto> DelFound key)\<rparr>)
                else (DelDone i key False, s\<lparr>cs_pend := (cs_pend s)(i := None)\<rparr>))) }"

definition del_finish :: "nat \<Rightarrow> nat \<Rightarrow> bytes \<Rightarrow> conc_store \<Rightarrow> (kv_event \<times> conc_store) option" where
  "del_finish ones i key s = do {
     m \<leftarrow> sl_put ones (kv_mem (cs_kv s)) key [];
     Some (DelDone i key True, s\<lparr>cs_kv := (cs_kv s)\<lparr>kv_mem := m\<rparr>, cs_pend := (cs_pend s)(i := None)\<rparr>) }"

text \<open>A thread that has given up the mutex and whose search is not over.\<close>

definition searching :: "conc_store \<Rightarrow> nat \<Rightarrow> bool" where
  "searching s j \<longleftrightarrow> (case cs_pend s j of None \<Rightarrow> False | Some (DelFound k) \<Rightarrow> False | _ \<Rightarrow> True)"

text \<open>\<open>put\<close> reaches \<open>diskstorage_.add\<close>.\<close>

definition put_flushes :: "nat \<Rightarrow> kv_store \<Rightarrow> bytes \<Rightarrow> bytes \<Rightarrow> bool" where
  "put_flushes ones kv key val = (case sl_put ones (kv_mem kv) key val of
     Some m \<Rightarrow> of_nat sstable_space < sl_space m | None \<Rightarrow> False)"

inductive conc_step :: "(bytes \<Rightarrow> bytes) \<Rightarrow> (bytes \<Rightarrow> bytes) \<Rightarrow> conc_store \<Rightarrow> kv_event \<Rightarrow> conc_store option \<Rightarrow> bool" for snap unsnap where
  put_call: "cs_pend s i = None \<Longrightarrow> kv_put snap ones (cs_kv s) k v = Some kv' \<Longrightarrow>
    \<forall>a. kv_rep snap (cs_kv s) a \<longrightarrow> kv_fits a (KPut k v) \<Longrightarrow>
    put_flushes ones (cs_kv s) k v \<Longrightarrow> \<forall>j. \<not> searching s j \<Longrightarrow>
    conc_step snap unsnap s (PutDone i k v) (Some (s\<lparr>cs_kv := kv'\<rparr>))"
| put_mem: "cs_pend s i = None \<Longrightarrow> kv_put snap ones (cs_kv s) k v = Some kv' \<Longrightarrow>
    \<forall>a. kv_rep snap (cs_kv s) a \<longrightarrow> kv_fits a (KPut k v) \<Longrightarrow>
    \<not> put_flushes ones (cs_kv s) k v \<Longrightarrow> conc_step snap unsnap s (PutDone i k v) (Some (s\<lparr>cs_kv := kv'\<rparr>))"
| put_race: "cs_pend s i = None \<Longrightarrow> put_flushes ones (cs_kv s) k v \<Longrightarrow> searching s j \<Longrightarrow>
    conc_step snap unsnap s (PutDone i k v) None"
| get_call: "cs_pend s i = None \<Longrightarrow> get_begin i k s = Some (e, s') \<Longrightarrow> conc_step snap unsnap s e (Some s')"
| get_enter: "cs_pend s i = Some (GetSearch k) \<Longrightarrow> get_start i k s = (e, s') \<Longrightarrow> conc_step snap unsnap s e (Some s')"
| get_more: "cs_pend s i = Some (GetScan k ssts) \<Longrightarrow> get_search unsnap i k ssts s = Some (e, s') \<Longrightarrow>
    conc_step snap unsnap s e (Some s')"
| del_call: "cs_pend s i = None \<Longrightarrow> del_begin i k s = Some (e, s') \<Longrightarrow> conc_step snap unsnap s e (Some s')"
| del_enter: "cs_pend s i = Some (DelSearch k) \<Longrightarrow> del_start i k s = (e, s') \<Longrightarrow> conc_step snap unsnap s e (Some s')"
| del_more: "cs_pend s i = Some (DelScan k ssts) \<Longrightarrow> del_search unsnap i k ssts s = Some (e, s') \<Longrightarrow>
    conc_step snap unsnap s e (Some s')"
| del_last: "cs_pend s i = Some (DelFound k) \<Longrightarrow> del_finish ones i k s = Some (e, s') \<Longrightarrow> conc_step snap unsnap s e (Some s')"

inductive conc_run :: "(bytes \<Rightarrow> bytes) \<Rightarrow> (bytes \<Rightarrow> bytes) \<Rightarrow> conc_store \<Rightarrow> (kv_event \<times> kv_store) list \<Rightarrow> conc_store \<Rightarrow> bool"
  for snap unsnap s0 where
  conc_nil: "conc_run snap unsnap s0 [] s0"
| conc_snoc: "conc_run snap unsnap s0 hs s \<Longrightarrow> conc_step snap unsnap s e (Some s') \<Longrightarrow>
    conc_run snap unsnap s0 ((e, cs_kv s) # hs) s'"

definition conc_init :: "kv_store \<Rightarrow> conc_store" where
  "conc_init kv = \<lparr>cs_kv = kv, cs_pend = Map.empty\<rparr>"

text \<open>The stores since the running call of thread \<open>i\<close> looked into the memtable.\<close>

fun since :: "nat \<Rightarrow> (kv_event \<times> kv_store) list \<Rightarrow> kv_store list" where
  "since i [] = []"
| "since i ((e, t) # hs) = (if e = Missed i then [t] else t # since i hs)"

definition window :: "nat \<Rightarrow> (kv_event \<times> kv_store) list \<Rightarrow> conc_store \<Rightarrow> kv_store list" where
  "window i hs s = cs_kv s # (if cs_pend s i = None then [] else since i hs)"

section \<open>The invariant\<close>

text \<open>What the rest of a search answers, on the disk as it is now.\<close>

definition scan_rest :: "(bytes \<Rightarrow> bytes) \<Rightarrow> kv_store \<Rightarrow> bytes \<Rightarrow> sstable_id list \<Rightarrow> (bool \<times> bytes) option" where
  "scan_rest unsnap kv key ssts =
     lz_search_from unsnap (fst (kv_disk kv)) (lz_table_cache (ds_level0 (snd (kv_disk kv)))) ssts key"

lemma scan_rest_begin: "scan_rest unsnap kv key (search_begin kv) = ds_search unsnap (kv_disk kv) key"
  by (simp add: scan_rest_def search_begin_def ds_search_def lz_search_def)

lemma scan_rest_next:
  "scan_rest unsnap kv key ssts = do {
     x \<leftarrow> search_next unsnap kv key ssts;
     (case x of Inl r \<Rightarrow> Some r | Inr rest \<Rightarrow> scan_rest unsnap kv key rest) }"
  by (cases ssts) (auto simp: scan_rest_def search_next_def split: Option.bind_splits)

text \<open>At some moment of its running call, the key of the thread was not in the memtable and the disk answered \<open>r\<close>.\<close>

definition missed_with :: "(bytes \<Rightarrow> bytes) \<Rightarrow> kv_store list \<Rightarrow> bytes \<Rightarrow> (bool \<times> bytes) option \<Rightarrow> bool" where
  "missed_with unsnap ts k r \<longleftrightarrow>
     (\<exists>t \<in> set ts. sl_contains (kv_mem t) k = Some False \<and> ds_search unsnap (kv_disk t) k = r)"

definition pend_ok :: "(bytes \<Rightarrow> bytes) \<Rightarrow> nat \<Rightarrow> (kv_event \<times> kv_store) list \<Rightarrow> conc_store \<Rightarrow> bool" where
  "pend_ok unsnap i hs s \<longleftrightarrow> (case cs_pend s i of
     None \<Rightarrow> True
   | Some (DelFound k) \<Rightarrow> (\<exists>v. v \<noteq> [] \<and> missed_with unsnap (window i hs s) k (Some (True, v)))
   | Some (GetSearch k) \<Rightarrow> missed_with unsnap (window i hs s) k (ds_search unsnap (kv_disk (cs_kv s)) k)
   | Some (GetScan k ssts) \<Rightarrow> missed_with unsnap (window i hs s) k (scan_rest unsnap (cs_kv s) k ssts)
   | Some (DelSearch k) \<Rightarrow> missed_with unsnap (window i hs s) k (ds_search unsnap (kv_disk (cs_kv s)) k)
   | Some (DelScan k ssts) \<Rightarrow> missed_with unsnap (window i hs s) k (scan_rest unsnap (cs_kv s) k ssts))"

definition valid_store :: "(bytes \<Rightarrow> bytes) \<Rightarrow> kv_store \<Rightarrow> bool" where
  "valid_store snap t \<longleftrightarrow> (\<exists>a. kv_rep snap t a)"

lemma valid_storeI: "kv_rep snap t a \<Longrightarrow> valid_store snap t"
  unfolding valid_store_def by blast

definition conc_ok :: "(bytes \<Rightarrow> bytes) \<Rightarrow> (bytes \<Rightarrow> bytes) \<Rightarrow> (kv_event \<times> kv_store) list \<Rightarrow> conc_store \<Rightarrow> bool" where
  "conc_ok snap unsnap hs s \<longleftrightarrow>
     (\<forall>t \<in> insert (cs_kv s) (snd ` set hs). valid_store snap t) \<and> (\<forall>i. pend_ok unsnap i hs s)"

lemma missed_with_mono: "missed_with unsnap ts k r \<Longrightarrow> set ts \<subseteq> set us \<Longrightarrow> missed_with unsnap us k r"
  by (auto simp: missed_with_def)

lemma since_in: "t \<in> set (since i hs) \<Longrightarrow> t \<in> snd ` set hs"
  by (induction i hs rule: since.induct) (auto split: if_splits)

text \<open>A step that leaves the disk alone, or is taken while nobody searches, keeps what the others rely on.\<close>

lemma pend_ok_other:
  assumes ok: "pend_ok unsnap j hs s" and j: "cs_pend s' j = cs_pend s j" and e: "e \<noteq> Missed j"
    and d: "kv_disk (cs_kv s') = kv_disk (cs_kv s) \<or> \<not> searching s j"
  shows "pend_ok unsnap j ((e, cs_kv s) # hs) s'"
proof (cases "cs_pend s j")
  case None
  then show ?thesis using j by (simp add: pend_ok_def)
next
  case (Some p)
  have w: "set (window j hs s) \<subseteq> set (window j ((e, cs_kv s) # hs) s')" using e j Some by (auto simp: window_def)
  note mono = missed_with_mono [OF _ w]
  show ?thesis
  proof (cases "kv_disk (cs_kv s') = kv_disk (cs_kv s)")
    case True
    then show ?thesis using ok mono by (cases p) (auto simp: pend_ok_def j Some scan_rest_def)
  next
    case False
    then show ?thesis using ok mono d by (cases p) (auto simp: pend_ok_def j Some searching_def)
  qed
qed

lemma conc_ok_step:
  assumes ok: "conc_ok snap unsnap hs s" and rep: "valid_store snap (cs_kv s')"
    and own: "pend_ok unsnap i ((e, cs_kv s) # hs) s'" and other: "\<And>j. j \<noteq> i \<Longrightarrow> cs_pend s' j = cs_pend s j \<and> e \<noteq> Missed j"
    and d: "kv_disk (cs_kv s') = kv_disk (cs_kv s) \<or> (\<forall>j. \<not> searching s j)"
  shows "conc_ok snap unsnap ((e, cs_kv s) # hs) s'"
proof -
  have "pend_ok unsnap j ((e, cs_kv s) # hs) s'" for j
    using own pend_ok_other [of unsnap j hs s s' e] other [of j] d ok by (cases "j = i") (auto simp: conc_ok_def)
  with ok rep show ?thesis by (auto simp: conc_ok_def)
qed

text \<open>What a \<open>put\<close> does to the two parts.\<close>

lemma kv_put_parts:
  assumes snap: "snappy_ok snap unsnap" and rep: "kv_rep snap kv a" and fits: "kv_fits a (KPut k v)"
    and put: "kv_put snap ones kv k v = Some kv'"
  shows "valid_store snap kv'" and "put_flushes ones kv k v \<or> kv_disk kv' = kv_disk kv"
proof -
  obtain ps ts where a: "a = (ps, ts)" by (cases a)
  obtain kv1 where "kv_put snap ones kv k v = Some kv1" "kv_rep snap kv1 (kv_abs a (KPut k v))"
    using kv_put_rep [OF snap, of kv ps ts k v ones] rep fits unfolding a by blast
  with put show "valid_store snap kv'" by (auto intro: valid_storeI)
  show "put_flushes ones kv k v \<or> kv_disk kv' = kv_disk kv"
    using put by (auto simp: kv_put_def put_flushes_def split: if_splits Option.bind_splits)
qed

text \<open>What an atomic \<open>get\<close> or \<open>del\<close> answers in a store whose memtable has not the key.\<close>

lemma kv_get_disk:
  assumes "sl_contains (kv_mem t) k = Some False"
  shows "kv_get unsnap t k = map_option found_value (ds_search unsnap (kv_disk t) k)"
  using assms by (cases "ds_search unsnap (kv_disk t) k") (auto simp: kv_get_def found_value_def)

lemma kv_del_disk:
  assumes "kv_rep snap t a" and "sl_contains (kv_mem t) k = Some False" and "ds_search unsnap (kv_disk t) k = Some r"
  shows "\<exists>t'. kv_del unsnap ones t k = Some (fst r \<and> snd r \<noteq> [], t')"
proof -
  obtain m where "sl_put ones (kv_mem t) k [] = Some m"
    using mt.put_rep [of "kv_mem t" "fst a" ones k "[]"] assms(1) by (auto simp: kv_rep_def)
  with assms(2,3) show ?thesis by (auto simp: kv_del_def)
qed

text \<open>The answer that a call gives is the answer of an atomic call at one moment of it.\<close>

definition answer_ok :: "(bytes \<Rightarrow> bytes) \<Rightarrow> (kv_event \<times> kv_store) list \<Rightarrow> conc_store \<Rightarrow> kv_event \<Rightarrow> bool" where
  "answer_ok unsnap hs s e \<longleftrightarrow> (case e of
     GetDone i k r \<Rightarrow> (\<exists>t \<in> set (window i hs s). kv_get unsnap t k = Some r)
   | DelDone i k b \<Rightarrow> (\<exists>t \<in> set (window i hs s). \<exists>t'. kv_del unsnap 0 t k = Some (b, t'))
   | _ \<Rightarrow> True)"

lemma window_rep:
  assumes "conc_ok snap unsnap hs s" and "t \<in> set (window i hs s)"
  shows "valid_store snap t"
  using assms since_in [of t i hs] by (auto simp: conc_ok_def window_def split: if_splits)

lemma get_begin_ok:
  assumes ok: "conc_ok snap unsnap hs s" and i: "cs_pend s i = None" and g: "get_begin i k s = Some (e, s')"
  shows "conc_ok snap unsnap ((e, cs_kv s) # hs) s' \<and> answer_ok unsnap hs s e"
proof -
  obtain a where rep: "kv_rep snap (cs_kv s) a" using ok by (auto simp: conc_ok_def valid_store_def)
  note valid = valid_storeI [OF rep]
  have has: "sl_contains (kv_mem (cs_kv s)) k = Some (map_of (fst a) k \<noteq> None)"
    using mt.has_rep [of "kv_mem (cs_kv s)" "fst a" k] rep by (simp add: kv_rep_def)
  show ?thesis
  proof (cases "map_of (fst a) k")
    case (Some v)
    with has g obtain r where r: "sl_get (kv_mem (cs_kv s)) k = Some r" "e = GetDone i k (found_value r)" "s' = s"
      by (auto simp: get_begin_def split: Option.bind_splits)
    then have "kv_get unsnap (cs_kv s) k = Some (found_value r)" using has Some by (simp add: kv_get_def found_value_def)
    then have "answer_ok unsnap hs s e" using r(2) by (simp add: answer_ok_def window_def)
    moreover have "conc_ok snap unsnap ((e, cs_kv s) # hs) s'"
      by (rule conc_ok_step [OF ok, where i = i]) (use valid r i in \<open>auto simp: pend_ok_def\<close>)
    ultimately show ?thesis by blast
  next
    case None
    with has g have e: "e = Missed i" "s' = s\<lparr>cs_pend := (cs_pend s)(i \<mapsto> GetSearch k)\<rparr>" by (auto simp: get_begin_def)
    have "conc_ok snap unsnap ((e, cs_kv s) # hs) s'"
      by (rule conc_ok_step [OF ok, where i = i])
        (use valid has None in \<open>auto simp: e pend_ok_def missed_with_def window_def\<close>)
    then show ?thesis by (simp add: e answer_ok_def)
  qed
qed

lemma get_start_ok:
  assumes ok: "conc_ok snap unsnap hs s" and i: "cs_pend s i = Some (GetSearch k)" and g: "get_start i k s = (e, s')"
  shows "conc_ok snap unsnap ((e, cs_kv s) # hs) s' \<and> answer_ok unsnap hs s e"
proof -
  have e: "e = Scanned i" "s' = s\<lparr>cs_pend := (cs_pend s)(i \<mapsto> GetScan k (search_begin (cs_kv s)))\<rparr>"
    using g by (auto simp: get_start_def)
  have w: "set (window i hs s) \<subseteq> set (window i ((e, cs_kv s) # hs) s')" by (auto simp: e window_def i)
  have "pend_ok unsnap i hs s" using ok by (simp add: conc_ok_def)
  then have "missed_with unsnap (window i hs s) k (ds_search unsnap (kv_disk (cs_kv s)) k)" by (simp add: pend_ok_def i)
  from missed_with_mono [OF this w] have "pend_ok unsnap i ((e, cs_kv s) # hs) s'" by (simp add: pend_ok_def e scan_rest_begin)
  then have "conc_ok snap unsnap ((e, cs_kv s) # hs) s'"
    by (intro conc_ok_step [OF ok, where i = i]) (use ok in \<open>auto simp: e conc_ok_def\<close>)
  then show ?thesis by (simp add: e answer_ok_def)
qed

lemma get_search_ok:
  assumes ok: "conc_ok snap unsnap hs s" and i: "cs_pend s i = Some (GetScan k ssts)"
    and g: "get_search unsnap i k ssts s = Some (e, s')"
  shows "conc_ok snap unsnap ((e, cs_kv s) # hs) s' \<and> answer_ok unsnap hs s e"
proof -
  obtain x where x: "search_next unsnap (cs_kv s) k ssts = Some x"
    using g by (auto simp: get_search_def split: Option.bind_splits)
  have "pend_ok unsnap i hs s" using ok by (simp add: conc_ok_def)
  then have p: "missed_with unsnap (window i hs s) k (scan_rest unsnap (cs_kv s) k ssts)" by (simp add: pend_ok_def i)
  show ?thesis
  proof (cases x)
    case (Inl r)
    with x g have e: "e = GetDone i k (found_value r)" "s' = s\<lparr>cs_pend := (cs_pend s)(i := None)\<rparr>"
      by (auto simp: get_search_def)
    have "scan_rest unsnap (cs_kv s) k ssts = Some r" using scan_rest_next [of unsnap "cs_kv s" k ssts] x Inl by simp
    with p obtain t where t: "t \<in> set (window i hs s)" "sl_contains (kv_mem t) k = Some False" "ds_search unsnap (kv_disk t) k = Some r"
      by (auto simp: missed_with_def)
    then have "answer_ok unsnap hs s e" using kv_get_disk [OF t(2), of unsnap] by (auto simp: answer_ok_def e)
    moreover have "conc_ok snap unsnap ((e, cs_kv s) # hs) s'"
      by (rule conc_ok_step [OF ok, where i = i]) (use ok in \<open>auto simp: e conc_ok_def pend_ok_def\<close>)
    ultimately show ?thesis by blast
  next
    case (Inr rest)
    with x g have e: "e = Scanned i" "s' = s\<lparr>cs_pend := (cs_pend s)(i \<mapsto> GetScan k rest)\<rparr>"
      by (auto simp: get_search_def)
    have w: "set (window i hs s) \<subseteq> set (window i ((e, cs_kv s) # hs) s')" by (auto simp: e window_def i)
    have "scan_rest unsnap (cs_kv s) k ssts = scan_rest unsnap (cs_kv s) k rest"
      using scan_rest_next [of unsnap "cs_kv s" k ssts] x Inr by simp
    with missed_with_mono [OF p w] have "pend_ok unsnap i ((e, cs_kv s) # hs) s'" by (simp add: pend_ok_def e scan_rest_def)
    then have "conc_ok snap unsnap ((e, cs_kv s) # hs) s'"
      by (intro conc_ok_step [OF ok, where i = i]) (use ok in \<open>auto simp: e conc_ok_def\<close>)
    then show ?thesis by (simp add: e answer_ok_def)
  qed
qed

lemma del_begin_ok:
  assumes ok: "conc_ok snap unsnap hs s" and i: "cs_pend s i = None" and g: "del_begin i k s = Some (e, s')"
  shows "conc_ok snap unsnap ((e, cs_kv s) # hs) s' \<and> answer_ok unsnap hs s e"
proof -
  obtain a where rep: "kv_rep snap (cs_kv s) a" using ok by (auto simp: conc_ok_def valid_store_def)
  note valid = valid_storeI [OF rep]
  have mem: "sl_rep (kv_mem (cs_kv s)) (fst a)" using rep by (simp add: kv_rep_def)
  have has: "sl_contains (kv_mem (cs_kv s)) k = Some (map_of (fst a) k \<noteq> None)" by (rule mt.has_rep [OF mem])
  show ?thesis
  proof (cases "map_of (fst a) k")
    case (Some v)
    obtain m where m: "sl_del (kv_mem (cs_kv s)) k = Some (True, m)" "sl_rep m (al_del k (fst a))"
      using mt.del_rep [OF mem, of k] Some by auto
    with has g Some have e: "e = DelDone i k True" "s' = s\<lparr>cs_kv := (cs_kv s)\<lparr>kv_mem := m\<rparr>\<rparr>" by (auto simp: del_begin_def)
    have "kv_rep snap (cs_kv s') (al_del k (fst a), snd a)" using rep m(2) by (simp add: e kv_rep_def)
    note valid_storeI [OF this]
    then have "conc_ok snap unsnap ((e, cs_kv s) # hs) s'"
      by (intro conc_ok_step [OF ok, where i = i]) (use i in \<open>auto simp: e pend_ok_def\<close>)
    moreover have "answer_ok unsnap hs s e" using has Some m(1) by (simp add: e answer_ok_def window_def kv_del_def)
    ultimately show ?thesis by blast
  next
    case None
    with has g have e: "e = Missed i" "s' = s\<lparr>cs_pend := (cs_pend s)(i \<mapsto> DelSearch k)\<rparr>" by (auto simp: del_begin_def)
    have "conc_ok snap unsnap ((e, cs_kv s) # hs) s'"
      by (rule conc_ok_step [OF ok, where i = i])
        (use valid has None in \<open>auto simp: e pend_ok_def missed_with_def window_def\<close>)
    then show ?thesis by (simp add: e answer_ok_def)
  qed
qed

lemma del_start_ok:
  assumes ok: "conc_ok snap unsnap hs s" and i: "cs_pend s i = Some (DelSearch k)" and g: "del_start i k s = (e, s')"
  shows "conc_ok snap unsnap ((e, cs_kv s) # hs) s' \<and> answer_ok unsnap hs s e"
proof -
  have e: "e = Scanned i" "s' = s\<lparr>cs_pend := (cs_pend s)(i \<mapsto> DelScan k (search_begin (cs_kv s)))\<rparr>"
    using g by (auto simp: del_start_def)
  have w: "set (window i hs s) \<subseteq> set (window i ((e, cs_kv s) # hs) s')" by (auto simp: e window_def i)
  have "pend_ok unsnap i hs s" using ok by (simp add: conc_ok_def)
  then have "missed_with unsnap (window i hs s) k (ds_search unsnap (kv_disk (cs_kv s)) k)" by (simp add: pend_ok_def i)
  from missed_with_mono [OF this w] have "pend_ok unsnap i ((e, cs_kv s) # hs) s'" by (simp add: pend_ok_def e scan_rest_begin)
  then have "conc_ok snap unsnap ((e, cs_kv s) # hs) s'"
    by (intro conc_ok_step [OF ok, where i = i]) (use ok in \<open>auto simp: e conc_ok_def\<close>)
  then show ?thesis by (simp add: e answer_ok_def)
qed

text \<open>A round of the search of \<open>del\<close>: it goes on, it has found a value, or the call is over.\<close>

lemma del_search_ok:
  assumes ok: "conc_ok snap unsnap hs s" and i: "cs_pend s i = Some (DelScan k ssts)"
    and g: "del_search unsnap i k ssts s = Some (e, s')"
  shows "conc_ok snap unsnap ((e, cs_kv s) # hs) s' \<and> answer_ok unsnap hs s e"
proof -
  obtain x where x: "search_next unsnap (cs_kv s) k ssts = Some x"
    using g by (auto simp: del_search_def split: Option.bind_splits)
  have "pend_ok unsnap i hs s" using ok by (simp add: conc_ok_def)
  then have p: "missed_with unsnap (window i hs s) k (scan_rest unsnap (cs_kv s) k ssts)" by (simp add: pend_ok_def i)
  have w: "set (window i hs s) \<subseteq> set (window i ((e, cs_kv s) # hs) s')" if "e \<noteq> Missed i" "cs_pend s' i \<noteq> None"
    using that by (auto simp: window_def i)
  note rnd = scan_rest_next [of unsnap "cs_kv s" k ssts]
  show ?thesis
  proof (cases x)
    case (Inr rest)
    with x g have e: "e = Scanned i" "s' = s\<lparr>cs_pend := (cs_pend s)(i \<mapsto> DelScan k rest)\<rparr>"
      by (auto simp: del_search_def)
    have "missed_with unsnap (window i ((e, cs_kv s) # hs) s') k (scan_rest unsnap (cs_kv s) k rest)"
      using missed_with_mono [OF p w] rnd x Inr by (simp add: e)
    then have "conc_ok snap unsnap ((e, cs_kv s) # hs) s'"
      by (intro conc_ok_step [OF ok, where i = i]) (use ok in \<open>auto simp: e conc_ok_def pend_ok_def scan_rest_def\<close>)
    then show ?thesis by (simp add: e answer_ok_def)
  next
    case (Inl r)
    then have missed: "missed_with unsnap (window i hs s) k (Some r)" using p rnd x by simp
    show ?thesis
    proof (cases "fst r \<and> snd r \<noteq> []")
      case True
      then have e: "e = Found i" "s' = s\<lparr>cs_pend := (cs_pend s)(i \<mapsto> DelFound k)\<rparr>"
        using g x Inl by (auto simp: del_search_def)
      from missed_with_mono [OF missed w] True have "pend_ok unsnap i ((e, cs_kv s) # hs) s'"
        by (cases r) (auto simp: pend_ok_def e)
      then have "conc_ok snap unsnap ((e, cs_kv s) # hs) s'"
        by (intro conc_ok_step [OF ok, where i = i]) (use ok in \<open>auto simp: e conc_ok_def\<close>)
      then show ?thesis by (simp add: e answer_ok_def)
    next
      case False
      then have e: "e = DelDone i k False" "s' = s\<lparr>cs_pend := (cs_pend s)(i := None)\<rparr>"
        using g x Inl by (auto simp: del_search_def)
      have "conc_ok snap unsnap ((e, cs_kv s) # hs) s'"
        by (rule conc_ok_step [OF ok, where i = i]) (use ok in \<open>auto simp: e conc_ok_def pend_ok_def\<close>)
      moreover obtain t where t: "t \<in> set (window i hs s)" "sl_contains (kv_mem t) k = Some False"
          "ds_search unsnap (kv_disk t) k = Some r" using missed by (auto simp: missed_with_def)
      obtain a where "kv_rep snap t a" using window_rep [OF ok t(1)] by (auto simp: valid_store_def)
      from kv_del_disk [OF this t(2,3), of 0] False have "\<exists>t'. kv_del unsnap 0 t k = Some (False, t')" by simp
      with t(1) have "answer_ok unsnap hs s e" by (auto simp: e answer_ok_def)
      ultimately show ?thesis by blast
    qed
  qed
qed

lemma del_finish_ok:
  assumes ok: "conc_ok snap unsnap hs s" and i: "cs_pend s i = Some (DelFound k)" and g: "del_finish ones i k s = Some (e, s')"
  shows "conc_ok snap unsnap ((e, cs_kv s) # hs) s' \<and> answer_ok unsnap hs s e \<and> kv_get unsnap (cs_kv s') k = Some (False, [])"
proof -
  obtain a where rep: "kv_rep snap (cs_kv s) a" using ok by (auto simp: conc_ok_def valid_store_def)
  then have mem: "sl_rep (kv_mem (cs_kv s)) (fst a)" by (simp add: kv_rep_def)
  obtain m where m: "sl_put ones (kv_mem (cs_kv s)) k [] = Some m" "sl_rep m (al_upd k [] (fst a))"
    using mt.put_rep [OF mem] by blast
  with g have e: "e = DelDone i k True" "s' = s\<lparr>cs_kv := (cs_kv s)\<lparr>kv_mem := m\<rparr>, cs_pend := (cs_pend s)(i := None)\<rparr>"
    by (auto simp: del_finish_def)
  have "kv_rep snap (cs_kv s') (al_upd k [] (fst a), snd a)" using rep m(2) by (simp add: e kv_rep_def)
  note valid_storeI [OF this]
  then have "conc_ok snap unsnap ((e, cs_kv s) # hs) s'"
    by (intro conc_ok_step [OF ok, where i = i]) (auto simp: e pend_ok_def)
  moreover have "kv_get unsnap (cs_kv s') k = Some (False, [])"
    using mt.has_rep [OF m(2), of k] mt.get_rep [OF m(2), of k] by (simp add: e kv_get_def map_of_al_upd)
  moreover have "answer_ok unsnap hs s e"
  proof -
    have "pend_ok unsnap i hs s" using ok by (simp add: conc_ok_def)
    then obtain t v where t: "t \<in> set (window i hs s)" "sl_contains (kv_mem t) k = Some False"
        "ds_search unsnap (kv_disk t) k = Some (True, v)" "v \<noteq> []"
      by (auto simp: pend_ok_def i missed_with_def)
    obtain a where "kv_rep snap t a" using window_rep [OF ok t(1)] by (auto simp: valid_store_def)
    from kv_del_disk [OF this t(2,3), of 0] t(1,4) show ?thesis by (auto simp: e answer_ok_def)
  qed
  ultimately show ?thesis by blast
qed

lemma put_ok:
  assumes snap: "snappy_ok snap unsnap" and ok: "conc_ok snap unsnap hs s" and i: "cs_pend s i = None"
    and put: "kv_put snap ones (cs_kv s) k v = Some kv'" and fits: "\<forall>a. kv_rep snap (cs_kv s) a \<longrightarrow> kv_fits a (KPut k v)"
    and race: "put_flushes ones (cs_kv s) k v \<longrightarrow> (\<forall>j. \<not> searching s j)"
  shows "conc_ok snap unsnap ((PutDone i k v, cs_kv s) # hs) (s\<lparr>cs_kv := kv'\<rparr>)"
proof -
  obtain a where rep: "kv_rep snap (cs_kv s) a" using ok by (auto simp: conc_ok_def valid_store_def)
  with fits have "kv_fits a (KPut k v)" by blast
  note parts = kv_put_parts [OF snap rep this put]
  show ?thesis by (rule conc_ok_step [OF ok, where i = i]) (use parts i race in \<open>auto simp: pend_ok_def\<close>)
qed

lemma conc_step_ok:
  assumes "conc_step snap unsnap s e (Some s')" and snap: "snappy_ok snap unsnap" and ok: "conc_ok snap unsnap hs s"
  shows "conc_ok snap unsnap ((e, cs_kv s) # hs) s' \<and> answer_ok unsnap hs s e"
  using assms(1)
proof cases
  case (put_call i ones k v kv')
  have "conc_ok snap unsnap ((PutDone i k v, cs_kv s) # hs) (s\<lparr>cs_kv := kv'\<rparr>)"
    by (rule put_ok [OF snap ok put_call(3,4,5)]) (use put_call(7) in blast)
  then show ?thesis by (simp add: put_call(1,2) answer_ok_def)
next
  case (put_mem i ones k v kv')
  have "conc_ok snap unsnap ((PutDone i k v, cs_kv s) # hs) (s\<lparr>cs_kv := kv'\<rparr>)"
    by (rule put_ok [OF snap ok put_mem(3,4,5)]) (use put_mem(6) in blast)
  then show ?thesis by (simp add: put_mem(1,2) answer_ok_def)
next
  case (get_call i k)
  then show ?thesis by (intro get_begin_ok [OF ok])
next
  case (get_enter i k)
  then show ?thesis by (intro get_start_ok [OF ok])
next
  case (get_more i k ssts)
  then show ?thesis by (intro get_search_ok [OF ok])
next
  case (del_call i k)
  then show ?thesis by (intro del_begin_ok [OF ok])
next
  case (del_enter i k)
  then show ?thesis by (intro del_start_ok [OF ok])
next
  case (del_more i k ssts)
  then show ?thesis by (intro del_search_ok [OF ok])
next
  case (del_last i k ones)
  then show ?thesis using del_finish_ok [OF ok] by blast
qed

lemma conc_run_ok:
  assumes "conc_run snap unsnap (conc_init kv) hs s" and snap: "snappy_ok snap unsnap" and "valid_store snap kv"
  shows "conc_ok snap unsnap hs s"
  using assms(1)
proof (induction rule: conc_run.induct)
  case conc_nil
  then show ?case using assms(3) by (simp add: conc_ok_def conc_init_def pend_ok_def)
next
  case (conc_snoc hs s e s')
  then show ?case using conc_step_ok [OF _ snap] by blast
qed

section \<open>Properties\<close>

text \<open>No call is stuck: the next step of a running call exists, and so does the first step of a new one.\<close>

lemma scan_proceeds:
  assumes snap: "snappy_ok snap unsnap" and ok: "conc_ok snap unsnap hs s" 
    and p: "missed_with unsnap (window i hs s) k (scan_rest unsnap (cs_kv s) k ssts)"
  shows "search_next unsnap (cs_kv s) k ssts \<noteq> None"
proof -
  obtain t where t: "t \<in> set (window i hs s)" "ds_search unsnap (kv_disk t) k = scan_rest unsnap (cs_kv s) k ssts"
    using p by (auto simp: missed_with_def)
  from window_rep [OF ok t(1)] obtain ps ts where "kv_rep snap t (ps, ts)" unfolding valid_store_def by auto
  from disk_search [OF snap this, of k] t(2) have "scan_rest unsnap (cs_kv s) k ssts \<noteq> None" by simp
  then show ?thesis by (subst (asm) scan_rest_next) (auto split: Option.bind_splits)
qed

lemma calls_proceed:
  assumes snap: "snappy_ok snap unsnap" and ok: "conc_ok snap unsnap hs s"
  shows "(case cs_pend s i of
      None \<Rightarrow> get_begin i k s \<noteq> None \<and> del_begin i k s \<noteq> None
    | Some (GetScan k ssts) \<Rightarrow> get_search unsnap i k ssts s \<noteq> None
    | Some (DelScan k ssts) \<Rightarrow> del_search unsnap i k ssts s \<noteq> None
    | Some (DelFound k) \<Rightarrow> del_finish ones i k s \<noteq> None
    | _ \<Rightarrow> True)"
proof (cases "cs_pend s i")
  case None
  obtain ps ts where rep: "kv_rep snap (cs_kv s) (ps, ts)" using ok by (auto simp: conc_ok_def valid_store_def)
  then have mem: "sl_rep (kv_mem (cs_kv s)) ps" by (simp add: kv_rep_def)
  obtain m where "sl_del (kv_mem (cs_kv s)) k = Some (map_of ps k \<noteq> None, m)" using mt.del_rep [OF mem, of k] by blast
  then show ?thesis using mt.has_rep [OF mem] mt.get_rep [OF mem] None by (auto simp: get_begin_def del_begin_def)
next
  case (Some p)
  have pend: "pend_ok unsnap i hs s" using ok by (simp add: conc_ok_def)
  obtain ps where mem: "sl_rep (kv_mem (cs_kv s)) ps" using ok by (auto simp: conc_ok_def valid_store_def kv_rep_def)
  obtain f where "\<And>k'. sl_put ones (kv_mem (cs_kv s)) k' [] = Some (f k')" using mt.put_rep [OF mem, of ones _ "[]"] by metis
  then show ?thesis
    using scan_proceeds [OF snap ok, of i] pend Some
    by (cases p) (auto simp: pend_ok_def get_search_def del_search_def del_finish_def split: Option.bind_splits)
qed

text \<open>C17. Calls from several threads on a store in a fresh directory, interleaved in any way at the points where they give up the
  mutex and between the tables that their searches read, in runs in which no \<open>put\<close> adds a table while another
  thread searches (such a step is a data race and has no continuation, see \<open>put_races\<close>). Each \<open>get\<close> answers what
  an atomic \<open>get\<close> would have answered at some moment between its start and its end, and each \<open>del\<close> what an atomic \<open>del\<close>
  would have; and the store stays well formed.\<close>

theorem interleaved_calls_answer_like_atomic:
  assumes "snappy_ok snap unsnap" and "fresh_dir fs dir" and "kv_new fs dir = Some kv"
    and "conc_run snap unsnap (conc_init kv) hs s" and "conc_step snap unsnap s e (Some s')"
  shows "answer_ok unsnap hs s e \<and> valid_store snap (cs_kv s')"
proof -
  have "valid_store snap kv" using kv_new_rep [OF assms(2), of snap] assms(3) by (auto intro: valid_storeI)
  from conc_run_ok [OF assms(4,1) this] have "conc_ok snap unsnap hs s" .
  from conc_step_ok [OF assms(5,1) this] show ?thesis by (simp add: conc_ok_def)
qed

text \<open>Thread 1 asks for a key that is nowhere.\<close>

lemma first_miss:
  obtains kv where "kv_new empty_fs ''data'' = Some kv" and "kv_rep (\<lambda>x. x) kv ([], [])"
    and "conc_run (\<lambda>x. x) (\<lambda>x. x) (conc_init kv) [(Missed 1, kv)] \<lparr>cs_kv = kv, cs_pend = [1 \<mapsto> GetSearch [5]]\<rparr>"
proof -
  obtain kv where kv: "kv_new empty_fs ''data'' = Some kv" "kv_rep (\<lambda>x. x) kv ([], [])"
    using kv_new_rep [OF fresh_empty [of "''data''"]] by auto
  let ?s1 = "\<lparr>cs_kv = kv, cs_pend = [1 \<mapsto> GetSearch [5]]\<rparr>"
  have "sl_contains (kv_mem kv) [5] = Some False" using mt.has_rep [of "kv_mem kv" "[]" "[5]"] kv(2) by (simp add: kv_rep_def)
  then have "get_begin 1 [5] (conc_init kv) = Some (Missed 1, ?s1)" by (simp add: get_begin_def conc_init_def)
  then have "conc_step (\<lambda>x. x) (\<lambda>x. x) (conc_init kv) (Missed 1) (Some ?s1)" by (intro get_call) (simp_all add: conc_init_def)
  from conc_snoc [OF conc_nil this] have "conc_run (\<lambda>x. x) (\<lambda>x. x) (conc_init kv) [(Missed 1, kv)] ?s1" by (simp add: conc_init_def)
  with kv that show thesis by blast
qed

text \<open>Then thread 2 puts it, and then thread 1 searches the disk.\<close>

lemma demo_interleaving:
  "\<exists>kv kv' s s'. kv_new empty_fs ''data'' = Some kv \<and>
    conc_run (\<lambda>x. x) (\<lambda>x. x) (conc_init kv) [(Scanned 1, kv'), (PutDone 2 [5] [1], kv), (Missed 1, kv)] s \<and>
    cs_kv s = kv' \<and> kv_get (\<lambda>x. x) kv' [5] = Some (True, [1]) \<and> cs_pend s 1 = Some (GetScan [5] []) \<and>
    conc_step (\<lambda>x. x) (\<lambda>x. x) s (GetDone 1 [5] (False, [])) (Some s')"
proof -
  obtain kv where kv: "kv_new empty_fs ''data'' = Some kv" "kv_rep (\<lambda>x. x) kv ([], [])"
    and r1: "conc_run (\<lambda>x. x) (\<lambda>x. x) (conc_init kv) [(Missed 1, kv)] \<lparr>cs_kv = kv, cs_pend = [1 \<mapsto> GetSearch [5]]\<rparr>"
    by (rule first_miss)
  have fit: "kv_fits ([], []) (KPut [5] [1])" by (simp add: small_def)
  obtain kv' where put: "kv_put (\<lambda>x. x) 0 kv [5] [1] = Some kv'" "kv_rep (\<lambda>x. x) kv' ([([5], [1])], [])"
    using kv_put_rep [OF snappy_id kv(2) fit, of 0] by (auto simp: sstable_space_def)
  have fits: "\<forall>a. kv_rep (\<lambda>x. x) kv a \<longrightarrow> kv_fits a (KPut [5] [1])" using kv_rep_fits [OF kv(2) fit] by simp
  obtain m where m: "sl_put 0 (kv_mem kv) [5] [1] = Some m" "sl_rep m [([5], [1])]"
    using mt.put_rep [of "kv_mem kv" "[]" 0 "[5]" "[1]"] kv(2) by (auto simp: kv_rep_def)
  have "\<not> put_flushes 0 kv [5] [1]" using space_test [OF m(2)] m(1) by (simp add: put_flushes_def small_def sstable_space_def)
  with put(1) fits have "conc_step (\<lambda>x. x) (\<lambda>x. x) \<lparr>cs_kv = kv, cs_pend = [1 \<mapsto> GetSearch [5]]\<rparr> (PutDone 2 [5] [1])
      (Some \<lparr>cs_kv = kv', cs_pend = [1 \<mapsto> GetSearch [5]]\<rparr>)"
    using put_mem [of "\<lparr>cs_kv = kv, cs_pend = [1 \<mapsto> GetSearch [5]]\<rparr>" 2 "\<lambda>x. x" 0 "[5]" "[1]" kv' "\<lambda>x. x"] by simp
  from conc_snoc [OF r1 this]
  have r2: "conc_run (\<lambda>x. x) (\<lambda>x. x) (conc_init kv) [(PutDone 2 [5] [1], kv), (Missed 1, kv)]
      \<lparr>cs_kv = kv', cs_pend = [1 \<mapsto> GetSearch [5]]\<rparr>" by simp
  have "search_begin kv' = []" using put(2) by (cases "kv_disk kv'") (auto simp: kv_rep_def ds_rep_def search_begin_def)
  then have "conc_step (\<lambda>x. x) (\<lambda>x. x) \<lparr>cs_kv = kv', cs_pend = [1 \<mapsto> GetSearch [5]]\<rparr> (Scanned 1)
      (Some \<lparr>cs_kv = kv', cs_pend = [1 \<mapsto> GetScan [5] []]\<rparr>)"
    by (intro get_enter [where i = 1 and k = "[5]"]) (simp_all add: get_start_def)
  from conc_snoc [OF r2 this] have r3: "conc_run (\<lambda>x. x) (\<lambda>x. x) (conc_init kv)
      [(Scanned 1, kv'), (PutDone 2 [5] [1], kv), (Missed 1, kv)] \<lparr>cs_kv = kv', cs_pend = [1 \<mapsto> GetScan [5] []]\<rparr>" by simp
  have "conc_step (\<lambda>x. x) (\<lambda>x. x) \<lparr>cs_kv = kv', cs_pend = [1 \<mapsto> GetScan [5] []]\<rparr> (GetDone 1 [5] (False, []))
      (Some \<lparr>cs_kv = kv', cs_pend = Map.empty\<rparr>)"
    by (intro get_more [where i = 1 and k = "[5]" and ssts = "[]"]) (simp_all add: get_search_def search_next_def found_value_def)
  moreover have "kv_get (\<lambda>x. x) kv' [5] = Some (True, [1])" using kv_get_rep [OF snappy_id put(2), of "[5]"] by (simp add: visible_def)
  ultimately show ?thesis using kv(1) r3 by fastforce
qed

theorem interleaved_calls_answer_like_atomic_witness:
  "\<exists>kv kv' s. kv_new empty_fs ''data'' = Some kv \<and> cs_kv s = kv' \<and> kv_get (\<lambda>x. x) kv' [5] = Some (True, [1]) \<and>
    (\<exists>s'. conc_step (\<lambda>x. x) (\<lambda>x. x) s (GetDone 1 [5] (False, [])) (Some s')) \<and>
    (\<exists>t \<in> {kv', kv}. kv_get (\<lambda>x. x) t [5] = Some (False, []))"
proof -
  obtain kv kv' s s' where s: "kv_new empty_fs ''data'' = Some kv"
      "conc_run (\<lambda>x. x) (\<lambda>x. x) (conc_init kv) [(Scanned 1, kv'), (PutDone 2 [5] [1], kv), (Missed 1, kv)] s" "cs_kv s = kv'"
      "kv_get (\<lambda>x. x) kv' [5] = Some (True, [1])" "cs_pend s 1 = Some (GetScan [5] [])"
      "conc_step (\<lambda>x. x) (\<lambda>x. x) s (GetDone 1 [5] (False, [])) (Some s')"
    using demo_interleaving by blast
  from interleaved_calls_answer_like_atomic [OF snappy_id fresh_empty [of "''data''"] s(1,2,6)] s(3,5)
  have "\<exists>t \<in> {kv', kv}. kv_get (\<lambda>x. x) t [5] = Some (False, [])" by (auto simp: answer_ok_def window_def)
  with s show ?thesis by blast
qed

text \<open>The race. While thread 1 searches, thread 2 puts a value of two megabytes and so adds a table.\<close>

lemma put_races:
  "\<exists>kv s. kv_new empty_fs ''data'' = Some kv \<and> conc_run (\<lambda>x. x) (\<lambda>x. x) (conc_init kv) [(Missed 1, kv)] s \<and>
    kv_put (\<lambda>x. x) 0 (cs_kv s) [6] (replicate sstable_space 0) \<noteq> None \<and>
    conc_step (\<lambda>x. x) (\<lambda>x. x) s (PutDone 2 [6] (replicate sstable_space 0)) None"
proof -
  obtain kv where kv: "kv_new empty_fs ''data'' = Some kv" "kv_rep (\<lambda>x. x) kv ([], [])"
    and r1: "conc_run (\<lambda>x. x) (\<lambda>x. x) (conc_init kv) [(Missed 1, kv)] \<lparr>cs_kv = kv, cs_pend = [1 \<mapsto> GetSearch [5]]\<rparr>"
    by (rule first_miss)
  define v :: bytes where "v = replicate sstable_space 0"
  have len: "length v = 2 * 1024 * 1024" by (simp add: v_def sstable_space_def)
  have fit: "kv_fits ([], []) (KPut [6] v)" by (simp add: small_def len)
  obtain m where m: "sl_put 0 (kv_mem kv) [6] v = Some m" "sl_rep m [([6], v)]"
    using mt.put_rep [of "kv_mem kv" "[]" 0 "[6]" v] kv(2) by (auto simp: kv_rep_def)
  have "put_flushes 0 kv [6] v"
    using space_test [OF m(2)] m(1) by (simp add: put_flushes_def small_def sstable_space_def len)
  then have "conc_step (\<lambda>x. x) (\<lambda>x. x) \<lparr>cs_kv = kv, cs_pend = [1 \<mapsto> GetSearch [5]]\<rparr> (PutDone 2 [6] v) None"
    by (intro put_race [where ones = 0 and j = 1]) (simp_all add: searching_def)
  moreover have "kv_put (\<lambda>x. x) 0 kv [6] v \<noteq> None" using kv_put_rep [OF snappy_id kv(2) fit, of 0] by auto
  ultimately show ?thesis unfolding v_def [symmetric] using kv(1) r1 by fastforce
qed

end
