(* ===== verification/LockManager.thy ===== *)
theory LockManager
  imports Txn
begin

text \<open>
  The lock manager (\<open>include/transaction/Lock_manager.h\<close>, \<open>src/transaction/Lock_manager.cpp\<close>).

  A request queue is the list of its requests, each named by the address that \<open>new\<close> gave it. A
  call of \<open>LockTable\<close>, \<open>LockPartition\<close> or \<open>LockRow\<close> holds the queue's latch from the search of the
  queue to \<open>cv_.wait\<close>, and from waking up to its return, so it is at most two kinds of atomic
  steps: the call itself, which returns or blocks on a request, and the wake-ups, which evaluate the
  wait predicate again. \<open>Blocked w\<close> is the value of a call that sleeps in \<open>cv_.wait\<close>; \<open>lock_wake\<close>
  continues it. A spurious wake-up is a wake-up. Exceptions are caught inside the class; their
  only effects are the state \<open>ABORTED\<close> and the result. Messages on the streams are left out.
\<close>

record lock_request =
  lr_addr :: nat
  lr_txn :: txn_id
  lr_mode :: lock_mode
  lr_granted :: bool

record lock_queue =
  lq_requests :: "lock_request list"
  lq_upgrading :: bool

record lock_manager =
  lm_map :: "lock_data_id \<rightharpoonup> lock_queue"
  lm_no_wait :: bool
  lm_fresh :: nat

definition queue_new :: lock_queue where
  "queue_new = \<lparr>lq_requests = [], lq_upgrading = False\<rparr>"

definition lock_manager_new :: "bool \<Rightarrow> lock_manager" where
  "lock_manager_new no_wait = \<lparr>lm_map = Map.empty, lm_no_wait = no_wait, lm_fresh = 0\<rparr>"

text \<open>\<open>lock_map_[l_id]\<close> makes an empty queue when there is none.\<close>

definition queue_at :: "lock_manager \<Rightarrow> lock_data_id \<Rightarrow> lock_queue" where
  "queue_at lm l = (case lm_map lm l of Some q \<Rightarrow> q | None \<Rightarrow> queue_new)"

definition set_queue :: "lock_data_id \<Rightarrow> lock_queue \<Rightarrow> lock_manager \<Rightarrow> lock_manager" where
  "set_queue l q lm = lm\<lparr>lm_map := (lm_map lm)(l \<mapsto> q)\<rparr>"

section \<open>Compatibility\<close>

text \<open>\<open>isLockCompatible(iter, target)\<close> and \<open>isUpdateCompatible(iter, upgrade)\<close>, of the mode of \<open>iter\<close>.\<close>

definition isLockCompatible :: "lock_mode \<Rightarrow> lock_mode \<Rightarrow> bool" where
  "isLockCompatible held target =
     (case target of
        INTENTION_SHARED \<Rightarrow> held \<noteq> EXLUCSIVE
      | INTENTION_EXCLUSIVE \<Rightarrow> \<not> (held \<noteq> INTENTION_SHARED \<and> held \<noteq> INTENTION_EXCLUSIVE)
      | SHARED \<Rightarrow> \<not> (held \<noteq> INTENTION_SHARED \<and> held \<noteq> SHARED)
      | S_IX \<Rightarrow> held = INTENTION_SHARED
      | EXLUCSIVE \<Rightarrow> False)"

definition isUpdateCompatible :: "lock_mode \<Rightarrow> lock_mode \<Rightarrow> bool" where
  "isUpdateCompatible held upgrade =
     (case held of
        INTENTION_SHARED \<Rightarrow> upgrade \<noteq> INTENTION_SHARED
      | SHARED \<Rightarrow> upgrade = EXLUCSIVE \<or> upgrade = S_IX
      | INTENTION_EXCLUSIVE \<Rightarrow> upgrade = EXLUCSIVE \<or> upgrade = S_IX
      | S_IX \<Rightarrow> upgrade = EXLUCSIVE
      | EXLUCSIVE \<Rightarrow> False)"

definition checkQueueCompatible :: "lock_queue \<Rightarrow> lock_request \<Rightarrow> bool" where
  "checkQueueCompatible q r =
     list_all (\<lambda>it. lr_addr it \<noteq> lr_addr r \<and> lr_granted it \<longrightarrow> isLockCompatible (lr_mode it) (lr_mode r))
       (lq_requests q)"

text \<open>The predicate of every \<open>cv_.wait\<close>, and the transaction after it ran.\<close>

definition wait_ready :: "bool \<Rightarrow> lock_queue \<Rightarrow> lock_request \<Rightarrow> transaction \<Rightarrow> bool \<times> transaction" where
  "wait_ready no_wait q r txn =
     (if \<not> no_wait then (checkQueueCompatible q r \<or> tx_state txn = ABORTED, txn)
      else if checkQueueCompatible q r then (True, txn)
      else (True, txn\<lparr>tx_state := ABORTED\<rparr>))"

section \<open>Requests\<close>

text \<open>Why a call waits: for a request it finds already there in the same mode, for an upgrade of its
  request, or for a new request.\<close>

datatype wait_kind = WaitSame | WaitUpgrade | WaitNew

datatype lock_outcome = Returned bool | Blocked wait_kind nat

definition set_granted :: "nat \<Rightarrow> lock_queue \<Rightarrow> lock_queue" where
  "set_granted a q = q\<lparr>lq_requests := map (\<lambda>r. if lr_addr r = a then r\<lparr>lr_granted := True\<rparr> else r) (lq_requests q)\<rparr>"

definition set_upgrade :: "nat \<Rightarrow> lock_mode \<Rightarrow> lock_queue \<Rightarrow> lock_queue" where
  "set_upgrade a m q = q\<lparr>lq_upgrading := True,
     lq_requests := map (\<lambda>r. if lr_addr r = a then r\<lparr>lr_mode := m, lr_granted := False\<rparr> else r) (lq_requests q)\<rparr>"

definition find_addr :: "nat \<Rightarrow> lock_queue \<Rightarrow> lock_request option" where
  "find_addr a q = find (\<lambda>r. lr_addr r = a) (lq_requests q)"

definition abort_txn :: "transaction \<Rightarrow> transaction" where
  "abort_txn txn = txn\<lparr>tx_state := ABORTED\<rparr>"

text \<open>After \<open>checkSameTxnLockRequest\<close> returned true: \<open>get_lock_set(..)->count(l_id)\<close>, which on a null
  set is undefined, and \<open>add_lock_set\<close>.\<close>

definition note_lock :: "lock_mode \<Rightarrow> lock_data_id \<Rightarrow> transaction \<Rightarrow> transaction option" where
  "note_lock m l txn = do {
     s \<leftarrow> get_lock_set (ld_type l) m txn;
     Some (if l \<notin> s then add_lock_set m l txn else txn) }"

text \<open>What a call does once its wait predicate held on the request at \<open>a\<close>: the code after
  \<open>cv_.wait\<close>, up to the return of the call.\<close>

definition lock_granted :: "lock_mode \<Rightarrow> lock_data_id \<Rightarrow> wait_kind \<Rightarrow> nat \<Rightarrow> lock_manager \<times> transaction \<Rightarrow>
    (lock_manager \<times> transaction \<times> lock_outcome) option" where
  "lock_granted m l w a s = (case s of (lm, txn) \<Rightarrow>
     if tx_state txn = ABORTED then Some (lm, abort_txn txn, Returned False)
     else
       let q = queue_at lm l;
           q1 = (if w = WaitUpgrade then q\<lparr>lq_upgrading := False\<rparr> else q);
           lm1 = set_queue l (set_granted a q1) lm
       in do {
         txn1 \<leftarrow> (if w = WaitNew then Some (add_lock_set m l txn) else note_lock m l txn);
         Some (lm1, txn1, Returned True) })"

text \<open>Evaluate the wait predicate for the request at \<open>a\<close>: at the call and at every wake-up.\<close>

definition lock_wake :: "lock_mode \<Rightarrow> lock_data_id \<Rightarrow> wait_kind \<Rightarrow> nat \<Rightarrow> lock_manager \<times> transaction \<Rightarrow>
    (lock_manager \<times> transaction \<times> lock_outcome) option" where
  "lock_wake m l w a s = (case s of (lm, txn) \<Rightarrow> do {
     r \<leftarrow> find_addr a (queue_at lm l);
     let (ready, txn1) = wait_ready (lm_no_wait lm) (queue_at lm l) r txn;
     (if ready then lock_granted m l w a (lm, txn1) else Some (lm, txn1, Blocked w a)) })"

text \<open>From the search of the queue on: \<open>checkSameTxnLockRequest\<close> and, when it finds no request of the
  transaction, a new request.\<close>

definition acquire :: "lock_mode \<Rightarrow> lock_data_id \<Rightarrow> lock_manager \<times> transaction \<Rightarrow>
    (lock_manager \<times> transaction \<times> lock_outcome) option" where
  "acquire m l s = (case s of (lm0, txn) \<Rightarrow>
     let q = queue_at lm0 l; lm = set_queue l q lm0
     in case find (\<lambda>r. lr_txn r = tx_id txn) (lq_requests q) of
       Some r \<Rightarrow>
         (if lr_mode r = m \<and> lr_granted r
          then (if tx_state txn = ABORTED then Some (lm, txn, Returned False)
                else do { txn1 \<leftarrow> note_lock m l txn; Some (lm, txn1, Returned True) })
          else if lr_mode r = m then lock_wake m l WaitSame (lr_addr r) (lm, txn)
          else if lq_upgrading q \<or> \<not> isUpdateCompatible (lr_mode r) m
          then Some (lm, abort_txn txn, Returned False)
          else lock_wake m l WaitUpgrade (lr_addr r) (set_queue l (set_upgrade (lr_addr r) m q) lm, txn))
     | None \<Rightarrow>
         (let r = \<lparr>lr_addr = lm_fresh lm, lr_txn = tx_id txn, lr_mode = m, lr_granted = False\<rparr>
          in lock_wake m l WaitNew (lr_addr r)
               (set_queue l (q\<lparr>lq_requests := lq_requests q @ [r]\<rparr>) (lm\<lparr>lm_fresh := lm_fresh lm + 1\<rparr>), txn)))"

text \<open>Step one of every call: the state must be, or become, \<open>GROWING\<close>.\<close>

definition start_growing :: "transaction \<Rightarrow> transaction" where
  "start_growing txn = (if tx_state txn = DEFAULT then txn\<lparr>tx_state := GROWING\<rparr> else txn)"

definition lock_table :: "lock_mode \<Rightarrow> 32 word \<Rightarrow> lock_manager \<times> transaction \<Rightarrow>
    (lock_manager \<times> transaction \<times> lock_outcome) option" where
  "lock_table m oid s = (case s of (lm, txn) \<Rightarrow>
     let txn1 = start_growing txn
     in if tx_state txn1 \<noteq> GROWING then Some (lm, abort_txn txn1, Returned False)
        else acquire m (table_id_of oid) (lm, txn1))"

definition lock_partition :: "lock_mode \<Rightarrow> 32 word \<Rightarrow> 32 word \<Rightarrow> lock_manager \<times> transaction \<Rightarrow>
    (lock_manager \<times> transaction \<times> lock_outcome) option" where
  "lock_partition m oid p_id s = (case s of (lm, txn) \<Rightarrow>
     let txn1 = start_growing txn
     in if tx_state txn1 \<noteq> GROWING then Some (lm, abort_txn txn1, Returned False)
        else acquire m (partition_id_of oid p_id) (lm, txn1))"

definition lock_row :: "lock_mode \<Rightarrow> 32 word \<Rightarrow> 32 word \<Rightarrow> 32 word \<Rightarrow> lock_manager \<times> transaction \<Rightarrow>
    (lock_manager \<times> transaction \<times> lock_outcome) option" where
  "lock_row m oid p_id row s = (case s of (lm, txn) \<Rightarrow>
     let txn1 = start_growing txn
     in if tx_state txn1 \<noteq> GROWING then Some (lm, abort_txn txn1, Returned False)
        else if m \<noteq> SHARED \<and> m \<noteq> EXLUCSIVE then Some (lm, abort_txn txn1, Returned False)
        else acquire m (row_id_of oid p_id row) (lm, txn1))"

section \<open>Release\<close>

text \<open>\<open>request_queue_.erase(iter)\<close> of the first granted request of the transaction.\<close>

fun erase_granted :: "txn_id \<Rightarrow> lock_request list \<Rightarrow> lock_request list option" where
  "erase_granted i [] = None"
| "erase_granted i (r # rs) =
     (if lr_txn r = i \<and> lr_granted r then Some rs else map_option (Cons r) (erase_granted i rs))"

definition unlock :: "lock_data_id \<Rightarrow> lock_manager \<times> transaction \<Rightarrow> lock_manager \<times> transaction \<times> bool" where
  "unlock l s = (case s of (lm, txn) \<Rightarrow>
     let q = queue_at lm l;
         txn1 = (if tx_state txn = GROWING then txn\<lparr>tx_state := SHRINKING\<rparr> else txn)
     in case erase_granted (tx_id txn1) (lq_requests q) of
          None \<Rightarrow> (set_queue l q lm, abort_txn txn1, False)
        | Some rs \<Rightarrow> (set_queue l (q\<lparr>lq_requests := rs\<rparr>) lm, txn1, True))"

definition unlock_table :: "32 word \<Rightarrow> lock_manager \<times> transaction \<Rightarrow> lock_manager \<times> transaction \<times> bool" where
  "unlock_table oid s =
     (let l = table_id_of oid; (lm, txn, _) = unlock l s
      in (lm, fold (\<lambda>m. erase_lock m l) [SHARED, EXLUCSIVE, INTENTION_EXCLUSIVE, INTENTION_SHARED, S_IX] txn, True))"

definition unlock_partition :: "32 word \<Rightarrow> 32 word \<Rightarrow> lock_manager \<times> transaction \<Rightarrow> lock_manager \<times> transaction \<times> bool" where
  "unlock_partition oid p_id s =
     (let l = partition_id_of oid p_id; (lm, txn, _) = unlock l s
      in (lm, fold (\<lambda>m. erase_lock m l) [SHARED, EXLUCSIVE, INTENTION_EXCLUSIVE, INTENTION_SHARED, S_IX] txn, True))"

definition unlock_row :: "32 word \<Rightarrow> 32 word \<Rightarrow> 32 word \<Rightarrow> lock_manager \<times> transaction \<Rightarrow> lock_manager \<times> transaction \<times> bool" where
  "unlock_row oid p_id row s =
     (let l = row_id_of oid p_id row; (lm, txn, _) = unlock l s
      in (lm, fold (\<lambda>m. erase_lock m l) [SHARED, EXLUCSIVE] txn, True))"

section \<open>Compatible grants\<close>

text \<open>The granted requests of a queue are pairwise compatible.\<close>

definition granted_compatible :: "(lock_mode \<Rightarrow> lock_mode \<Rightarrow> bool) \<Rightarrow> lock_request list \<Rightarrow> bool" where
  "granted_compatible agree rs \<longleftrightarrow>
     (\<forall>r1 \<in> set rs. \<forall>r2 \<in> set rs. lr_addr r1 \<noteq> lr_addr r2 \<and> lr_granted r1 \<and> lr_granted r2 \<longrightarrow>
        agree (lr_mode r1) (lr_mode r2))"

locale lock_discipline =
  fixes agree :: "lock_mode \<Rightarrow> lock_mode \<Rightarrow> bool"
  assumes agree_sym: "agree a b \<longleftrightarrow> agree b a"
begin

lemma grant:
  assumes "granted_compatible agree rs" and "r \<in> set rs" and "distinct (map lr_addr rs)"
    and "\<forall>it \<in> set rs. lr_addr it \<noteq> lr_addr r \<and> lr_granted it \<longrightarrow> agree (lr_mode it) (lr_mode r)"
  shows "granted_compatible agree (map (\<lambda>it. if lr_addr it = lr_addr r then it\<lparr>lr_granted := True\<rparr> else it) rs)"
proof -
  have same: "it = r" if "it \<in> set rs" "lr_addr it = lr_addr r" for it
    using that assms(2,3) by (metis distinct_map inj_onD)
  have "\<forall>it \<in> set rs. lr_addr it \<noteq> lr_addr r \<and> lr_granted it \<longrightarrow>
      agree (lr_mode it) (lr_mode r) \<and> agree (lr_mode r) (lr_mode it)"
    using assms(4) agree_sym by blast
  then show ?thesis
    using assms(1,2) unfolding granted_compatible_def by (auto split: if_splits dest: same)
qed

lemma revoke:
  "granted_compatible agree rs \<Longrightarrow>
   granted_compatible agree (map (\<lambda>it. if lr_addr it = a then it\<lparr>lr_mode := m, lr_granted := False\<rparr> else it) rs)"
  unfolding granted_compatible_def by (auto split: if_splits)

lemma enqueue:
  "granted_compatible agree rs \<Longrightarrow> \<not> lr_granted r \<Longrightarrow> granted_compatible agree (rs @ [r])"
  unfolding granted_compatible_def by auto

lemma shrink: "granted_compatible agree rs \<Longrightarrow> set qs \<subseteq> set rs \<Longrightarrow> granted_compatible agree qs"
  unfolding granted_compatible_def by blast

end

lemma isLockCompatible_conflicts: "isLockCompatible a b \<longleftrightarrow> b \<notin> conflicts a"
  by (cases a; cases b; simp add: isLockCompatible_def conflicts_def)

lemma conflicts_sym: "a \<in> conflicts b \<longleftrightarrow> b \<in> conflicts a"
  by (cases a; cases b; simp add: conflicts_def)

lemma isUpdateCompatible_less: "isUpdateCompatible a b \<longleftrightarrow> a < b"
  unfolding less_lock_mode_def by (cases a; cases b; simp add: isUpdateCompatible_def conflicts_def; blast)

interpretation ld: lock_discipline isLockCompatible
  by unfold_locales (simp add: isLockCompatible_conflicts conflicts_sym)

section \<open>Well-formed lock tables\<close>

definition queue_ok :: "nat \<Rightarrow> lock_queue \<Rightarrow> bool" where
  "queue_ok fresh q \<longleftrightarrow>
     distinct (map lr_addr (lq_requests q)) \<and> distinct (map lr_txn (lq_requests q)) \<and>
     (\<forall>r \<in> set (lq_requests q). lr_addr r < fresh) \<and>
     granted_compatible isLockCompatible (lq_requests q)"

definition lm_ok :: "lock_manager \<Rightarrow> bool" where
  "lm_ok lm \<longleftrightarrow> (\<forall>l. queue_ok (lm_fresh lm) (queue_at lm l))"

lemma bool_witness: "\<exists>b. b" "\<exists>b. \<not> b"
  by blast+

named_theorems lock_simps \<open>reads of the lock table after writes\<close>

lemma queue_new_ok [simp]: "queue_ok n queue_new"
  by (simp add: queue_ok_def queue_new_def granted_compatible_def)

lemma queue_at_set [lock_simps]:
  "queue_at (set_queue l q lm) l' = (if l' = l then q else queue_at lm l')"
  "lm_fresh (set_queue l q lm) = lm_fresh lm" "lm_no_wait (set_queue l q lm) = lm_no_wait lm"
  "queue_at (lm\<lparr>lm_fresh := n\<rparr>) l = queue_at lm l"
  by (auto simp: queue_at_def set_queue_def)

lemma set_queue_same [lock_simps]: "set_queue l q (set_queue l q' lm) = set_queue l q lm"
  by (simp add: set_queue_def)

lemma lm_ok_queue: "lm_ok lm \<Longrightarrow> queue_ok (lm_fresh lm) (queue_at lm l)"
  by (simp add: lm_ok_def)

lemma lm_ok_set: "lm_ok lm \<Longrightarrow> queue_ok (lm_fresh lm) q \<Longrightarrow> lm_ok (set_queue l q lm)"
  by (simp add: lm_ok_def lock_simps)

lemma lm_ok_new: "lm_ok (lock_manager_new no_wait)"
  by (simp add: lm_ok_def lock_manager_new_def queue_at_def)

lemma queue_ok_mono: "queue_ok n q \<Longrightarrow> n \<le> n' \<Longrightarrow> queue_ok n' q"
  by (auto simp: queue_ok_def)

lemma map_update_fields:
  "map lr_addr (map (\<lambda>r. if lr_addr r = a then r\<lparr>lr_granted := g\<rparr> else r) rs) = map lr_addr rs"
  "map lr_txn (map (\<lambda>r. if lr_addr r = a then r\<lparr>lr_granted := g\<rparr> else r) rs) = map lr_txn rs"
  "map lr_addr (map (\<lambda>r. if lr_addr r = a then r\<lparr>lr_mode := m, lr_granted := g\<rparr> else r) rs) = map lr_addr rs"
  "map lr_txn (map (\<lambda>r. if lr_addr r = a then r\<lparr>lr_mode := m, lr_granted := g\<rparr> else r) rs) = map lr_txn rs"
  by auto

lemma set_fields:
  "lq_requests (set_granted a (q\<lparr>lq_upgrading := u\<rparr>)) =
     map (\<lambda>r. if lr_addr r = a then r\<lparr>lr_granted := True\<rparr> else r) (lq_requests q)"
  "lq_requests (q\<lparr>lq_upgrading := u\<rparr>) = lq_requests q"
  "lq_requests (set_granted a q) = map (\<lambda>r. if lr_addr r = a then r\<lparr>lr_granted := True\<rparr> else r) (lq_requests q)"
  "lq_requests (set_upgrade a m q) =
     map (\<lambda>r. if lr_addr r = a then r\<lparr>lr_mode := m, lr_granted := False\<rparr> else r) (lq_requests q)"
  by (simp_all add: set_granted_def set_upgrade_def)

lemma find_addr_Some:
  "find_addr a q = Some r \<Longrightarrow> r \<in> set (lq_requests q) \<and> lr_addr r = a"
  by (auto simp: find_addr_def find_Some_iff)

lemma find_addr_in: "r \<in> set (lq_requests q) \<Longrightarrow> \<exists>r'. find_addr (lr_addr r) q = Some r'"
  by (cases "find_addr (lr_addr r) q") (auto simp: find_addr_def find_None_iff)

lemma set_granted_ok:
  assumes ok: "queue_ok n q" and r: "find_addr a q = Some r" and agree: "checkQueueCompatible q r"
  shows "queue_ok n (set_granted a (q\<lparr>lq_upgrading := u\<rparr>))" "queue_ok n (set_granted a q)"
proof -
  have ra: "r \<in> set (lq_requests q)" "lr_addr r = a" using find_addr_Some [OF r] by auto
  have "granted_compatible isLockCompatible
      (map (\<lambda>it. if lr_addr it = lr_addr r then it\<lparr>lr_granted := True\<rparr> else it) (lq_requests q))"
    using ok agree ra by (intro ld.grant) (auto simp: queue_ok_def checkQueueCompatible_def list_all_iff)
  moreover have "\<forall>it \<in> set (map (\<lambda>it. if lr_addr it = a then it\<lparr>lr_granted := True\<rparr> else it) (lq_requests q)).
      lr_addr it < n"
    using ok by (auto simp: queue_ok_def)
  ultimately show "queue_ok n (set_granted a (q\<lparr>lq_upgrading := u\<rparr>))" "queue_ok n (set_granted a q)"
    using ok unfolding queue_ok_def ra(2) set_fields by (simp_all only: map_update_fields)
qed

lemma set_upgrade_ok:
  assumes "queue_ok n q"
  shows "queue_ok n (set_upgrade a m q)"
proof -
  have "\<forall>it \<in> set (map (\<lambda>it. if lr_addr it = a then it\<lparr>lr_mode := m, lr_granted := False\<rparr> else it) (lq_requests q)).
      lr_addr it < n"
    using assms by (auto simp: queue_ok_def)
  then show ?thesis
    using assms ld.revoke [of "lq_requests q" a m]
    unfolding queue_ok_def set_fields by (simp only: map_update_fields)
qed

text \<open>Waking up keeps the lock table well formed: a request is granted only when it is compatible
  with every other granted request.\<close>

lemma lock_granted_ok:
  assumes ok: "lm_ok lm" and r: "find_addr a (queue_at lm l) = Some r"
    and agree: "tx_state txn \<noteq> ABORTED \<Longrightarrow> checkQueueCompatible (queue_at lm l) r"
    and m: "lockable (ld_type l) m"
  shows "\<exists>lm' txn' b. lock_granted m l w a (lm, txn) = Some (lm', txn', Returned b) \<and> lm_ok lm' \<and>
    lm_no_wait lm' = lm_no_wait lm \<and> tx_id txn' = tx_id txn \<and> (b \<longrightarrow> tx_state txn \<noteq> ABORTED)"
proof (cases "tx_state txn = ABORTED")
  case True
  with ok have "lock_granted m l w a (lm, txn) = Some (lm, abort_txn txn, Returned False)"
    by (simp add: lock_granted_def)
  with ok show ?thesis by (auto simp: abort_txn_def)
next
  case False
  then have "queue_ok (lm_fresh lm) (set_granted a (if w = WaitUpgrade then queue_at lm l\<lparr>lq_upgrading := False\<rparr> else queue_at lm l))"
    using set_granted_ok [OF lm_ok_queue [OF ok] r agree] by simp
  then have "lm_ok (set_queue l (set_granted a (if w = WaitUpgrade then queue_at lm l\<lparr>lq_upgrading := False\<rparr> else queue_at lm l)) lm)"
    by (rule lm_ok_set [OF ok])
  moreover obtain s where "get_lock_set (ld_type l) m txn = Some s"
    using locks_of_Some [OF m] by (auto simp: get_lock_set_def)
  ultimately show ?thesis
    using False by (cases w) (auto simp: lock_granted_def note_lock_def lock_simps Let_def bool_witness)
qed

lemma lock_wake_ok:
  assumes ok: "lm_ok lm" and r: "find_addr a (queue_at lm l) = Some r" and m: "lockable (ld_type l) m"
  shows "\<exists>lm' txn' out. lock_wake m l w a (lm, txn) = Some (lm', txn', out) \<and> lm_ok lm' \<and>
    lm_no_wait lm' = lm_no_wait lm \<and> tx_id txn' = tx_id txn \<and>
    (out = Blocked w a \<and> lm' = lm \<and> txn' = txn \<and> \<not> lm_no_wait lm \<or> (\<exists>b. out = Returned b)) \<and>
    (out = Returned True \<longrightarrow> tx_state txn \<noteq> ABORTED)"
proof -
  obtain ready txn1 where wr: "wait_ready (lm_no_wait lm) (queue_at lm l) r txn = (ready, txn1)" by fastforce
  have tx1: "tx_id txn1 = tx_id txn" "tx_state txn1 = ABORTED \<or> txn1 = txn"
    using wr by (auto simp: wait_ready_def split: if_splits)
  show ?thesis
  proof (cases ready)
    case False
    then show ?thesis using wr r ok by (auto simp: lock_wake_def wait_ready_def split: if_splits)
  next
    case True
    have "tx_state txn1 \<noteq> ABORTED \<Longrightarrow> checkQueueCompatible (queue_at lm l) r"
      using wr True by (auto simp: wait_ready_def split: if_splits)
    from lock_granted_ok [OF ok r this m, of txn1 w] obtain lm' txn' b where
      "lock_granted m l w a (lm, txn1) = Some (lm', txn', Returned b)" "lm_ok lm'"
      "lm_no_wait lm' = lm_no_wait lm" "tx_id txn' = tx_id txn1" "b \<longrightarrow> tx_state txn1 \<noteq> ABORTED"
      by blast
    with True wr r tx1 show ?thesis by (auto simp: lock_wake_def)
  qed
qed

lemma acquire_ok:
  assumes ok: "lm_ok lm" and m: "lockable (ld_type l) m"
  shows "\<exists>lm' txn' out. acquire m l (lm, txn) = Some (lm', txn', out) \<and> lm_ok lm' \<and>
    lm_no_wait lm' = lm_no_wait lm \<and> tx_id txn' = tx_id txn \<and>
    (lm_no_wait lm \<longrightarrow> (\<exists>b. out = Returned b)) \<and> (out = Returned True \<longrightarrow> tx_state txn \<noteq> ABORTED) \<and>
    (\<forall>w a. out = Blocked w a \<longrightarrow> (\<exists>r. find_addr a (queue_at lm' l) = Some r))"
proof -
  define q where "q = queue_at lm l"
  define lm1 where "lm1 = set_queue l q lm"
  have q: "queue_ok (lm_fresh lm) q" unfolding q_def by (rule lm_ok_queue [OF ok])
  have ok1: "lm_ok lm1" unfolding lm1_def by (rule lm_ok_set [OF ok q])
  have fields: "queue_at lm1 l = q" "lm_no_wait lm1 = lm_no_wait lm" "lm_fresh lm1 = lm_fresh lm"
    by (simp_all add: lm1_def lock_simps)
  obtain s where s: "get_lock_set (ld_type l) m txn = Some s"
    using locks_of_Some [OF m] by (auto simp: get_lock_set_def)
  have acq: "acquire m l (lm, txn) = (case find (\<lambda>r. lr_txn r = tx_id txn) (lq_requests q) of
       Some r \<Rightarrow>
         (if lr_mode r = m \<and> lr_granted r
          then (if tx_state txn = ABORTED then Some (lm1, txn, Returned False)
                else do { txn1 \<leftarrow> note_lock m l txn; Some (lm1, txn1, Returned True) })
          else if lr_mode r = m then lock_wake m l WaitSame (lr_addr r) (lm1, txn)
          else if lq_upgrading q \<or> \<not> isUpdateCompatible (lr_mode r) m
          then Some (lm1, abort_txn txn, Returned False)
          else lock_wake m l WaitUpgrade (lr_addr r) (set_queue l (set_upgrade (lr_addr r) m q) lm1, txn))
     | None \<Rightarrow>
         (let r = \<lparr>lr_addr = lm_fresh lm1, lr_txn = tx_id txn, lr_mode = m, lr_granted = False\<rparr>
          in lock_wake m l WaitNew (lr_addr r)
               (set_queue l (q\<lparr>lq_requests := lq_requests q @ [r]\<rparr>) (lm1\<lparr>lm_fresh := lm_fresh lm1 + 1\<rparr>), txn)))"
    by (simp only: acquire_def q_def lm1_def Let_def prod.case)
  show ?thesis
  proof (cases "find (\<lambda>r. lr_txn r = tx_id txn) (lq_requests q)")
    case None
    define r where "r = \<lparr>lr_addr = lm_fresh lm1, lr_txn = tx_id txn, lr_mode = m, lr_granted = False\<rparr>"
    define q' where "q' = q\<lparr>lq_requests := lq_requests q @ [r]\<rparr>"
    define lm2 where "lm2 = set_queue l q' (lm1\<lparr>lm_fresh := lm_fresh lm1 + 1\<rparr>)"
    have no: "tx_id txn \<notin> lr_txn ` set (lq_requests q)" using None by (auto simp: find_None_iff)
    have "queue_ok (lm_fresh lm + 1) q'"
      using q no ld.enqueue [of "lq_requests q" r] fields(3)
      by (auto simp: queue_ok_def q'_def r_def)
    moreover have "lm_ok (lm1\<lparr>lm_fresh := lm_fresh lm1 + 1\<rparr>)"
      using ok1 by (auto simp: lm_ok_def lock_simps intro: queue_ok_mono)
    ultimately have ok2: "lm_ok lm2" unfolding lm2_def by (intro lm_ok_set) (simp_all add: fields)
    have at2: "queue_at lm2 l = q'" "lm_no_wait lm2 = lm_no_wait lm" by (simp_all add: lm2_def fields lock_simps)
    have "r \<in> set (lq_requests q')" by (simp add: q'_def)
    from find_addr_in [OF this] obtain r' where r': "find_addr (lr_addr r) (queue_at lm2 l) = Some r'"
      by (auto simp: at2)
    have "acquire m l (lm, txn) = lock_wake m l WaitNew (lr_addr r) (lm2, txn)"
      unfolding acq using None by (simp add: r_def q'_def lm2_def)
    with lock_wake_ok [OF ok2 r' m, of WaitNew txn] r' at2(2) show ?thesis by fastforce
  next
    case (Some r)
    then have r: "r \<in> set (lq_requests q)" by (auto simp: find_Some_iff)
    obtain r1 where r1: "find_addr (lr_addr r) (queue_at lm1 l) = Some r1"
      using find_addr_in [OF r] by (auto simp: fields)
    show ?thesis
    proof (cases "lr_mode r = m")
      case True
      show ?thesis
      proof (cases "lr_granted r")
        case True
        with \<open>lr_mode r = m\<close> Some s ok1 fields show ?thesis
          unfolding acq by (auto simp: note_lock_def bool_witness)
      next
        case False
        then have "acquire m l (lm, txn) = lock_wake m l WaitSame (lr_addr r) (lm1, txn)"
          unfolding acq using Some \<open>lr_mode r = m\<close> by simp
        with lock_wake_ok [OF ok1 r1 m, of WaitSame txn] r1 fields(2) show ?thesis by fastforce
      qed
    next
      case False
      show ?thesis
      proof (cases "lq_upgrading q \<or> \<not> isUpdateCompatible (lr_mode r) m")
        case True
        with False Some ok1 fields show ?thesis unfolding acq by (auto simp: abort_txn_def)
      next
        case upd: False
        define lm2 where "lm2 = set_queue l (set_upgrade (lr_addr r) m q) lm1"
        have ok2: "lm_ok lm2" unfolding lm2_def
          using set_upgrade_ok [OF q] by (intro lm_ok_set [OF ok1]) (simp add: fields)
        have at2: "queue_at lm2 l = set_upgrade (lr_addr r) m q" "lm_no_wait lm2 = lm_no_wait lm"
          by (simp_all add: lm2_def lock_simps fields)
        have "r\<lparr>lr_mode := m, lr_granted := False\<rparr> \<in> set (lq_requests (set_upgrade (lr_addr r) m q))"
          using r by (force simp: set_upgrade_def)
        from find_addr_in [OF this] obtain r2 where r2: "find_addr (lr_addr r) (queue_at lm2 l) = Some r2"
          by (auto simp: at2)
        have "acquire m l (lm, txn) = lock_wake m l WaitUpgrade (lr_addr r) (lm2, txn)"
          unfolding acq lm2_def using Some False upd by auto
        with lock_wake_ok [OF ok2 r2 m, of WaitUpgrade txn] r2 at2(2) show ?thesis by fastforce
      qed
    qed
  qed
qed

section \<open>What a call changes\<close>

text \<open>The requests of the other transactions.\<close>

definition foreign :: "txn_id \<Rightarrow> lock_queue \<Rightarrow> lock_request list" where
  "foreign i q = filter (\<lambda>r. lr_txn r \<noteq> i) (lq_requests q)"

text \<open>A granted request is in the transaction's lock sets, and what a live transaction holds is
  backed by its granted request of at least that strength; \<open>W\<close> is the data it waits for.\<close>

definition agrees :: "lock_manager \<Rightarrow> transaction \<Rightarrow> lock_data_id set \<Rightarrow> bool" where
  "agrees lm txn W \<longleftrightarrow>
     (\<forall>l. \<forall>r \<in> set (lq_requests (queue_at lm l)). lr_txn r = tx_id txn \<and> lr_granted r \<longrightarrow> holds txn (lr_mode r) l) \<and>
     (tx_state txn \<noteq> ABORTED \<longrightarrow> (\<forall>m l. holds txn m l \<longrightarrow>
        (\<exists>r \<in> set (lq_requests (queue_at lm l)). lr_txn r = tx_id txn \<and> m \<le> lr_mode r \<and> (l \<notin> W \<longrightarrow> lr_granted r))))"

text \<open>The request at \<open>a\<close> is the transaction's, in mode \<open>m\<close>.\<close>

definition own_request :: "lock_manager \<Rightarrow> txn_id \<Rightarrow> lock_mode \<Rightarrow> lock_data_id \<Rightarrow> nat \<Rightarrow> bool" where
  "own_request lm i m l a \<longleftrightarrow> lockable (ld_type l) m \<and>
     (\<exists>r. find_addr a (queue_at lm l) = Some r \<and> lr_txn r = i \<and> lr_mode r = m)"

lemma foreign_set_granted:
  assumes "queue_ok n q" and "r \<in> set (lq_requests q)" and "lr_txn r = i"
  shows "foreign i (set_granted (lr_addr r) q) = foreign i q"
    "foreign i (set_upgrade (lr_addr r) m q) = foreign i q"
proof -
  have same: "lr_txn it = i" if "it \<in> set (lq_requests q)" "lr_addr it = lr_addr r" for it
    using that assms unfolding queue_ok_def by (metis distinct_map inj_onD)
  then show "foreign i (set_granted (lr_addr r) q) = foreign i q"
    unfolding foreign_def set_fields by (induction "lq_requests q" arbitrary: q) (auto simp: filter_map comp_def intro!: filter_cong map_idI)
  show "foreign i (set_upgrade (lr_addr r) m q) = foreign i q"
    using same unfolding foreign_def set_fields filter_map comp_def
    by (auto intro!: map_idI filter_cong)
qed

lemma foreign_fields [simp]: "foreign i (q\<lparr>lq_upgrading := u\<rparr>) = foreign i q"
  by (simp add: foreign_def)

lemma own_unique:
  assumes "queue_ok n q" "r \<in> set (lq_requests q)" "r' \<in> set (lq_requests q)" "lr_txn r = lr_txn r'"
  shows "r = r'"
  using assms unfolding queue_ok_def by (metis distinct_map inj_onD)

lemma holds_note:
  assumes "note_lock m l txn = Some txn'" and "lockable (ld_type l) m"
  shows "holds txn' m' l' \<longleftrightarrow> holds txn m' l' \<or> m' = m \<and> l' = l" "tx_id txn' = tx_id txn"
    "tx_state txn' = tx_state txn"
  using assms holds_add [OF assms(2), of txn m' l']
  by (auto simp: note_lock_def holds_def split: Option.bind_splits if_splits)

text \<open>The three ways in which an evaluation of the wait predicate ends.\<close>

lemma lock_wake_cases:
  assumes wake: "lock_wake m l w a (lm, txn) = Some (lm', txn', out)" and own: "own_request lm (tx_id txn) m l a"
  obtains (blocked) "out = Blocked w a" "lm' = lm" "txn' = txn"
    | (refused) "out = Returned False" "lm' = lm" "txn' = abort_txn txn"
    | (granted) u where "out = Returned True" "lm' = set_queue l (set_granted a (queue_at lm l\<lparr>lq_upgrading := u\<rparr>)) lm"
        "tx_state txn \<noteq> ABORTED" "tx_state txn' = tx_state txn" "tx_id txn' = tx_id txn"
        "\<forall>m' l'. holds txn' m' l' \<longleftrightarrow> holds txn m' l' \<or> m' = m \<and> l' = l"
proof -
  obtain r where r: "find_addr a (queue_at lm l) = Some r" and m: "lockable (ld_type l) m"
    using own by (auto simp: own_request_def)
  obtain ready txn1 where wr: "wait_ready (lm_no_wait lm) (queue_at lm l) r txn = (ready, txn1)" by fastforce
  show thesis
  proof (cases ready)
    case False
    with wake r wr show thesis
      by (intro blocked) (auto simp: lock_wake_def wait_ready_def split: if_splits)
  next
    case True
    with wake r wr have g: "lock_granted m l w a (lm, txn1) = Some (lm', txn', out)"
      by (simp add: lock_wake_def)
    show thesis
    proof (cases "tx_state txn1 = ABORTED")
      case True
      then have "abort_txn txn1 = abort_txn txn"
        using wr by (auto simp: wait_ready_def abort_txn_def split: if_splits)
      with g True show thesis by (intro refused) (auto simp: lock_granted_def)
    next
      case False
      then have tx: "txn1 = txn" using wr by (auto simp: wait_ready_def split: if_splits)
      have up: "queue_at lm l = queue_at lm l\<lparr>lq_upgrading := lq_upgrading (queue_at lm l)\<rparr>" by simp
      show thesis
      proof (cases "w = WaitNew")
        case True
        with g False tx up holds_add [OF m, of txn] show thesis
          by (intro granted [of "lq_upgrading (queue_at lm l)"]) (auto simp: lock_granted_def Let_def)
      next
        case w: False
        then have nl: "note_lock m l txn = Some txn'" using g False tx
          by (auto simp: lock_granted_def Let_def split: Option.bind_splits)
        show thesis
          using g False tx w holds_note [OF nl m] up
          by (intro granted [of "w \<noteq> WaitUpgrade \<and> lq_upgrading (queue_at lm l)"])
            (auto simp: lock_granted_def Let_def split: Option.bind_splits if_splits)
      qed
    qed
  qed
qed

text \<open>The result of a call or wake-up of a transaction: the lock table stays well formed, no request
  of another transaction changes, and lock sets and queue agree again.\<close>

definition call_effect :: "lock_data_id \<Rightarrow> lock_mode \<Rightarrow> lock_manager \<times> transaction \<Rightarrow>
    (lock_manager \<times> transaction \<times> lock_outcome) option \<Rightarrow> bool" where
  "call_effect l m s res \<longleftrightarrow> (case s of (lm, txn) \<Rightarrow> \<exists>lm' txn' out. res = Some (lm', txn', out) \<and>
     lm_ok lm' \<and> tx_id txn' = tx_id txn \<and> lm_no_wait lm' = lm_no_wait lm \<and>
     (\<forall>l'. foreign (tx_id txn) (queue_at lm' l') = foreign (tx_id txn) (queue_at lm l')) \<and>
     (case out of
        Blocked w a \<Rightarrow> \<not> lm_no_wait lm \<and> tx_state txn' = GROWING \<and> own_request lm' (tx_id txn) m l a \<and> agrees lm' txn' {l}
      | Returned True \<Rightarrow> tx_state txn' = GROWING \<and> agrees lm' txn' {} \<and> holds txn' m l
      | Returned False \<Rightarrow> tx_state txn' = ABORTED \<and> agrees lm' txn' {}))"

lemma agrees_weaken: "agrees lm txn {} \<Longrightarrow> agrees lm txn W"
  unfolding agrees_def by blast

lemma agrees_abort: "agrees lm txn W \<Longrightarrow> agrees lm (abort_txn txn) W'"
  by (auto simp: agrees_def abort_txn_def)

lemma set_granted_requests:
  "r \<in> set (lq_requests (set_granted a (q\<lparr>lq_upgrading := u\<rparr>))) \<longleftrightarrow>
     (\<exists>r0 \<in> set (lq_requests q). r = (if lr_addr r0 = a then r0\<lparr>lr_granted := True\<rparr> else r0))"
  unfolding set_fields by (simp only: set_map image_iff)

lemma granted_agrees:
  assumes ok: "lm_ok lm" and own: "own_request lm (tx_id txn) m l a" and ag: "agrees lm txn {l}"
    and lm': "lm' = set_queue l (set_granted a (queue_at lm l\<lparr>lq_upgrading := u\<rparr>)) lm"
    and live: "tx_state txn \<noteq> ABORTED" and id: "tx_id txn' = tx_id txn"
    and holds: "\<forall>m' l'. holds txn' m' l' \<longleftrightarrow> holds txn m' l' \<or> m' = m \<and> l' = l"
  shows "agrees lm' txn' {}"
    and "foreign (tx_id txn) (queue_at lm' l') = foreign (tx_id txn) (queue_at lm l')"
proof -
  obtain r where r: "r \<in> set (lq_requests (queue_at lm l))" "lr_addr r = a" "lr_txn r = tx_id txn" "lr_mode r = m"
    using own find_addr_Some unfolding own_request_def by blast
  note q = lm_ok_queue [OF ok, of l]
  have "queue_ok (lm_fresh lm) (queue_at lm l\<lparr>lq_upgrading := u\<rparr>)" using q by (simp add: queue_ok_def)
  from foreign_set_granted(1) [OF this, of r "tx_id txn"] r
  show "foreign (tx_id txn) (queue_at lm' l') = foreign (tx_id txn) (queue_at lm l')"
    by (auto simp: lm' lock_simps)
  have mine: "r0 = r" if "r0 \<in> set (lq_requests (queue_at lm l))" "lr_txn r0 = tx_id txn" for r0
    using own_unique [OF q that(1) r(1)] that(2) r(3) by simp
  have "\<exists>r' \<in> set (lq_requests (queue_at lm' l')). lr_txn r' = tx_id txn \<and> m' \<le> lr_mode r' \<and> lr_granted r'"
    if "holds txn' m' l'" for m' l'
  proof (cases "l' = l")
    case True
    have "r\<lparr>lr_granted := True\<rparr> \<in> set (lq_requests (queue_at lm' l))"
      using r by (auto simp: lm' lock_simps set_granted_requests)
    moreover have "m' \<le> m"
    proof (cases "holds txn m' l")
      case True
      then show ?thesis using ag live mine r(4) unfolding agrees_def by blast
    next
      case False
      then show ?thesis using that holds True by auto
    qed
    ultimately show ?thesis using r True by (intro bexI [of _ "r\<lparr>lr_granted := True\<rparr>"]) auto
  next
    case False
    then have "holds txn m' l'" using that holds by auto
    moreover have "queue_at lm' l' = queue_at lm l'" using False by (simp add: lm' lock_simps)
    ultimately show ?thesis using ag live False unfolding agrees_def by fastforce
  qed
  moreover have "holds txn' (lr_mode r') l'"
    if mem: "r' \<in> set (lq_requests (queue_at lm' l'))" and txr: "lr_txn r' = tx_id txn" "lr_granted r'" for r' l'
  proof (cases "l' = l")
    case True
    then obtain r0 where r0: "r0 \<in> set (lq_requests (queue_at lm l))"
        "r' = (if lr_addr r0 = a then r0\<lparr>lr_granted := True\<rparr> else r0)"
      using mem unfolding lm' by (simp only: lock_simps set_granted_requests refl if_True) blast
    then have "r0 = r" using mine txr(1) by (auto split: if_splits)
    with r0 r(2,4) holds True show ?thesis by auto
  next
    case False
    then show ?thesis using mem txr ag holds unfolding agrees_def lm' by (auto simp: lock_simps)
  qed
  ultimately show "agrees lm' txn' {}" using id unfolding agrees_def by auto
qed

lemma lock_wake_effect:
  assumes ok: "lm_ok lm" and own: "own_request lm (tx_id txn) m l a" and ag: "agrees lm txn {l}"
  shows "tx_state txn = GROWING \<Longrightarrow> call_effect l m (lm, txn) (lock_wake m l w a (lm, txn))"
    and "tx_state txn = ABORTED \<Longrightarrow> lock_wake m l w a (lm, txn) = Some (lm, abort_txn txn, Returned False)"
proof -
  obtain r where r: "find_addr a (queue_at lm l) = Some r" and m: "lockable (ld_type l) m"
    using own by (auto simp: own_request_def)
  obtain lm' txn' out where w: "lock_wake m l w a (lm, txn) = Some (lm', txn', out)" "lm_ok lm'"
      "lm_no_wait lm' = lm_no_wait lm" "tx_id txn' = tx_id txn"
      "out = Blocked w a \<and> lm' = lm \<and> txn' = txn \<and> \<not> lm_no_wait lm \<or> (\<exists>b. out = Returned b)"
    using lock_wake_ok [OF ok r m, of w txn] by blast
  {
    assume g: "tx_state txn = GROWING"
    show "call_effect l m (lm, txn) (lock_wake m l w a (lm, txn))"
      using w(1) own
    proof (cases rule: lock_wake_cases)
      case blocked
      with w g own ag show ?thesis by (simp add: call_effect_def)
    next
      case refused
      with w agrees_abort [OF ag] show ?thesis by (simp add: call_effect_def) (simp add: abort_txn_def)
    next
      case (granted u)
      note G = granted_agrees [OF ok own ag granted(2,3,5,6)]
      from granted w g G show ?thesis by (simp add: call_effect_def)
    qed
  next
    assume "tx_state txn = ABORTED"
    with r show "lock_wake m l w a (lm, txn) = Some (lm, abort_txn txn, Returned False)"
      by (auto simp: lock_wake_def wait_ready_def lock_granted_def abort_txn_def)
  }
qed


lemma acquire_effect:
  assumes ok: "lm_ok lm" and m: "lockable (ld_type l) m" and ag: "agrees lm txn {}" and g: "tx_state txn = GROWING"
  shows "call_effect l m (lm, txn) (acquire m l (lm, txn))"
proof -
  let ?i = "tx_id txn"
  define q where "q = queue_at lm l"
  define lm1 where "lm1 = set_queue l q lm"
  have q: "queue_ok (lm_fresh lm) q" unfolding q_def by (rule lm_ok_queue [OF ok])
  have same: "queue_at lm1 l' = queue_at lm l'" for l' by (simp add: lm1_def lock_simps q_def)
  have ok1: "lm_ok lm1" unfolding lm1_def by (rule lm_ok_set [OF ok q])
  have nw: "lm_no_wait lm1 = lm_no_wait lm" by (simp add: lm1_def lock_simps)
  have ag1: "agrees lm1 txn {}" using ag by (simp add: agrees_def same)
  obtain s where s: "get_lock_set (ld_type l) m txn = Some s"
    using locks_of_Some [OF m] by (auto simp: get_lock_set_def)
  have trans: "call_effect l m (lm2, txn) res \<Longrightarrow> \<forall>l'. foreign ?i (queue_at lm2 l') = foreign ?i (queue_at lm l') \<Longrightarrow>
      lm_no_wait lm2 = lm_no_wait lm \<Longrightarrow> call_effect l m (lm, txn) res" for lm2 res
    by (simp add: call_effect_def cong del: lock_outcome.case_cong_weak)
  show ?thesis
  proof (cases "find (\<lambda>r. lr_txn r = ?i) (lq_requests q)")
    case None
    define r where "r = \<lparr>lr_addr = lm_fresh lm1, lr_txn = ?i, lr_mode = m, lr_granted = False\<rparr>"
    define q' where "q' = q\<lparr>lq_requests := lq_requests q @ [r]\<rparr>"
    define lm2 where "lm2 = set_queue l q' (lm1\<lparr>lm_fresh := lm_fresh lm1 + 1\<rparr>)"
    have no: "\<forall>r \<in> set (lq_requests q). lr_txn r \<noteq> ?i" using None by (auto simp: find_None_iff)
    have fr: "\<forall>r \<in> set (lq_requests q). lr_addr r < lm_fresh lm" using q by (simp add: queue_ok_def)
    have "queue_ok (lm_fresh lm + 1) q'"
      using q no ld.enqueue [of "lq_requests q" r] by (auto simp: queue_ok_def q'_def r_def lm1_def lock_simps)
    moreover have "lm_ok (lm1\<lparr>lm_fresh := lm_fresh lm1 + 1\<rparr>)"
      using ok1 by (auto simp: lm_ok_def lock_simps intro: queue_ok_mono)
    ultimately have ok2: "lm_ok lm2" unfolding lm2_def by (intro lm_ok_set) (simp_all add: lm1_def lock_simps)
    have at2: "queue_at lm2 l' = (if l' = l then q' else queue_at lm l')" for l'
      by (simp add: lm2_def lock_simps same)
    have "r \<in> set (lq_requests q')" by (simp add: q'_def)
    from find_addr_in [OF this] obtain r1 where r1: "find_addr (lr_addr r) q' = Some r1" by blast
    then have "r1 = r"
      using find_addr_Some [OF r1] fr by (auto simp: q'_def r_def lm1_def lock_simps)
    with r1 have "find_addr (lr_addr r) q' = Some r" by simp
    then have own: "own_request lm2 ?i m l (lr_addr r)" using m by (simp add: own_request_def at2 r_def)
    have reqs: "set (lq_requests (queue_at lm2 l')) = set (lq_requests (queue_at lm l')) \<union> (if l' = l then {r} else {})" for l'
      by (simp add: at2 q'_def q_def)
    have "\<not> lr_granted r" by (simp add: r_def)
    then have "agrees lm2 txn {l}"
      using ag g unfolding agrees_def reqs by (force split: if_splits)
    from lock_wake_effect(1) [OF ok2 own this g, of WaitNew] g
    have "call_effect l m (lm2, txn) (lock_wake m l WaitNew (lr_addr r) (lm2, txn))" by blast
    moreover have "\<forall>l'. foreign ?i (queue_at lm2 l') = foreign ?i (queue_at lm l')"
      by (simp add: at2 foreign_def q'_def q_def r_def)
    moreover have "acquire m l (lm, txn) = lock_wake m l WaitNew (lr_addr r) (lm2, txn)"
      using None by (simp add: acquire_def Let_def q_def lm1_def r_def q'_def lm2_def)
    ultimately show ?thesis using trans nw by (simp add: lm2_def lock_simps)
  next
    case (Some r)
    then have r: "r \<in> set (lq_requests q)" "lr_txn r = ?i" by (auto simp: find_Some_iff)
    have mine: "r0 = r" if "r0 \<in> set (lq_requests q)" "lr_txn r0 = ?i" for r0
      using own_unique [OF q that(1) r(1)] that(2) r(2) by simp
    have addr: "r0 = r" if "r0 \<in> set (lq_requests q)" "lr_addr r0 = lr_addr r" for r0
      using q that r(1) unfolding queue_ok_def by (metis distinct_map inj_onD)
    consider (held) "lr_mode r = m" "lr_granted r" | (same) "lr_mode r = m" "\<not> lr_granted r"
      | (refused) "lr_mode r \<noteq> m" "lq_upgrading q \<or> \<not> isUpdateCompatible (lr_mode r) m"
      | (upgrade) "lr_mode r \<noteq> m" "\<not> lq_upgrading q" "isUpdateCompatible (lr_mode r) m" by blast
    then show ?thesis
    proof cases
      case held
      then have "holds txn m l" using ag r unfolding agrees_def q_def by blast
      then have "l \<in> s" using s by (simp add: holds_def)
      then have "acquire m l (lm, txn) = Some (lm1, txn, Returned True)"
        using held Some g s by (simp add: acquire_def Let_def q_def lm1_def note_lock_def)
      with ok1 nw ag1 g \<open>holds txn m l\<close> show ?thesis by (simp add: call_effect_def same)
    next
      case same
      obtain r1 where r1: "find_addr (lr_addr r) q = Some r1" using find_addr_in [OF r(1)] by blast
      then have "r1 = r" using find_addr_Some [OF r1] addr by blast
      then have own: "own_request lm1 ?i m l (lr_addr r)"
        using r1 r same(1) m by (simp add: own_request_def lm1_def lock_simps)
      from lock_wake_effect(1) [OF ok1 own agrees_weaken [OF ag1] g, of WaitSame] g
      have "call_effect l m (lm1, txn) (lock_wake m l WaitSame (lr_addr r) (lm1, txn))" by blast
      moreover have "acquire m l (lm, txn) = lock_wake m l WaitSame (lr_addr r) (lm1, txn)"
        using Some same by (simp add: acquire_def Let_def q_def lm1_def)
      ultimately show ?thesis using trans nw \<open>\<And>l'. queue_at lm1 l' = queue_at lm l'\<close> by simp
    next
      case refused
      then have "acquire m l (lm, txn) = Some (lm1, abort_txn txn, Returned False)"
        using Some by (auto simp: acquire_def Let_def q_def lm1_def)
      with ok1 nw agrees_abort [OF ag1] show ?thesis
        by (simp add: call_effect_def same) (simp add: abort_txn_def)
    next
      case upgrade
      let ?r = "r\<lparr>lr_mode := m, lr_granted := False\<rparr>"
      define lm2 where "lm2 = set_queue l (set_upgrade (lr_addr r) m q) lm1"
      have ok2: "lm_ok lm2" unfolding lm2_def
        using set_upgrade_ok [OF q] by (intro lm_ok_set [OF ok1]) (simp add: lm1_def lock_simps)
      have at2: "queue_at lm2 l' = (if l' = l then set_upgrade (lr_addr r) m q else queue_at lm l')" for l'
        by (simp add: lm2_def lock_simps same)
      have reqs: "set (lq_requests (set_upgrade (lr_addr r) m q)) = insert ?r (set (lq_requests q) - {r})"
      proof -
        let ?f = "\<lambda>r0. if lr_addr r0 = lr_addr r then r0\<lparr>lr_mode := m, lr_granted := False\<rparr> else r0"
        have "?f ` (set (lq_requests q) - {r}) = (\<lambda>x. x) ` (set (lq_requests q) - {r})"
          by (rule image_cong) (use addr in auto)
        moreover have "?f ` set (lq_requests q) = insert (?f r) (?f ` (set (lq_requests q) - {r}))"
          by (subst image_insert [symmetric], subst insert_Diff [OF r(1)], rule refl)
        ultimately show ?thesis unfolding set_fields set_map by simp
      qed
      then have "?r \<in> set (lq_requests (set_upgrade (lr_addr r) m q))" by simp
      from find_addr_in [OF this] obtain r1 where r1: "find_addr (lr_addr r) (set_upgrade (lr_addr r) m q) = Some r1"
        by auto
      then have "r1 = ?r" using find_addr_Some [OF r1] addr unfolding reqs by auto
      then have own: "own_request lm2 ?i m l (lr_addr r)" using r1 r m by (simp add: own_request_def at2)
      have le: "m' \<le> m" if "holds txn m' l" for m'
      proof -
        have "m' \<le> lr_mode r" using that ag g mine unfolding agrees_def q_def by fastforce
        also have "\<dots> < m" using upgrade(3) by (simp add: isUpdateCompatible_less)
        finally show ?thesis by simp
      qed
      have "agrees lm2 txn {l}"
        unfolding agrees_def
      proof (intro conjI impI allI ballI)
        fix l' r' assume r': "r' \<in> set (lq_requests (queue_at lm2 l'))" "lr_txn r' = ?i \<and> lr_granted r'"
        show "holds txn (lr_mode r') l'"
        proof (cases "l' = l")
          case True
          with r' reqs mine show ?thesis by (auto simp: at2)
        next
          case False
          with r' ag show ?thesis by (simp add: at2 agrees_def)
        qed
      next
        fix m' l' assume h: "holds txn m' l'"
        show "\<exists>r' \<in> set (lq_requests (queue_at lm2 l')). lr_txn r' = ?i \<and> m' \<le> lr_mode r' \<and> (l' \<notin> {l} \<longrightarrow> lr_granted r')"
        proof (cases "l' = l")
          case True
          with reqs r(2) le h show ?thesis by (intro bexI [of _ ?r]) (auto simp: at2)
        next
          case False
          with h ag g show ?thesis by (simp add: at2 agrees_def)
        qed
      qed
      from lock_wake_effect(1) [OF ok2 own this g, of WaitUpgrade] g
      have "call_effect l m (lm2, txn) (lock_wake m l WaitUpgrade (lr_addr r) (lm2, txn))" by blast
      moreover have "\<forall>l'. foreign ?i (queue_at lm2 l') = foreign ?i (queue_at lm l')"
        using foreign_set_granted(2) [OF q r, of m] by (simp add: at2 q_def)
      moreover have "acquire m l (lm, txn) = lock_wake m l WaitUpgrade (lr_addr r) (lm2, txn)"
        using Some upgrade by (auto simp: acquire_def Let_def q_def lm1_def lm2_def)
      ultimately show ?thesis using trans nw by (simp add: lm2_def lock_simps)
    qed
  qed
qed

section \<open>What a release changes\<close>

lemma erase_granted_set:
  "erase_granted i rs = Some qs \<Longrightarrow> \<exists>r as bs. rs = as @ r # bs \<and> qs = as @ bs \<and> lr_txn r = i \<and> lr_granted r"
proof (induction rs arbitrary: qs)
  case (Cons r rs)
  show ?case
  proof (cases "lr_txn r = i \<and> lr_granted r")
    case True
    with Cons.prems show ?thesis by (intro exI [of _ r] exI [of _ "[]"] exI [of _ rs]) auto
  next
    case False
    with Cons.prems obtain qs' where "erase_granted i rs = Some qs'" "qs = r # qs'" by auto
    with Cons.IH [of qs'] show ?thesis by (metis append_Cons)
  qed
qed simp

lemma erase_granted_None: "erase_granted i rs = None \<Longrightarrow> \<forall>r \<in> set rs. \<not> (lr_txn r = i \<and> lr_granted r)"
  by (induction rs) (auto split: if_splits)

text \<open>The result of an unlock call on \<open>l\<close>.\<close>

definition release_effect :: "lock_data_id \<Rightarrow> lock_manager \<times> transaction \<Rightarrow> lock_manager \<times> transaction \<times> bool \<Rightarrow> bool" where
  "release_effect l s res \<longleftrightarrow> (case s of (lm, txn) \<Rightarrow> case res of (lm', txn', b) \<Rightarrow>
     lm_ok lm' \<and> tx_id txn' = tx_id txn \<and> lm_no_wait lm' = lm_no_wait lm \<and>
     (\<forall>l'. foreign (tx_id txn) (queue_at lm' l') = foreign (tx_id txn) (queue_at lm l')) \<and>
     (\<forall>l'. set (lq_requests (queue_at lm' l')) \<subseteq> set (lq_requests (queue_at lm l'))) \<and>
     agrees lm' txn' {} \<and> (\<forall>m. \<not> holds txn' m l) \<and> tx_state txn' \<noteq> GROWING \<and>
     (tx_state txn = DEFAULT \<and> (\<forall>r \<in> set (lq_requests (queue_at lm l)). lr_txn r \<noteq> tx_id txn) \<longrightarrow> tx_state txn' = ABORTED) \<and>
     (tx_state txn \<noteq> DEFAULT \<longrightarrow> tx_state txn' \<noteq> DEFAULT))"

lemma unlock_effect:
  assumes ok: "lm_ok lm" and ag: "agrees lm txn {}" and u: "unlock l (lm, txn) = (lm', txn1, b)"
    and holds: "\<forall>m l'. holds txn' m l' \<longleftrightarrow> holds txn1 m l' \<and> l' \<noteq> l" and id: "tx_id txn' = tx_id txn1"
    and st: "tx_state txn' = tx_state txn1"
  shows "release_effect l (lm, txn) (lm', txn', b')"
proof -
  let ?i = "tx_id txn" and ?q = "queue_at lm l"
  note q = lm_ok_queue [OF ok, of l]
  have ti: "tx_id (if tx_state txn = GROWING then txn\<lparr>tx_state := SHRINKING\<rparr> else txn) = tx_id txn" by simp
  show ?thesis
  proof (cases "erase_granted ?i (lq_requests ?q)")
    case None
    then have r: "lm' = set_queue l ?q lm" "txn1 = abort_txn (if tx_state txn = GROWING then txn\<lparr>tx_state := SHRINKING\<rparr> else txn)"
      using u by (simp_all only: unlock_def Let_def prod.case ti option.case prod.inject)
    have same: "queue_at lm' l' = queue_at lm l'" for l' by (simp add: r lock_simps)
    have "tx_state txn1 = ABORTED" "tx_id txn1 = ?i" "holds txn1 m l' = holds txn m l'" for m l'
      by (simp_all add: r abort_txn_def)
    then show ?thesis
      using ag holds id st lm_ok_set [OF ok q] erase_granted_None [OF None]
      unfolding release_effect_def agrees_def prod.case same by (auto simp: r lock_simps)
  next
    case (Some rs)
    then have r: "lm' = set_queue l (?q\<lparr>lq_requests := rs\<rparr>) lm"
      "txn1 = (if tx_state txn = GROWING then txn\<lparr>tx_state := SHRINKING\<rparr> else txn)"
      using u by (simp_all only: unlock_def Let_def prod.case ti option.case prod.inject)
    obtain r as bs where split: "lq_requests ?q = as @ r # bs" "rs = as @ bs" "lr_txn r = ?i" "lr_granted r"
      using erase_granted_set [OF Some] by blast
    have at: "queue_at lm' l' = (if l' = l then ?q\<lparr>lq_requests := rs\<rparr> else queue_at lm l')" for l'
      by (simp add: r lock_simps)
    have sub: "set rs \<subseteq> set (lq_requests ?q)" by (auto simp: split)
    have gone: "\<forall>r' \<in> set rs. lr_txn r' \<noteq> ?i"
      using q split by (auto simp: queue_ok_def image_iff)
    have "queue_ok (lm_fresh lm) (?q\<lparr>lq_requests := rs\<rparr>)"
      using q ld.shrink [of "lq_requests ?q" rs] sub by (auto simp: queue_ok_def split)
    then have "lm_ok lm'" unfolding r by (rule lm_ok_set [OF ok])
    moreover have tx1: "tx_id txn1 = ?i" "tx_state txn1 \<noteq> GROWING" "tx_state txn1 = ABORTED \<longleftrightarrow> tx_state txn = ABORTED"
      "tx_state txn1 = DEFAULT \<longleftrightarrow> tx_state txn = DEFAULT" "holds txn1 m l' = holds txn m l'" for m l'
      by (simp_all add: r)
    moreover have "foreign ?i (queue_at lm' l') = foreign ?i (queue_at lm l')" for l'
      using split(3) by (simp add: at foreign_def split)
    moreover have "set (lq_requests (queue_at lm' l')) \<subseteq> set (lq_requests (queue_at lm l'))" for l'
      using sub by (simp add: at)
    moreover have "agrees lm' txn' {}"
      unfolding agrees_def
    proof (intro conjI allI ballI impI)
      fix l' r' assume "r' \<in> set (lq_requests (queue_at lm' l'))" "lr_txn r' = tx_id txn' \<and> lr_granted r'"
      then show "holds txn' (lr_mode r') l'"
        using ag gone holds tx1(1,5) id by (cases "l' = l") (auto simp: at agrees_def)
    next
      fix m l' assume "tx_state txn' \<noteq> ABORTED" "holds txn' m l'"
      then show "\<exists>r \<in> set (lq_requests (queue_at lm' l')). lr_txn r = tx_id txn' \<and> m \<le> lr_mode r \<and> (l' \<notin> {} \<longrightarrow> lr_granted r)"
        using ag holds tx1 id st by (auto simp: at agrees_def)
    qed
    ultimately show ?thesis
      using holds id st split(1,3) unfolding release_effect_def prod.case by (auto simp: r lock_simps)
  qed
qed

lemma holds_lockable: "holds txn m l \<Longrightarrow> lockable (ld_type l) m"
  by (cases "ld_type l"; cases m; simp add: holds_def get_lock_set_def lockable_def)

lemma release_effects:
  assumes "lm_ok lm" and "agrees lm txn {}"
  shows "release_effect (table_id_of oid) (lm, txn) (unlock_table oid (lm, txn))"
    and "release_effect (partition_id_of oid p_id) (lm, txn) (unlock_partition oid p_id (lm, txn))"
    and "release_effect (row_id_of oid p_id row) (lm, txn) (unlock_row oid p_id row (lm, txn))"
proof -
  have all: "m \<in> {SHARED, EXLUCSIVE, INTENTION_EXCLUSIVE, INTENTION_SHARED, S_IX}" for m :: lock_mode
    by (cases m) auto
  have row: "holds t m (row_id_of oid p_id row) \<Longrightarrow> m \<in> {SHARED, EXLUCSIVE}" for t m
    using holds_lockable [of t m "row_id_of oid p_id row"] by (auto simp: lockable_def row_id_of_def)
  show "release_effect (table_id_of oid) (lm, txn) (unlock_table oid (lm, txn))"
    unfolding unlock_table_def Let_def
    by (cases "unlock (table_id_of oid) (lm, txn)", simp, rule unlock_effect [OF assms], assumption)
      (use all in \<open>auto simp: holds_erase\<close>)
  show "release_effect (partition_id_of oid p_id) (lm, txn) (unlock_partition oid p_id (lm, txn))"
    unfolding unlock_partition_def Let_def
    by (cases "unlock (partition_id_of oid p_id) (lm, txn)", simp, rule unlock_effect [OF assms], assumption)
      (use all in \<open>auto simp: holds_erase\<close>)
  show "release_effect (row_id_of oid p_id row) (lm, txn) (unlock_row oid p_id row (lm, txn))"
    unfolding unlock_row_def Let_def
    by (cases "unlock (row_id_of oid p_id row) (lm, txn)", simp, rule unlock_effect [OF assms], assumption)
      (use row in \<open>auto simp: holds_erase\<close>)
qed

end
