(* ===== verification/LockSystem.thy ===== *)
theory LockSystem
  imports LockManager
begin

text \<open>
  Transactions that share a lock manager, as a step relation. Every transaction is run by one
  thread, so between two of its calls, and while a call of it sleeps in \<open>cv_.wait\<close>, the others may
  take any number of steps. The steps are: a transaction begins; it calls a lock operation, which
  returns or falls asleep; a sleeping call wakes up; it calls an unlock operation; its state is set
  from outside to anything but \<open>DEFAULT\<close> or \<open>GROWING\<close> (as the transaction manager does on commit and
  abort; of a sleeping or aborted transaction only to \<open>ABORTED\<close>). Each step carries its event.
\<close>

datatype lock_call =
    LockTable lock_mode "32 word"
  | LockPartition lock_mode "32 word" "32 word"
  | LockRow lock_mode "32 word" "32 word" "32 word"

datatype unlock_call =
    UnLockTable "32 word"
  | UnLockPartition "32 word" "32 word"
  | UnLockRow "32 word" "32 word" "32 word"

fun call_mode :: "lock_call \<Rightarrow> lock_mode" where
  "call_mode (LockTable m _) = m"
| "call_mode (LockPartition m _ _) = m"
| "call_mode (LockRow m _ _ _) = m"

fun call_data :: "lock_call \<Rightarrow> lock_data_id" where
  "call_data (LockTable _ oid) = table_id_of oid"
| "call_data (LockPartition _ oid p_id) = partition_id_of oid p_id"
| "call_data (LockRow _ oid p_id row) = row_id_of oid p_id row"

fun unlock_data :: "unlock_call \<Rightarrow> lock_data_id" where
  "unlock_data (UnLockTable oid) = table_id_of oid"
| "unlock_data (UnLockPartition oid p_id) = partition_id_of oid p_id"
| "unlock_data (UnLockRow oid p_id row) = row_id_of oid p_id row"

fun run_lock :: "lock_call \<Rightarrow> lock_manager \<times> transaction \<Rightarrow> (lock_manager \<times> transaction \<times> lock_outcome) option" where
  "run_lock (LockTable m oid) s = lock_table m oid s"
| "run_lock (LockPartition m oid p_id) s = lock_partition m oid p_id s"
| "run_lock (LockRow m oid p_id row) s = lock_row m oid p_id row s"

fun run_unlock :: "unlock_call \<Rightarrow> lock_manager \<times> transaction \<Rightarrow> lock_manager \<times> transaction \<times> bool" where
  "run_unlock (UnLockTable oid) s = unlock_table oid s"
| "run_unlock (UnLockPartition oid p_id) s = unlock_partition oid p_id s"
| "run_unlock (UnLockRow oid p_id row) s = unlock_row oid p_id row s"

record lock_sys =
  ls_lm :: lock_manager
  ls_txns :: "txn_id \<rightharpoonup> transaction"
  ls_wait :: "txn_id \<rightharpoonup> lock_call \<times> wait_kind \<times> nat"

definition sys_init :: "bool \<Rightarrow> lock_sys" where
  "sys_init no_wait = \<lparr>ls_lm = lock_manager_new no_wait, ls_txns = Map.empty, ls_wait = Map.empty\<rparr>"

datatype lock_event =
    Began txn_id
  | Locked txn_id lock_mode lock_data_id
  | Refused txn_id
  | Sleeps txn_id
  | Unlocked txn_id lock_data_id
  | StateSet txn_id

fun outcome_event :: "txn_id \<Rightarrow> lock_call \<Rightarrow> lock_outcome \<Rightarrow> lock_event" where
  "outcome_event i c (Returned b) = (if b then Locked i (call_mode c) (call_data c) else Refused i)"
| "outcome_event i c (Blocked _ _) = Sleeps i"

fun outcome_wait :: "lock_call \<Rightarrow> lock_outcome \<Rightarrow> (lock_call \<times> wait_kind \<times> nat) option" where
  "outcome_wait c (Returned _) = None"
| "outcome_wait c (Blocked w a) = Some (c, w, a)"

inductive sys_step :: "lock_sys \<Rightarrow> lock_event \<Rightarrow> lock_sys \<Rightarrow> bool" where
  begin_txn: "ls_txns s i = None \<Longrightarrow>
    sys_step s (Began i) (s\<lparr>ls_txns := (ls_txns s)(i \<mapsto> transaction_new i lvl)\<rparr>)"
| lock_call: "ls_txns s i = Some txn \<Longrightarrow> ls_wait s i = None \<Longrightarrow>
    run_lock c (ls_lm s, txn) = Some (lm', txn', out) \<Longrightarrow>
    sys_step s (outcome_event i c out) (s\<lparr>ls_lm := lm', ls_txns := (ls_txns s)(i \<mapsto> txn'),
      ls_wait := (ls_wait s)(i := outcome_wait c out)\<rparr>)"
| wake_up: "ls_txns s i = Some txn \<Longrightarrow> ls_wait s i = Some (c, w, a) \<Longrightarrow>
    lock_wake (call_mode c) (call_data c) w a (ls_lm s, txn) = Some (lm', txn', out) \<Longrightarrow>
    sys_step s (outcome_event i c out) (s\<lparr>ls_lm := lm', ls_txns := (ls_txns s)(i \<mapsto> txn'),
      ls_wait := (ls_wait s)(i := outcome_wait c out)\<rparr>)"
| unlock_call: "ls_txns s i = Some txn \<Longrightarrow> ls_wait s i = None \<Longrightarrow>
    run_unlock u (ls_lm s, txn) = (lm', txn', b) \<Longrightarrow>
    sys_step s (Unlocked i (unlock_data u)) (s\<lparr>ls_lm := lm', ls_txns := (ls_txns s)(i \<mapsto> txn')\<rparr>)"
| set_state: "ls_txns s i = Some txn \<Longrightarrow> st \<noteq> DEFAULT \<Longrightarrow> st \<noteq> GROWING \<Longrightarrow>
    st = ABORTED \<or> ls_wait s i = None \<and> tx_state txn \<noteq> ABORTED \<Longrightarrow>
    sys_step s (StateSet i) (s\<lparr>ls_txns := (ls_txns s)(i \<mapsto> txn\<lparr>tx_state := st\<rparr>)\<rparr>)"

inductive sys_run :: "lock_sys \<Rightarrow> lock_event list \<Rightarrow> lock_sys \<Rightarrow> bool" where
  run_nil: "sys_run s [] s"
| run_snoc: "sys_run s es t \<Longrightarrow> sys_step t e u \<Longrightarrow> sys_run s (es @ [e]) u"

section \<open>The invariant\<close>

definition txn_ok :: "lock_manager \<Rightarrow> txn_id \<Rightarrow> transaction \<Rightarrow> (lock_call \<times> wait_kind \<times> nat) option \<Rightarrow> bool" where
  "txn_ok lm i txn wt \<longleftrightarrow> tx_id txn = i \<and>
     (tx_state txn = DEFAULT \<longrightarrow> (\<forall>l. \<forall>r \<in> set (lq_requests (queue_at lm l)). lr_txn r \<noteq> i)) \<and>
     (case wt of
        None \<Rightarrow> agrees lm txn {}
      | Some (c, w, a) \<Rightarrow> agrees lm txn {call_data c} \<and> own_request lm i (call_mode c) (call_data c) a \<and>
          (tx_state txn = GROWING \<or> tx_state txn = ABORTED))"

definition sys_ok :: "lock_sys \<Rightarrow> bool" where
  "sys_ok s \<longleftrightarrow> lm_ok (ls_lm s) \<and> (\<forall>i. ls_txns s i = None \<longrightarrow> ls_wait s i = None) \<and>
     (\<forall>l. \<forall>r \<in> set (lq_requests (queue_at (ls_lm s) l)). ls_txns s (lr_txn r) \<noteq> None) \<and>
     (\<forall>i txn. ls_txns s i = Some txn \<longrightarrow> txn_ok (ls_lm s) i txn (ls_wait s i))"

lemma foreign_own:
  assumes "foreign j q' = foreign j q" and "i \<noteq> j"
  shows "r \<in> set (lq_requests q') \<and> lr_txn r = i \<longleftrightarrow> r \<in> set (lq_requests q) \<and> lr_txn r = i"
proof -
  have "r \<in> set (foreign j p) \<longleftrightarrow> r \<in> set (lq_requests p) \<and> lr_txn r \<noteq> j" for p
    by (auto simp: foreign_def)
  with assms show ?thesis by metis
qed

lemma agrees_foreign:
  assumes "\<forall>l. foreign j (queue_at lm' l) = foreign j (queue_at lm l)" and "tx_id txn \<noteq> j"
  shows "agrees lm' txn W = agrees lm txn W"
proof -
  let ?own = "\<lambda>lm l. {r \<in> set (lq_requests (queue_at lm l)). lr_txn r = tx_id txn}"
  have own: "?own lm' l = ?own lm l" for l
    using foreign_own [of j "queue_at lm' l" "queue_at lm l" "tx_id txn"] assms by auto
  have "agrees lm0 txn W \<longleftrightarrow> (\<forall>l. \<forall>r \<in> ?own lm0 l. lr_granted r \<longrightarrow> holds txn (lr_mode r) l) \<and>
     (tx_state txn \<noteq> ABORTED \<longrightarrow> (\<forall>m l. holds txn m l \<longrightarrow>
        (\<exists>r \<in> ?own lm0 l. m \<le> lr_mode r \<and> (l \<notin> W \<longrightarrow> lr_granted r))))" for lm0
    unfolding agrees_def by blast
  then show ?thesis by (simp only: own)
qed

lemma own_request_mem:
  assumes "lm_ok lm"
  shows "own_request lm i m l a \<longleftrightarrow> lockable (ld_type l) m \<and>
    (\<exists>r \<in> set (lq_requests (queue_at lm l)). lr_addr r = a \<and> lr_txn r = i \<and> lr_mode r = m)"
proof -
  have "r1 = r2" if "r1 \<in> set (lq_requests (queue_at lm l))" "r2 \<in> set (lq_requests (queue_at lm l))"
      "lr_addr r1 = lr_addr r2" for r1 r2
    using lm_ok_queue [OF assms, of l] that unfolding queue_ok_def by (metis distinct_map inj_onD)
  then show ?thesis
    using find_addr_Some find_addr_in unfolding own_request_def by metis
qed

lemma txn_ok_foreign:
  assumes ok: "lm_ok lm" "lm_ok lm'" and f: "\<forall>l. foreign j (queue_at lm' l) = foreign j (queue_at lm l)"
    and ij: "i \<noteq> j" and t: "txn_ok lm i txn wt"
  shows "txn_ok lm' i txn wt"
proof -
  have id: "tx_id txn \<noteq> j" using t ij by (simp add: txn_ok_def)
  have mem: "r \<in> set (lq_requests (queue_at lm' l)) \<and> lr_txn r = i \<longleftrightarrow>
      r \<in> set (lq_requests (queue_at lm l)) \<and> lr_txn r = i" for l r
    using foreign_own [of j "queue_at lm' l" "queue_at lm l" i r] f ij by simp
  have "own_request lm' i m l a \<longleftrightarrow> own_request lm i m l a" for m l a
    unfolding own_request_mem [OF ok(1)] own_request_mem [OF ok(2)] using mem by blast
  moreover have "(\<forall>r \<in> set (lq_requests (queue_at lm' l)). lr_txn r \<noteq> i) \<longleftrightarrow>
      (\<forall>r \<in> set (lq_requests (queue_at lm l)). lr_txn r \<noteq> i)" for l
    using mem by blast
  ultimately show ?thesis
    using t by (auto simp: txn_ok_def agrees_foreign [OF f id] split: option.splits)
qed

text \<open>A step of transaction \<open>i\<close> that keeps the other requests keeps the invariant, if it holds for \<open>i\<close>.\<close>

lemma sys_ok_update:
  assumes ok: "sys_ok s" and lm: "lm_ok lm'" and i: "ls_txns s i \<noteq> None"
    and f: "\<forall>l. foreign i (queue_at lm' l) = foreign i (queue_at (ls_lm s) l)"
    and t: "txn_ok lm' i txn' wt'"
  shows "sys_ok (s\<lparr>ls_lm := lm', ls_txns := (ls_txns s)(i \<mapsto> txn'), ls_wait := (ls_wait s)(i := wt')\<rparr>)"
proof -
  have "ls_txns s (lr_txn r) \<noteq> None" if "r \<in> set (lq_requests (queue_at lm' l))" for l r
  proof (cases "lr_txn r = i")
    case True
    with i show ?thesis by simp
  next
    case False
    then have "r \<in> set (lq_requests (queue_at (ls_lm s) l))"
      using foreign_own [of i "queue_at lm' l" "queue_at (ls_lm s) l" "lr_txn r" r] f that by simp
    with ok show ?thesis by (simp add: sys_ok_def)
  qed
  moreover have "txn_ok lm' j txn (ls_wait s j)" if "j \<noteq> i" "ls_txns s j = Some txn" for j txn
    using ok that txn_ok_foreign [OF _ lm f that(1), of txn "ls_wait s j"] by (auto simp: sys_ok_def)
  moreover have "\<forall>j. ls_txns s j = None \<longrightarrow> ls_wait s j = None" using ok by (simp add: sys_ok_def)
  ultimately show ?thesis using lm t i unfolding sys_ok_def by (auto split: if_splits)
qed

section \<open>Every step keeps the invariant\<close>

definition growing :: "transaction \<Rightarrow> bool" where
  "growing txn \<longleftrightarrow> tx_state txn = DEFAULT \<or> tx_state txn = GROWING"

text \<open>The result of a lock call or wake-up, as the system needs it.\<close>

definition step_result :: "lock_call \<Rightarrow> txn_id \<Rightarrow> lock_manager \<times> transaction \<Rightarrow>
    (lock_manager \<times> transaction \<times> lock_outcome) option \<Rightarrow> bool" where
  "step_result c i s res \<longleftrightarrow> (case s of (lm, txn) \<Rightarrow> \<exists>lm' txn' out. res = Some (lm', txn', out) \<and>
     lm_ok lm' \<and> lm_no_wait lm' = lm_no_wait lm \<and>
     (\<forall>l. foreign i (queue_at lm' l) = foreign i (queue_at lm l)) \<and>
     txn_ok lm' i txn' (outcome_wait c out) \<and> (growing txn' \<longrightarrow> growing txn) \<and>
     (\<forall>w a. out = Blocked w a \<longrightarrow> \<not> lm_no_wait lm) \<and>
     (out = Returned True \<longrightarrow> growing txn \<and> tx_state txn' = GROWING \<and> holds txn' (call_mode c) (call_data c)) \<and>
     (out = Returned False \<longrightarrow> tx_state txn' = ABORTED))"

lemma step_result_call:
  assumes eff: "call_effect (call_data c) (call_mode c) (lm, txn1) res" and id: "tx_id txn1 = i"
    and g: "growing txn"
  shows "step_result c i (lm, txn) res"
proof -
  obtain lm' txn' out where r: "res = Some (lm', txn', out)" "lm_ok lm'" "tx_id txn' = i" "lm_no_wait lm' = lm_no_wait lm"
      "\<forall>l. foreign i (queue_at lm' l) = foreign i (queue_at lm l)"
      "case out of Blocked w a \<Rightarrow> \<not> lm_no_wait lm \<and> tx_state txn' = GROWING \<and>
          own_request lm' i (call_mode c) (call_data c) a \<and> agrees lm' txn' {call_data c}
        | Returned True \<Rightarrow> tx_state txn' = GROWING \<and> agrees lm' txn' {} \<and> holds txn' (call_mode c) (call_data c)
        | Returned False \<Rightarrow> tx_state txn' = ABORTED \<and> agrees lm' txn' {}"
    using eff id unfolding call_effect_def by auto
  show ?thesis
  proof (cases out)
    case (Returned b)
    with r g show ?thesis by (cases b) (simp_all add: step_result_def txn_ok_def)
  next
    case (Blocked w a)
    with r g show ?thesis by (simp add: step_result_def txn_ok_def)
  qed
qed

lemma start_growing_simps:
  "tx_id (start_growing txn) = tx_id txn" "tx_state (start_growing txn) = GROWING \<longleftrightarrow> growing txn"
  "agrees lm (start_growing txn) W \<longleftrightarrow> agrees lm txn W"
  by (auto simp: start_growing_def growing_def agrees_def)

lemma refused_result:
  assumes "lm_ok lm" and "txn_ok lm i txn None"
  shows "step_result c i (lm, txn) (Some (lm, abort_txn (start_growing txn), Returned False))"
  using assms agrees_abort [of lm "start_growing txn" "{}" "{}"]
  by (auto simp: step_result_def txn_ok_def start_growing_simps growing_def) (auto simp: abort_txn_def start_growing_simps)

lemma run_lock_result:
  assumes ok: "lm_ok lm" and t: "txn_ok lm i txn None"
  shows "step_result c i (lm, txn) (run_lock c (lm, txn))"
proof (cases "growing txn")
  case False
  then have "tx_state (start_growing txn) \<noteq> GROWING" by (simp add: start_growing_simps)
  then have "run_lock c (lm, txn) = Some (lm, abort_txn (start_growing txn), Returned False)"
    by (cases c) (simp_all add: lock_table_def lock_partition_def lock_row_def Let_def)
  with refused_result [OF ok t] show ?thesis by simp
next
  case True
  then have g: "tx_state (start_growing txn) = GROWING" by (simp add: start_growing_simps)
  have ag: "agrees lm (start_growing txn) {}" and id: "tx_id (start_growing txn) = i"
    using t by (simp_all add: txn_ok_def start_growing_simps)
  show ?thesis
  proof (cases "lockable (ld_type (call_data c)) (call_mode c)")
    case lockable: True
    then have "run_lock c (lm, txn) = acquire (call_mode c) (call_data c) (lm, start_growing txn)"
      using g by (cases c) (auto simp: lock_table_def lock_partition_def lock_row_def Let_def lockable_def row_id_of_def)
    with step_result_call [OF acquire_effect [OF ok lockable ag g] id True] show ?thesis by simp
  next
    case False
    then have "run_lock c (lm, txn) = Some (lm, abort_txn (start_growing txn), Returned False)"
      using g by (cases c) (auto simp: lock_row_def Let_def lockable_def table_id_of_def partition_id_of_def)
    with refused_result [OF ok t] show ?thesis by simp
  qed
qed

lemma wake_result:
  assumes ok: "lm_ok lm" and t: "txn_ok lm i txn (Some (c, w, a))"
  shows "step_result c i (lm, txn) (lock_wake (call_mode c) (call_data c) w a (lm, txn))"
proof -
  have id: "tx_id txn = i" and own: "own_request lm (tx_id txn) (call_mode c) (call_data c) a"
    and ag: "agrees lm txn {call_data c}" and st: "tx_state txn = GROWING \<or> tx_state txn = ABORTED"
    using t by (auto simp: txn_ok_def)
  show ?thesis
  proof (cases "tx_state txn = GROWING")
    case True
    from step_result_call [OF lock_wake_effect(1) [OF ok own ag True] id] True show ?thesis
      by (simp add: growing_def)
  next
    case False
    with st have a: "tx_state txn = ABORTED" by simp
    from lock_wake_effect(2) [OF ok own ag a, of w] show ?thesis
      using ok id a agrees_abort [OF ag] by (auto simp: step_result_def txn_ok_def growing_def) (auto simp: abort_txn_def)
  qed
qed

lemma run_unlock_effect:
  assumes "lm_ok lm" and "agrees lm txn {}"
  shows "release_effect (unlock_data u) (lm, txn) (run_unlock u (lm, txn))"
  using release_effects [OF assms] by (cases u) simp_all

text \<open>Whether transaction \<open>i\<close> exists and may still take locks.\<close>

definition may_lock :: "lock_sys \<Rightarrow> txn_id \<Rightarrow> bool" where
  "may_lock s i \<longleftrightarrow> (case ls_txns s i of Some txn \<Rightarrow> growing txn | None \<Rightarrow> True)"

lemma sys_step_facts:
  assumes "sys_step s e s'" and ok: "sys_ok s"
  shows "sys_ok s' \<and> lm_no_wait (ls_lm s') = lm_no_wait (ls_lm s) \<and> (\<forall>j. may_lock s' j \<longrightarrow> may_lock s j) \<and>
    (\<forall>j m l. e = Locked j m l \<longrightarrow> may_lock s j \<and> (\<exists>txn. ls_txns s' j = Some txn \<and> holds txn m l \<and> tx_state txn = GROWING)) \<and>
    (\<forall>j l. e = Unlocked j l \<longrightarrow> \<not> may_lock s' j) \<and> (\<forall>j. e = Sleeps j \<longrightarrow> \<not> lm_no_wait (ls_lm s))"
proof -
  have lock: ?thesis if t: "ls_txns s i = Some txn" and r: "step_result c i (ls_lm s, txn) (Some (lm', txn', out))"
    and e: "e = outcome_event i c out" and s': "s' = s\<lparr>ls_lm := lm', ls_txns := (ls_txns s)(i \<mapsto> txn'),
      ls_wait := (ls_wait s)(i := outcome_wait c out)\<rparr>" for i txn c lm' txn' out
  proof -
    have "sys_ok s'" unfolding s' using r t by (intro sys_ok_update [OF ok]) (auto simp: step_result_def)
    with r t e s' show ?thesis
      by (cases out) (auto simp: step_result_def may_lock_def split: if_splits option.splits)
  qed
  have tok: "txn_ok (ls_lm s) i txn (ls_wait s i)" if "ls_txns s i = Some txn" for i txn
    using ok that by (simp add: sys_ok_def)
  have lm: "lm_ok (ls_lm s)" using ok by (simp add: sys_ok_def)
  show ?thesis
    using assms(1)
  proof cases
    case (begin_txn i lvl)
    have none: "lr_txn r \<noteq> i" if "r \<in> set (lq_requests (queue_at (ls_lm s) l))" for l r
      using ok begin_txn(3) that unfolding sys_ok_def by blast
    have "tx_id (transaction_new i lvl) = i" "tx_state (transaction_new i lvl) = DEFAULT"
      by (simp_all add: transaction_new_def)
    with none have "txn_ok (ls_lm s) i (transaction_new i lvl) None"
      by (simp add: txn_ok_def agrees_def)
    moreover have "\<forall>j txn. ls_txns s j = Some txn \<longrightarrow> txn_ok (ls_lm s) j txn (ls_wait s j)" "ls_wait s i = None"
      using ok begin_txn(3) by (auto simp: sys_ok_def)
    ultimately have "sys_ok s'" using ok begin_txn by (auto simp: sys_ok_def)
    with begin_txn show ?thesis by (auto simp: may_lock_def)
  next
    case (lock_call i txn c lm' txn' out)
    have "txn_ok (ls_lm s) i txn None" using tok [OF lock_call(3)] lock_call(4) by simp
    from run_lock_result [OF lm this, of c] lock_call show ?thesis by (intro lock) simp_all
  next
    case (wake_up i txn c w a lm' txn' out)
    have "txn_ok (ls_lm s) i txn (Some (c, w, a))" using tok [OF wake_up(3)] wake_up(4) by simp
    from wake_result [OF lm this] wake_up show ?thesis by (intro lock) simp_all
  next
    case (unlock_call i txn u lm' txn' b)
    have t: "txn_ok (ls_lm s) i txn None" using tok [OF unlock_call(3)] unlock_call(4) by simp
    have r: "release_effect (unlock_data u) (ls_lm s, txn) (lm', txn', b)"
      using run_unlock_effect [OF lm, of txn u] t unlock_call(5) by (simp add: txn_ok_def)
    then have st: "tx_state txn' \<noteq> DEFAULT" "tx_state txn' \<noteq> GROWING"
      using t by (auto simp: release_effect_def txn_ok_def)
    then have "txn_ok lm' i txn' None" using r t by (simp add: release_effect_def txn_ok_def)
    then have "sys_ok (s\<lparr>ls_lm := lm', ls_txns := (ls_txns s)(i \<mapsto> txn'), ls_wait := (ls_wait s)(i := None)\<rparr>)"
      using r t unlock_call(3) by (intro sys_ok_update [OF ok]) (auto simp: release_effect_def txn_ok_def)
    moreover have "(ls_wait s)(i := None) = ls_wait s" using unlock_call(4) by auto
    ultimately have "sys_ok s'" using unlock_call(2) by simp
    with unlock_call st r show ?thesis by (auto simp: may_lock_def growing_def release_effect_def)
  next
    case (set_state i txn st)
    have t: "txn_ok (ls_lm s) i txn (ls_wait s i)" by (rule tok [OF set_state(3)])
    then have "txn_ok (ls_lm s) i (txn\<lparr>tx_state := st\<rparr>) (ls_wait s i)"
      using set_state(4-6) by (auto simp: txn_ok_def agrees_def split: option.splits)
    then have "sys_ok (s\<lparr>ls_lm := ls_lm s, ls_txns := (ls_txns s)(i \<mapsto> txn\<lparr>tx_state := st\<rparr>),
        ls_wait := (ls_wait s)(i := ls_wait s i)\<rparr>)"
      using lm set_state(3) by (intro sys_ok_update [OF ok]) auto
    then have "sys_ok s'" using set_state(2) by simp
    with set_state show ?thesis by (auto simp: may_lock_def growing_def)
  qed
qed

section \<open>Reachable states\<close>

lemma sys_init_ok: "sys_ok (sys_init nw)"
  by (simp add: sys_ok_def sys_init_def lm_ok_new) (simp add: lock_manager_new_def queue_at_def queue_new_def)

lemma sys_run_ok:
  assumes "sys_run s es s'" and "sys_ok s"
  shows "sys_ok s' \<and> lm_no_wait (ls_lm s') = lm_no_wait (ls_lm s)"
  using assms by (induction rule: sys_run.induct) (use sys_step_facts in blast)+

lemma reach_ok: "sys_run (sys_init nw) es s \<Longrightarrow> sys_ok s \<and> lm_no_wait (ls_lm s) = nw"
  using sys_run_ok [OF _ sys_init_ok, of nw es s] by (simp add: sys_init_def lock_manager_new_def)

lemma unlocked_no_more:
  assumes "sys_run s es s'" and "sys_ok s" and "Unlocked i l \<in> set es"
  shows "\<not> may_lock s' i"
  using assms
proof (induction rule: sys_run.induct)
  case (run_snoc s es t e u)
  have ok: "sys_ok t" using sys_run_ok run_snoc by blast
  show ?case
  proof (cases "Unlocked i l \<in> set es")
    case True
    with run_snoc sys_step_facts [OF run_snoc.hyps(2) ok] show ?thesis by blast
  next
    case False
    with run_snoc.prems sys_step_facts [OF run_snoc.hyps(2) ok] show ?thesis by auto
  qed
qed simp

lemma two_phase_run:
  assumes "sys_run s es s'" and "sys_ok s"
  shows "es = xs @ Unlocked i l # ys \<Longrightarrow> Locked i m l' \<notin> set ys"
  using assms
proof (induction arbitrary: ys rule: sys_run.induct)
  case (run_snoc s es t e u)
  have ok: "sys_ok t" using sys_run_ok run_snoc by blast
  show ?case
  proof (cases ys rule: rev_cases)
    case (snoc zs z)
    then have es: "es = xs @ Unlocked i l # zs" and z: "z = e" using run_snoc.prems(1) by auto
    have "Unlocked i l \<in> set es" using es by simp
    then have "\<not> may_lock t i" using unlocked_no_more run_snoc.hyps(1) run_snoc.prems(2) by blast
    then have "e \<noteq> Locked i m l'" using sys_step_facts [OF run_snoc.hyps(2) ok] by blast
    moreover have "Locked i m l' \<notin> set zs" using run_snoc.IH [OF es run_snoc.prems(2)] .
    ultimately show ?thesis using snoc z by auto
  qed simp
qed simp

lemma weaker_compatible:
  assumes "isLockCompatible a b" and "a' \<le> a" and "b' \<le> b"
  shows "isLockCompatible a' b'"
  using assms conflicts_sym unfolding isLockCompatible_conflicts less_eq_lock_mode_def by blast

text \<open>The transaction sleeps in a lock call on that datum.\<close>

definition asleep_on :: "lock_sys \<Rightarrow> txn_id \<Rightarrow> lock_data_id \<Rightarrow> bool" where
  "asleep_on s i l \<longleftrightarrow> (case ls_wait s i of None \<Rightarrow> False | Some (c, w, a) \<Rightarrow> call_data c = l)"

lemma txn_agrees:
  assumes "sys_ok s" and "ls_txns s i = Some t"
  shows "tx_id t = i" "agrees (ls_lm s) t {l. asleep_on s i l}"
proof -
  have "txn_ok (ls_lm s) i t (ls_wait s i)" using assms by (simp add: sys_ok_def)
  moreover have "{l. asleep_on s i l} = (case ls_wait s i of None \<Rightarrow> {} | Some (c, w, a) \<Rightarrow> {call_data c})"
    by (auto simp: asleep_on_def split: option.splits)
  ultimately show "tx_id t = i" "agrees (ls_lm s) t {l. asleep_on s i l}"
    by (auto simp: txn_ok_def split: option.splits)
qed

lemma held_request:
  assumes "sys_ok s" and "ls_txns s i = Some t" and "\<not> asleep_on s i l" and "tx_state t \<noteq> ABORTED" and "holds t m l"
  obtains r where "r \<in> set (lq_requests (queue_at (ls_lm s) l))" "lr_txn r = i" "lr_granted r" "m \<le> lr_mode r"
  using txn_agrees [OF assms(1,2)] assms(3-5) that unfolding agrees_def by blast

lemma locks_compatible:
  assumes ok: "sys_ok s" and ij: "i \<noteq> j" and ti: "ls_txns s i = Some t" and tj: "ls_txns s j = Some u"
    and wait: "\<not> asleep_on s i l" "\<not> asleep_on s j l" and live: "tx_state t \<noteq> ABORTED" "tx_state u \<noteq> ABORTED"
    and holds: "holds t m l" "holds u m' l"
  shows "isLockCompatible m m'"
proof -
  obtain r where r: "r \<in> set (lq_requests (queue_at (ls_lm s) l))" "lr_txn r = i" "lr_granted r" "m \<le> lr_mode r"
    using held_request [OF ok ti wait(1) live(1) holds(1)] .
  obtain r' where r': "r' \<in> set (lq_requests (queue_at (ls_lm s) l))" "lr_txn r' = j" "lr_granted r'" "m' \<le> lr_mode r'"
    using held_request [OF ok tj wait(2) live(2) holds(2)] .
  have q: "queue_ok (lm_fresh (ls_lm s)) (queue_at (ls_lm s) l)" using ok by (simp add: sys_ok_def lm_ok_queue)
  have "lr_addr r \<noteq> lr_addr r'"
    using q r(1,2) r'(1,2) ij unfolding queue_ok_def by (metis distinct_map inj_onD)
  then have "isLockCompatible (lr_mode r) (lr_mode r')"
    using q r(1,3) r'(1,3) unfolding queue_ok_def granted_compatible_def by blast
  with r(4) r'(4) show ?thesis by (rule weaker_compatible [rotated 1]) 
qed

section \<open>What a call returns\<close>

definition others_allow :: "lock_mode \<Rightarrow> txn_id \<Rightarrow> lock_queue \<Rightarrow> bool" where
  "others_allow m i q \<longleftrightarrow> list_all (\<lambda>r. lr_txn r \<noteq> i \<and> lr_granted r \<longrightarrow> isLockCompatible (lr_mode r) m) (lq_requests q)"

abbreviation request_of :: "txn_id \<Rightarrow> lock_queue \<Rightarrow> lock_request option" where
  "request_of i q \<equiv> find (\<lambda>r. lr_txn r = i) (lq_requests q)"

lemma run_lock_acquire:
  assumes "growing txn" and "lockable (ld_type (call_data c)) (call_mode c)"
  shows "run_lock c (lm, txn) = acquire (call_mode c) (call_data c) (lm, start_growing txn)"
proof -
  have "tx_state (start_growing txn) = GROWING" using assms(1) by (simp add: start_growing_simps)
  with assms(2) show ?thesis
    by (cases c) (auto simp: lock_table_def lock_partition_def lock_row_def Let_def lockable_def row_id_of_def)
qed

lemma own_others:
  assumes "queue_ok n q" and "find_addr a q = Some r" and "lr_txn r = i" and "lr_mode r = m"
  shows "checkQueueCompatible q r \<longleftrightarrow> others_allow m i q"
proof -
  have r: "r \<in> set (lq_requests q)" using find_addr_Some [OF assms(2)] by simp
  have "lr_addr it = lr_addr r \<longleftrightarrow> lr_txn it = i" if "it \<in> set (lq_requests q)" for it
    using assms(1,3) r that unfolding queue_ok_def by (metis distinct_map inj_onD)
  then show ?thesis
    using assms(4) unfolding checkQueueCompatible_def others_allow_def list_all_iff by auto
qed

text \<open>Without waiting, an evaluation of the predicate decides.\<close>

lemma wake_decides:
  assumes ok: "lm_ok lm" and own: "own_request lm (tx_id txn) m l a" and nw: "lm_no_wait lm" and g: "tx_state txn = GROWING"
  shows "\<exists>lm' txn'. lock_wake m l w a (lm, txn) = Some (lm', txn', Returned (others_allow m (tx_id txn) (queue_at lm l))) \<and>
    (if others_allow m (tx_id txn) (queue_at lm l)
     then tx_state txn' = GROWING \<and> holds txn' m l \<and>
       (\<exists>u. queue_at lm' l = set_granted a (queue_at lm l\<lparr>lq_upgrading := u\<rparr>))
     else lm' = lm \<and> txn' = abort_txn txn)"
proof -
  obtain r where r: "find_addr a (queue_at lm l) = Some r" "lr_txn r = tx_id txn" "lr_mode r = m"
    using own by (auto simp: own_request_def)
  have others: "checkQueueCompatible (queue_at lm l) r \<longleftrightarrow> others_allow m (tx_id txn) (queue_at lm l)"
    by (rule own_others [OF lm_ok_queue [OF ok] r])
  obtain lm' txn' out where w: "lock_wake m l w a (lm, txn) = Some (lm', txn', out)"
    using lock_wake_ok [OF ok r(1), of m w txn] own unfolding own_request_def by blast
  show ?thesis
    using w own
  proof (cases rule: lock_wake_cases)
    case blocked
    with w nw r(1) show ?thesis by (auto simp: lock_wake_def wait_ready_def lock_granted_def Let_def split: if_splits Option.bind_splits)
  next
    case refused
    have "\<not> others_allow m (tx_id txn) (queue_at lm l)"
    proof
      assume "others_allow m (tx_id txn) (queue_at lm l)"
      with w refused r(1) nw g others show False
        by (auto simp: lock_wake_def wait_ready_def lock_granted_def Let_def split: Option.bind_splits)
    qed
    with w refused show ?thesis by simp
  next
    case (granted u)
    have "others_allow m (tx_id txn) (queue_at lm l)"
    proof (rule ccontr)
      assume "\<not> others_allow m (tx_id txn) (queue_at lm l)"
      with w granted(1) r(1) nw others show False
        by (simp add: lock_wake_def wait_ready_def lock_granted_def)
    qed
    with w granted g show ?thesis by (auto simp: lock_simps)
  qed
qed

lemma first_request:
  assumes ok: "lm_ok lm" and m: "lockable (ld_type l) m" and g: "tx_state txn = GROWING" and nw: "lm_no_wait lm"
    and none: "request_of (tx_id txn) (queue_at lm l) = None"
  shows "\<exists>lm' txn'. acquire m l (lm, txn) = Some (lm', txn', Returned (others_allow m (tx_id txn) (queue_at lm l))) \<and>
    tx_state txn' = (if others_allow m (tx_id txn) (queue_at lm l) then GROWING else ABORTED)"
proof -
  let ?i = "tx_id txn" and ?q = "queue_at lm l"
  define r where "r = \<lparr>lr_addr = lm_fresh lm, lr_txn = ?i, lr_mode = m, lr_granted = False\<rparr>"
  define q' where "q' = ?q\<lparr>lq_requests := lq_requests ?q @ [r]\<rparr>"
  define lm2 where "lm2 = set_queue l q' (set_queue l ?q lm\<lparr>lm_fresh := lm_fresh lm + 1\<rparr>)"
  note q = lm_ok_queue [OF ok, of l]
  have no: "\<forall>r \<in> set (lq_requests ?q). lr_txn r \<noteq> ?i" using none by (auto simp: find_None_iff)
  have "queue_ok (lm_fresh lm + 1) q'"
    using q no ld.enqueue [of "lq_requests ?q" r] by (auto simp: queue_ok_def q'_def r_def)
  moreover have "lm_ok (set_queue l ?q lm\<lparr>lm_fresh := lm_fresh lm + 1\<rparr>)"
    using ok by (auto simp: lm_ok_def lock_simps intro: queue_ok_mono)
  ultimately have ok2: "lm_ok lm2" unfolding lm2_def by (intro lm_ok_set) simp_all
  have at2: "queue_at lm2 l = q'" "lm_no_wait lm2" using nw by (simp_all add: lm2_def lock_simps)
  have "r \<in> set (lq_requests q')" by (simp add: q'_def)
  then have own: "own_request lm2 ?i m l (lm_fresh lm)"
    using m unfolding own_request_mem [OF ok2] at2 by (intro conjI bexI [of _ r]) (simp_all add: r_def)
  have "acquire m l (lm, txn) = lock_wake m l WaitNew (lm_fresh lm) (lm2, txn)"
    using none by (simp add: acquire_def Let_def r_def q'_def lm2_def lock_simps)
  moreover have "others_allow m ?i q' \<longleftrightarrow> others_allow m ?i ?q" by (simp add: others_allow_def q'_def r_def)
  ultimately show ?thesis
    using wake_decides [OF ok2 own at2(2) g, of WaitNew] at2(1) by (auto simp: abort_txn_def split: if_splits)
qed

lemma repeated_request:
  assumes g: "tx_state txn = GROWING" and r: "request_of (tx_id txn) (queue_at lm l) = Some r" and m: "lockable (ld_type l) m"
  shows "lr_mode r = m \<Longrightarrow> lr_granted r \<Longrightarrow> \<exists>lm' txn'. acquire m l (lm, txn) = Some (lm', txn', Returned True) \<and>
      queue_at lm' l = queue_at lm l \<and> tx_state txn' = GROWING"
    and "lr_mode r \<noteq> m \<Longrightarrow> \<not> lr_mode r < m \<Longrightarrow> \<exists>lm'. acquire m l (lm, txn) = Some (lm', abort_txn txn, Returned False) \<and>
      queue_at lm' l = queue_at lm l"
    and "lr_mode r \<noteq> m \<Longrightarrow> lq_upgrading (queue_at lm l) \<Longrightarrow> \<exists>lm'. acquire m l (lm, txn) = Some (lm', abort_txn txn, Returned False) \<and>
      queue_at lm' l = queue_at lm l"
proof -
  obtain s where s: "get_lock_set (ld_type l) m txn = Some s"
    using locks_of_Some [OF m] by (auto simp: get_lock_set_def)
  show "lr_mode r = m \<Longrightarrow> lr_granted r \<Longrightarrow> \<exists>lm' txn'. acquire m l (lm, txn) = Some (lm', txn', Returned True) \<and>
      queue_at lm' l = queue_at lm l \<and> tx_state txn' = GROWING"
    using r g s by (simp add: acquire_def Let_def note_lock_def lock_simps)
  show "lr_mode r \<noteq> m \<Longrightarrow> \<not> lr_mode r < m \<Longrightarrow> \<exists>lm'. acquire m l (lm, txn) = Some (lm', abort_txn txn, Returned False) \<and>
      queue_at lm' l = queue_at lm l"
    using r by (simp add: acquire_def Let_def isUpdateCompatible_less lock_simps)
  show "lr_mode r \<noteq> m \<Longrightarrow> lq_upgrading (queue_at lm l) \<Longrightarrow> \<exists>lm'. acquire m l (lm, txn) = Some (lm', abort_txn txn, Returned False) \<and>
      queue_at lm' l = queue_at lm l"
    using r by (simp add: acquire_def Let_def lock_simps)
qed

lemma upgrade_request:
  assumes ok: "lm_ok lm" and m: "lockable (ld_type l) m" and g: "tx_state txn = GROWING" and nw: "lm_no_wait lm"
    and r: "request_of (tx_id txn) (queue_at lm l) = Some r" "lr_mode r < m" and up: "\<not> lq_upgrading (queue_at lm l)"
  shows "\<exists>lm' txn'. acquire m l (lm, txn) = Some (lm', txn', Returned (others_allow m (tx_id txn) (queue_at lm l))) \<and>
    (if others_allow m (tx_id txn) (queue_at lm l) then tx_state txn' = GROWING \<and> holds txn' m l
     else txn' = abort_txn txn \<and> queue_at lm' l = set_upgrade (lr_addr r) m (queue_at lm l) \<and>
       lm_no_wait lm')"
proof -
  let ?i = "tx_id txn" and ?q = "queue_at lm l"
  define lm2 where "lm2 = set_queue l (set_upgrade (lr_addr r) m ?q) (set_queue l ?q lm)"
  note q = lm_ok_queue [OF ok, of l]
  have rq: "r \<in> set (lq_requests ?q)" "lr_txn r = ?i" using r(1) by (auto simp: find_Some_iff)
  have ok2: "lm_ok lm2" unfolding lm2_def set_queue_same
    using set_upgrade_ok [OF q] by (intro lm_ok_set [OF ok]) simp
  have at2: "queue_at lm2 l = set_upgrade (lr_addr r) m ?q" "lm_no_wait lm2" using nw by (simp_all add: lm2_def lock_simps)
  have "r\<lparr>lr_mode := m, lr_granted := False\<rparr> \<in> set (lq_requests (queue_at lm2 l))"
    using rq(1) unfolding at2 set_fields by (auto intro!: image_eqI [where x = r])
  then have own: "own_request lm2 ?i m l (lr_addr r)"
    using m rq(2) unfolding own_request_mem [OF ok2] by (intro conjI bexI [of _ "r\<lparr>lr_mode := m, lr_granted := False\<rparr>"]) auto
  have "acquire m l (lm, txn) = lock_wake m l WaitUpgrade (lr_addr r) (lm2, txn)"
    using r up by (auto simp: acquire_def Let_def lm2_def isUpdateCompatible_less)
  moreover have "others_allow m ?i (set_upgrade (lr_addr r) m ?q) \<longleftrightarrow> others_allow m ?i ?q"
  proof -
    have "foreign ?i (set_upgrade (lr_addr r) m ?q) = foreign ?i ?q" by (rule foreign_set_granted(2) [OF q rq])
    moreover have "others_allow m ?i p \<longleftrightarrow> (\<forall>r \<in> set (foreign ?i p). lr_granted r \<longrightarrow> isLockCompatible (lr_mode r) m)" for p
      by (auto simp: others_allow_def foreign_def list_all_iff)
    ultimately show ?thesis by simp
  qed
  ultimately show ?thesis
    using wake_decides [OF ok2 own at2(2) g, of WaitUpgrade] at2 by (auto split: if_splits)
qed

section \<open>A scheduler\<close>

text \<open>The step relation as a function of the scheduled actions, to run it on examples.\<close>

datatype lock_action =
    ABegin txn_id
  | ALock txn_id lock_call
  | AWake txn_id
  | AUnlock txn_id unlock_call

fun act :: "lock_sys \<Rightarrow> lock_action \<Rightarrow> (lock_event \<times> lock_sys) option" where
  "act s (ABegin i) =
     (if ls_txns s i = None
      then Some (Began i, s\<lparr>ls_txns := (ls_txns s)(i \<mapsto> transaction_new i SERIALIZABLE)\<rparr>) else None)"
| "act s (ALock i c) =
     (if ls_wait s i = None then do {
        txn \<leftarrow> ls_txns s i;
        (lm', txn', out) \<leftarrow> run_lock c (ls_lm s, txn);
        Some (outcome_event i c out, s\<lparr>ls_lm := lm', ls_txns := (ls_txns s)(i \<mapsto> txn'),
          ls_wait := (ls_wait s)(i := outcome_wait c out)\<rparr>) } else None)"
| "act s (AWake i) = do {
     (c, w, a) \<leftarrow> ls_wait s i;
     txn \<leftarrow> ls_txns s i;
     (lm', txn', out) \<leftarrow> lock_wake (call_mode c) (call_data c) w a (ls_lm s, txn);
     Some (outcome_event i c out, s\<lparr>ls_lm := lm', ls_txns := (ls_txns s)(i \<mapsto> txn'),
       ls_wait := (ls_wait s)(i := outcome_wait c out)\<rparr>) }"
| "act s (AUnlock i u) =
     (if ls_wait s i = None then do {
        txn \<leftarrow> ls_txns s i;
        let (lm', txn', b) = run_unlock u (ls_lm s, txn);
        Some (Unlocked i (unlock_data u), s\<lparr>ls_lm := lm', ls_txns := (ls_txns s)(i \<mapsto> txn')\<rparr>) } else None)"

fun schedule :: "lock_sys \<Rightarrow> lock_action list \<Rightarrow> (lock_event list \<times> lock_sys) option" where
  "schedule s [] = Some ([], s)"
| "schedule s (x # xs) = do {
     (e, t) \<leftarrow> act s x;
     (es, u) \<leftarrow> schedule t xs;
     Some (e # es, u) }"

lemma act_step: "act s x = Some (e, t) \<Longrightarrow> sys_step s e t"
  by (cases x) (auto split: if_splits Option.bind_splits prod.splits intro: sys_step.intros)

lemma run_append: "sys_run t es u \<Longrightarrow> sys_run s ds t \<Longrightarrow> sys_run s (ds @ es) u"
  by (induction rule: sys_run.induct) (auto simp: append_assoc [symmetric] simp del: append_assoc intro: sys_run.intros)

lemma schedule_run: "schedule s xs = Some (es, t) \<Longrightarrow> sys_run s es t"
proof (induction xs arbitrary: s es)
  case (Cons x xs)
  then obtain e t1 es1 where 1: "act s x = Some (e, t1)" "schedule t1 xs = Some (es1, t)" "es = e # es1"
    by (auto split: Option.bind_splits)
  have "sys_run s ([] @ [e]) t1" by (rule run_snoc [OF run_nil act_step [OF 1(1)]])
  from run_append [OF Cons.IH [OF 1(2)] this] show ?case using 1(3) by simp
qed (auto intro: run_nil)

lemmas lock_eval = sys_init_def lock_table_def lock_partition_def lock_row_def acquire_def lock_wake_def
  lock_granted_def wait_ready_def checkQueueCompatible_def find_addr_def set_granted_def set_upgrade_def
  queue_at_def set_queue_def queue_new_def lock_manager_new_def transaction_new_def start_growing_def
  abort_txn_def note_lock_def add_lock_set_def get_lock_set_def table_id_of_def partition_id_of_def
  row_id_of_def isLockCompatible_def isUpdateCompatible_def unlock_def unlock_table_def unlock_partition_def
  unlock_row_def erase_lock_def holds_def Let_def

section \<open>Properties\<close>



text \<open>In the wait mode, an upgrade that has to wait gives up the lock that the transaction held, but leaves it in the lock
  set. Transactions 1 and 2 share a table; 1 asks for it exclusively and sleeps, 2 releases its lock, and now 3 gets the
  table exclusively while 1, still growing, has the shared lock in its lock set.\<close>

lemma sleeping_upgrade_keeps_lock:
  "\<exists>es s t u. schedule (sys_init False) [ABegin 1, ABegin 2, ABegin 3, ALock 1 (LockTable SHARED 7), ALock 2 (LockTable SHARED 7),
      ALock 1 (LockTable EXLUCSIVE 7), AUnlock 2 (UnLockTable 7), ALock 3 (LockTable EXLUCSIVE 7)] = Some (es, s) \<and>
    ls_txns s 1 = Some t \<and> tx_state t = GROWING \<and> holds t SHARED (table_id_of 7) \<and> asleep_on s 1 (table_id_of 7) \<and>
    ls_txns s 3 = Some u \<and> tx_state u = GROWING \<and> holds u EXLUCSIVE (table_id_of 7) \<and> \<not> isLockCompatible SHARED EXLUCSIVE"
  by (simp add: lock_eval asleep_on_def)

text \<open>C9. Two-phase locking. In every run, once a transaction has called an unlock operation, none of
  its later lock calls succeeds.\<close>

theorem two_phase_locking:
  assumes "sys_run (sys_init nw) (xs @ Unlocked i l # ys) s"
  shows "Locked i m l' \<notin> set ys"
  by (rule two_phase_run [OF assms sys_init_ok refl])

theorem two_phase_locking_witness:
  "\<exists>s. schedule (sys_init True) [ABegin 1, ALock 1 (LockTable SHARED 7), AUnlock 1 (UnLockTable 7),
      ALock 1 (LockTable SHARED 7)] =
      Some ([Began 1, Locked 1 SHARED (table_id_of 7)] @ Unlocked 1 (table_id_of 7) # [Refused 1], s) \<and>
    Locked 1 SHARED (table_id_of 7) \<notin> set [Refused 1]"
proof -
  have "\<exists>s. schedule (sys_init True) [ABegin 1, ALock 1 (LockTable SHARED 7), AUnlock 1 (UnLockTable 7),
      ALock 1 (LockTable SHARED 7)] =
      Some ([Began 1, Locked 1 SHARED (table_id_of 7)] @ Unlocked 1 (table_id_of 7) # [Refused 1], s)"
    by (simp add: lock_eval)
  then obtain s where s: "schedule (sys_init True) [ABegin 1, ALock 1 (LockTable SHARED 7), AUnlock 1 (UnLockTable 7),
      ALock 1 (LockTable SHARED 7)] =
      Some ([Began 1, Locked 1 SHARED (table_id_of 7)] @ Unlocked 1 (table_id_of 7) # [Refused 1], s)" by blast
  from two_phase_locking [OF schedule_run [OF s]] s show ?thesis by blast
qed

end
