(* ===== verification/RemotePlan.thy ===== *)
theory RemotePlan
  imports TxnStore LockSystem
begin

text \<open>
  The server side of remote plans: \<open>SendRemotePlan\<close> and \<open>ConvertIntoPlan\<close> of \<open>src/execution/execution_rpc.cpp\<close>, over
  the lock manager, the store, the log and the transactions of a node. A plan is the message of
  \<open>proto/distributed_plan_service.proto\<close>. An accessor of another kind than the one that the
  message has gives an empty message, and the first element of an empty list is undefined.

  The operators that \<open>ConvertIntoPlan\<close> makes (a scan, a projection, a join) are all dropped: it assigns them to its
  own copy of a pointer. What remains of a call is its way through the plan and the effect of the insertions, so
  these are modelled. A call can return, sleep for a lock (only in the mode that waits: what
  comes after the wake-up is not modelled), loop for ever, or be undefined.
\<close>

section \<open>Plans\<close>

datatype child_plan =
    ChildPlanNotSet
  | SeqScanPlan bytes bytes "32 word" "child_plan list"
  | FilterPlan "bytes list" "child_plan list"
  | ProjectPlan bytes "bytes list" "child_plan list"
  | InsertPlan bytes "32 word" "32 word" "child_plan list"
  | DeletePlan bytes bytes "32 word" "child_plan list"
  | UpdatePlan bytes bytes "32 word" "child_plan list"
  | NestedLoopJoinPlan "child_plan list"
  | ValuePlan "bytes list" "child_plan list"
  | TableGetPlan bytes bytes "32 word" bytes "child_plan list"
  | DistributedPlan "(bytes \<times> 32 word) list" "child_plan list"

datatype 'a plan_outcome = PReturns 'a | PSleeps | PLoops | PUndefined

fun and_then :: "'a plan_outcome \<Rightarrow> ('a \<Rightarrow> 'b plan_outcome) \<Rightarrow> 'b plan_outcome" where
  "and_then (PReturns a) f = f a"
| "and_then PSleeps f = PSleeps"
| "and_then PLoops f = PLoops"
| "and_then PUndefined f = PUndefined"

lemma and_then_cong [fundef_cong]:
  "x = y \<Longrightarrow> (\<And>a. y = PReturns a \<Longrightarrow> f a = g a) \<Longrightarrow> and_then x f = and_then y g"
  by (cases y) auto

lemma and_then_returns: "and_then x f = PReturns b \<longleftrightarrow> (\<exists>a. x = PReturns a \<and> f a = PReturns b)"
  by (cases x) auto

text \<open>The loop over the inputs of a join.\<close>

fun for_each :: "('p \<Rightarrow> 's \<Rightarrow> 's plan_outcome) \<Rightarrow> 'p list \<Rightarrow> 's \<Rightarrow> 's plan_outcome" where
  "for_each f [] s = PReturns s"
| "for_each f (p # ps) s = and_then (f p s) (for_each f ps)"

lemma for_each_cong [fundef_cong]:
  assumes "ps = qs" and "s = t" and "\<And>p u. p \<in> set qs \<Longrightarrow> f p u = g p u"
  shows "for_each f ps s = for_each g qs t"
proof -
  have "(\<And>p u. p \<in> set qs \<Longrightarrow> f p u = g p u) \<Longrightarrow> for_each f qs s = for_each g qs s" for s
    by (induction qs arbitrary: s) (auto intro!: and_then_cong)
  with assms show ?thesis by simp
qed

section \<open>Insertions\<close>

text \<open>The state of a node. The draws are the steps that the flush thread makes while an \<open>AppendLogRecord\<close> sleeps and
  the levels of new memtable nodes, one pair for each record that is written.\<close>

record plan_state =
  ps_locks :: lock_manager
  ps_store :: txn_store
  ps_draws :: "(nat \<times> nat) list"

definition ps_sys :: "plan_state \<Rightarrow> lock_sys" where
  "ps_sys s = \<lparr>ls_lm = ps_locks s, ls_txns = ts_txns (ps_store s), ls_wait = Map.empty\<rparr>"

definition set_txn :: "txn_id \<Rightarrow> transaction \<Rightarrow> txn_store \<Rightarrow> txn_store" where
  "set_txn i txn st = st\<lparr>ts_txns := (ts_txns st)(i \<mapsto> txn)\<rparr>"

definition next_draw :: "plan_state \<Rightarrow> nat \<times> nat" where
  "next_draw s = (case ps_draws s of [] \<Rightarrow> (0, 0) | d # _ \<Rightarrow> d)"

text \<open>\<open>lock_manager->LockTable(...);\<close> and the like: the answer is not looked at.\<close>

definition lock_unchecked :: "lock_call \<Rightarrow> txn_id \<Rightarrow> plan_state \<Rightarrow> plan_state plan_outcome" where
  "lock_unchecked c i s = (case ts_txns (ps_store s) i of
     None \<Rightarrow> PUndefined
   | Some txn \<Rightarrow> (case run_lock c (ps_locks s, txn) of
       None \<Rightarrow> PUndefined
     | Some (lm, txn', Returned _) \<Rightarrow> PReturns (s\<lparr>ps_locks := lm, ps_store := set_txn i txn' (ps_store s)\<rparr>)
     | Some (_, _, Blocked _ _) \<Rightarrow> PSleeps))"

text \<open>\<open>getKVstore()->put(key, value, txn)\<close>\<close>

definition plan_put :: "(bytes \<Rightarrow> bytes) \<Rightarrow> txn_id \<Rightarrow> bytes \<Rightarrow> bytes \<Rightarrow> plan_state \<Rightarrow> plan_state plan_outcome" where
  "plan_put snap i k v s = (case ts_txns (ps_store s) i of
     None \<Rightarrow> PUndefined
   | Some txn \<Rightarrow>
       (case kvt_put snap (fst (next_draw s)) (snd (next_draw s)) True k v (ts_kv (ps_store s), ts_log (ps_store s), txn) of
          None \<Rightarrow> PUndefined
        | Some (kv, log, txn') \<Rightarrow>
            PReturns (s\<lparr>ps_store := \<lparr>ts_kv = kv, ts_log = log, ts_txns = (ts_txns (ps_store s))(i \<mapsto> txn')\<rparr>,
              ps_draws := tl (ps_draws s)\<rparr>)))"

definition insert_tuple :: "(bytes \<Rightarrow> bytes) \<Rightarrow> txn_id \<Rightarrow> 32 word \<Rightarrow> 32 word \<Rightarrow> bytes \<Rightarrow> bytes \<Rightarrow> plan_state \<Rightarrow> plan_state plan_outcome" where
  "insert_tuple snap i tab par k v s =
     and_then (lock_unchecked (LockTable INTENTION_EXCLUSIVE tab) i s)
       (\<lambda>s. and_then (lock_unchecked (LockPartition EXLUCSIVE tab par) i s) (plan_put snap i k v))"

text \<open>The \<open>while\<close> loop over the plan; a join ends it. A branch that does not move on in the plan is
  taken again and again.\<close>

fun convert_into_plan :: "(bytes \<Rightarrow> bytes) \<Rightarrow> txn_id \<Rightarrow> child_plan \<Rightarrow> plan_state \<Rightarrow> plan_state plan_outcome" where
  "convert_into_plan snap i ChildPlanNotSet s = PReturns s"
| "convert_into_plan snap i (SeqScanPlan _ _ _ _) s = PUndefined"
| "convert_into_plan snap i (ProjectPlan _ _ kids) s =
     (case kids of [] \<Rightarrow> PUndefined | kid # _ \<Rightarrow> convert_into_plan snap i kid s)"
| "convert_into_plan snap i (InsertPlan _ tab par kids) s = (case kids of
     ValuePlan (k # v # _) nexts # _ \<Rightarrow> and_then (insert_tuple snap i tab par k v s)
       (\<lambda>s. case nexts of [] \<Rightarrow> PUndefined | nxt # _ \<Rightarrow> convert_into_plan snap i nxt s)
   | _ \<Rightarrow> PUndefined)"
| "convert_into_plan snap i (NestedLoopJoinPlan kids) s = for_each (convert_into_plan snap i) kids s"
| "convert_into_plan snap i _ s = PLoops"

text \<open>The handler. The answer to the client stays empty.\<close>

definition send_remote_plan :: "(bytes \<Rightarrow> bytes) \<Rightarrow> bool \<Rightarrow> txn_id \<Rightarrow> child_plan \<Rightarrow> plan_state \<Rightarrow> plan_state plan_outcome" where
  "send_remote_plan snap ndebug i p s = (let st = ps_store s in
     case ts_txns st i of
       Some _ \<Rightarrow> convert_into_plan snap i p s
     | None \<Rightarrow> (case tm_begin ndebug (fst (next_draw s)) i SERIALIZABLE None (ts_log st, ts_txns st) of
         None \<Rightarrow> PUndefined
       | Some (log, txns, _) \<Rightarrow>
           convert_into_plan snap i p (s\<lparr>ps_store := st\<lparr>ts_log := log, ts_txns := txns\<rparr>, ps_draws := tl (ps_draws s)\<rparr>)))"

section \<open>Plans that return\<close>

text \<open>The pairs that a plan writes, if its way through the plan comes to an end.\<close>

fun plan_writes :: "child_plan \<Rightarrow> (bytes \<times> bytes) list option" where
  "plan_writes ChildPlanNotSet = Some []"
| "plan_writes (ProjectPlan _ _ kids) = (case kids of [] \<Rightarrow> None | kid # _ \<Rightarrow> plan_writes kid)"
| "plan_writes (InsertPlan _ _ _ kids) = (case kids of
     ValuePlan (k # v # _) (nxt # _) # _ \<Rightarrow> map_option (Cons (k, v)) (plan_writes nxt)
   | _ \<Rightarrow> None)"
| "plan_writes (NestedLoopJoinPlan kids) =
     (if list_all (\<lambda>p. plan_writes p \<noteq> None) kids then Some (concat (map (\<lambda>p. the (plan_writes p)) kids)) else None)"
| "plan_writes _ = None"

lemma for_each_returns: "for_each f ps s = PReturns s' \<Longrightarrow> p \<in> set ps \<Longrightarrow> \<exists>t t'. f p t = PReturns t'"
  by (induction ps arbitrary: s) (auto simp: and_then_returns)

lemma converted_plan_writes: "convert_into_plan snap i p s = PReturns s' \<Longrightarrow> plan_writes p \<noteq> None"
proof (induction p arbitrary: s s' rule: plan_writes.induct)
  case (2 tab cols kids)
  then show ?case by (cases kids) auto
next
  case (3 db tab par kids)
  from 3(2) obtain k v rest nexts more where kids: "kids = ValuePlan (k # v # rest) nexts # more"
    by (auto split: list.splits child_plan.splits)
  with 3(2) obtain nxt others t where "nexts = nxt # others" "convert_into_plan snap i nxt t = PReturns s'"
    by (cases nexts) (auto simp: and_then_returns)
  with 3(1) kids show ?case by fastforce
next
  case (4 kids)
  have "plan_writes p \<noteq> None" if p: "p \<in> set kids" for p
  proof -
    obtain t t' where "convert_into_plan snap i p t = PReturns t'" using for_each_returns [OF _ p] 4(3) by fastforce
    with 4(1) p show ?thesis by blast
  qed
  then show ?case by (simp add: list_all_iff)
qed simp_all

section \<open>The invariant of a node\<close>

definition node_ok :: "(bytes \<Rightarrow> bytes) \<Rightarrow> lsn \<Rightarrow> plan_state \<Rightarrow> bool" where
  "node_ok snap n0 s \<longleftrightarrow> (\<exists>rs. txn_store_ok snap n0 rs (ps_store s)) \<and> log_alive (ts_log (ps_store s)) \<and>
     sys_ok (ps_sys s) \<and> lm_no_wait (ps_locks s)"

lemma add_lock_set_fields [simp]:
  "tx_prev_lsn (add_lock_set m l txn) = tx_prev_lsn txn" "tx_write_set (add_lock_set m l txn) = tx_write_set txn"
  by (simp_all add: add_lock_set_def)

lemma abort_txn_fields [simp]:
  "tx_prev_lsn (abort_txn txn) = tx_prev_lsn txn" "tx_write_set (abort_txn txn) = tx_write_set txn"
  by (simp_all add: abort_txn_def)

lemma start_growing_fields [simp]:
  "tx_prev_lsn (start_growing txn) = tx_prev_lsn txn" "tx_write_set (start_growing txn) = tx_write_set txn"
  by (simp_all add: start_growing_def)

text \<open>Lock calls leave the log and the write set of a transaction alone.\<close>

lemma lock_granted_fields:
  "lock_granted m l w a (lm, txn) = Some (lm', txn', out) \<Longrightarrow> tx_prev_lsn txn' = tx_prev_lsn txn"
  by (auto simp: lock_granted_def note_lock_def Let_def split: if_splits Option.bind_splits)

lemma lock_wake_fields:
  "lock_wake m l w a (lm, txn) = Some (lm', txn', out) \<Longrightarrow> tx_prev_lsn txn' = tx_prev_lsn txn"
  by (auto simp: lock_wake_def wait_ready_def split: if_splits Option.bind_splits dest!: lock_granted_fields)

lemma acquire_fields:
  "acquire m l (lm, txn) = Some (lm', txn', out) \<Longrightarrow> tx_prev_lsn txn' = tx_prev_lsn txn"
  by (auto simp: acquire_def Let_def note_lock_def split: option.splits if_splits Option.bind_splits dest!: lock_wake_fields)

lemma run_lock_fields:
  "run_lock c (lm, txn) = Some (lm', txn', out) \<Longrightarrow> tx_prev_lsn txn' = tx_prev_lsn txn"
  by (cases c) (auto simp: lock_table_def lock_partition_def lock_row_def Let_def split: if_splits dest!: acquire_fields)

lemma txn_store_ok_txn:
  assumes "txn_store_ok snap n0 rs st" and "ts_txns st i = Some txn" and "tx_id txn' = i" and "tx_prev_lsn txn' = tx_prev_lsn txn"
  shows "txn_store_ok snap n0 rs (set_txn i txn' st)"
  using assms by (auto simp: txn_store_ok_def set_txn_def)

lemma txn_ok_log_fields [simp]:
  "txn_ok lm i (txn\<lparr>tx_prev_lsn := n, tx_write_set := ws\<rparr>) wt = txn_ok lm i txn wt"
  by (simp add: txn_ok_def agrees_def holds_def get_lock_set_def own_request_def split: option.split)

lemma lock_unchecked_ok:
  assumes ok: "node_ok snap n0 s" and i: "ts_txns (ps_store s) i = Some txn"
  shows "\<exists>lm' txn'. (\<forall>ds. lock_unchecked c i (s\<lparr>ps_draws := ds\<rparr>) =
      PReturns (s\<lparr>ps_locks := lm', ps_store := set_txn i txn' (ps_store s), ps_draws := ds\<rparr>)) \<and>
    node_ok snap n0 (s\<lparr>ps_locks := lm', ps_store := set_txn i txn' (ps_store s)\<rparr>)"
proof -
  obtain rs where st: "txn_store_ok snap n0 rs (ps_store s)" using ok by (auto simp: node_ok_def)
  have sys: "sys_ok (ps_sys s)" and nw: "lm_no_wait (ps_locks s)" using ok by (simp_all add: node_ok_def)
  have "lm_ok (ps_locks s)" "txn_ok (ps_locks s) i txn None"
    using sys i by (auto simp: sys_ok_def ps_sys_def)
  from run_lock_result [OF this, of c] nw obtain lm' txn' out where "run_lock c (ps_locks s, txn) = Some (lm', txn', out)"
      "txn_ok lm' i txn' (outcome_wait c out)" "lm_no_wait lm'" "\<forall>w a. out \<noteq> Blocked w a"
    unfolding step_result_def by auto
  then obtain b where r: "run_lock c (ps_locks s, txn) = Some (lm', txn', Returned b)" "tx_id txn' = i" "lm_no_wait lm'"
    by (cases out) (auto simp: txn_ok_def)
  have "sys_step (ps_sys s) (outcome_event i c (Returned b)) ((ps_sys s)\<lparr>ls_lm := lm', ls_txns := (ls_txns (ps_sys s))(i \<mapsto> txn'),
      ls_wait := (ls_wait (ps_sys s))(i := outcome_wait c (Returned b))\<rparr>)"
    by (rule lock_call [where txn = txn]) (simp_all add: ps_sys_def i r(1))
  from sys_step_facts [OF this sys]
  have "sys_ok (ps_sys (s\<lparr>ps_locks := lm', ps_store := set_txn i txn' (ps_store s)\<rparr>))" by (simp add: ps_sys_def set_txn_def)
  moreover have "txn_store_ok snap n0 rs (set_txn i txn' (ps_store s))"
    by (rule txn_store_ok_txn [OF st i r(2) run_lock_fields [OF r(1)]])
  ultimately have "node_ok snap n0 (s\<lparr>ps_locks := lm', ps_store := set_txn i txn' (ps_store s)\<rparr>)"
    using ok r(3) by (auto simp: node_ok_def set_txn_def)
  moreover have "lock_unchecked c i (s\<lparr>ps_draws := ds\<rparr>) =
      PReturns (s\<lparr>ps_locks := lm', ps_store := set_txn i txn' (ps_store s), ps_draws := ds\<rparr>)" for ds
    by (simp add: lock_unchecked_def i r(1))
  ultimately show ?thesis by blast
qed

lemma kvt_put_txn:
  "kvt_put snap j ones w k v (s, log, txn) = Some (s', log', txn') \<Longrightarrow> \<exists>n ws. txn' = txn\<lparr>tx_prev_lsn := n, tx_write_set := ws\<rparr>"
  by (cases txn) (auto simp: kvt_put_def enable_logging_def log_for_def write_record_insert_def push_write_def split: Option.bind_splits if_splits)

lemma plan_put_ok:
  assumes snap: "snappy_ok snap unsnap" and ok: "node_ok snap n0 s" and i: "ts_txns (ps_store s) i = Some txn"
    and a: "kv_rep snap (ts_kv (ps_store s)) a" and size: "32 + length k + length v < log_buffer_size" and fits: "kv_fits a (KPut k v)"
  shows "\<exists>d st. (\<forall>ds. plan_put snap i k v (s\<lparr>ps_draws := d # ds\<rparr>) = PReturns (s\<lparr>ps_store := st, ps_draws := ds\<rparr>)) \<and>
    node_ok snap n0 (s\<lparr>ps_store := st\<rparr>) \<and> ts_txns st i \<noteq> None \<and> kv_rep snap (ts_kv st) (kv_abs a (KPut k v))"
proof -
  let ?st = "ps_store s"
  obtain rs where st: "txn_store_ok snap n0 rs ?st" using ok by (auto simp: node_ok_def)
  have alive: "log_alive (ts_log ?st)" using ok by (simp add: node_ok_def)
  note fits' = kv_rep_fits [OF a fits]
  obtain j kv' log' txn' where put: "kvt_put snap j 0 True k v (ts_kv ?st, ts_log ?st, txn) = Some (kv', log', txn')"
    using put_returns [OF snap st alive i size fits', of 0 True] by blast
  let ?st' = "\<lparr>ts_kv = kv', ts_log = log', ts_txns = (ts_txns ?st)(i \<mapsto> txn')\<rparr>"
  have put': "kv_put snap 0 (ts_kv ?st) k v = Some kv'" using kvt_put_fields [OF put] by blast
  have rep: "kv_rep snap kv' (kv_abs a (KPut k v))"
    using kv_put_rep [OF snap, of "ts_kv ?st" "fst a" "snd a" k v 0] a fits put' by auto
  have size': "32 + length k + length v < 2 ^ 31" using size by (simp add: log_buffer_size_def)
  have "\<exists>rs'. txn_store_ok snap n0 rs' ?st'" by (rule txn_store_ok_put [OF snap st i put size' fits'])
  moreover have "log_alive log'" using kvt_put_fields [OF put] alive log_for_alive by blast
  moreover have "sys_ok (ps_sys (s\<lparr>ps_store := ?st'\<rparr>))"
  proof -
    obtain n ws where t: "txn' = txn\<lparr>tx_prev_lsn := n, tx_write_set := ws\<rparr>" using kvt_put_txn [OF put] by blast
    have sys: "sys_ok (ps_sys s)" using ok by (simp add: node_ok_def)
    then have "txn_ok (ps_locks s) i txn None" using i by (auto simp: sys_ok_def ps_sys_def)
    with sys_ok_update [OF sys, of "ps_locks s" i txn' None] sys i t show ?thesis
      by (simp add: ps_sys_def sys_ok_def)
  qed
  ultimately have "node_ok snap n0 (s\<lparr>ps_store := ?st'\<rparr>)" using ok by (simp add: node_ok_def)
  moreover have "plan_put snap i k v (s\<lparr>ps_draws := (j, 0) # ds\<rparr>) = PReturns (s\<lparr>ps_store := ?st', ps_draws := ds\<rparr>)" for ds
    by (simp add: plan_put_def next_draw_def i put)
  ultimately show ?thesis using rep by (intro exI [of _ "(j, 0)"] exI [of _ ?st']) simp
qed

section \<open>Runs with enough draws\<close>

definition runs :: "(plan_state \<Rightarrow> plan_state plan_outcome) \<Rightarrow> (nat \<times> nat) list \<Rightarrow> plan_state \<Rightarrow> plan_state \<Rightarrow> bool" where
  "runs f ds s s' \<longleftrightarrow> (\<forall>rest. f (s\<lparr>ps_draws := ds @ rest\<rparr>) = PReturns (s'\<lparr>ps_draws := rest\<rparr>))"

lemma runs_then: "runs f ds s t \<Longrightarrow> runs g es t u \<Longrightarrow> runs (\<lambda>s. and_then (f s) g) (ds @ es) s u"
  by (simp add: runs_def)

text \<open>A good node for transaction \<open>i\<close>, whose store has the contents \<open>a\<close>.\<close>

definition serves :: "(bytes \<Rightarrow> bytes) \<Rightarrow> lsn \<Rightarrow> txn_id \<Rightarrow> kv_abst \<Rightarrow> plan_state \<Rightarrow> bool" where
  "serves snap n0 i a s \<longleftrightarrow> node_ok snap n0 s \<and> ts_txns (ps_store s) i \<noteq> None \<and> kv_rep snap (ts_kv (ps_store s)) a"

lemma lock_runs:
  assumes "serves snap n0 i a s"
  shows "\<exists>s'. runs (lock_unchecked c i) [] s s' \<and> serves snap n0 i a s'"
proof -
  obtain txn where i: "ts_txns (ps_store s) i = Some txn" using assms by (auto simp: serves_def)
  from lock_unchecked_ok [OF _ this, of snap n0 c] assms obtain lm' txn' where
    r: "\<forall>ds. lock_unchecked c i (s\<lparr>ps_draws := ds\<rparr>) = PReturns (s\<lparr>ps_locks := lm', ps_store := set_txn i txn' (ps_store s), ps_draws := ds\<rparr>)"
    and ok: "node_ok snap n0 (s\<lparr>ps_locks := lm', ps_store := set_txn i txn' (ps_store s)\<rparr>)" by (auto simp: serves_def)
  let ?s = "s\<lparr>ps_locks := lm', ps_store := set_txn i txn' (ps_store s)\<rparr>"
  have "runs (lock_unchecked c i) [] s ?s" using r by (simp add: runs_def)
  moreover have "serves snap n0 i a ?s" using assms ok by (simp add: serves_def set_txn_def)
  ultimately show ?thesis by blast
qed

lemma put_runs:
  assumes snap: "snappy_ok snap unsnap" and s: "serves snap n0 i a s"
    and size: "32 + length k + length v < log_buffer_size" and fits: "kv_fits a (KPut k v)"
  shows "\<exists>ds s'. runs (plan_put snap i k v) ds s s' \<and> serves snap n0 i (kv_abs a (KPut k v)) s'"
proof -
  obtain txn where i: "ts_txns (ps_store s) i = Some txn" using s by (auto simp: serves_def)
  from plan_put_ok [OF snap _ i _ size fits, of n0] s obtain d st where
    r: "\<forall>ds. plan_put snap i k v (s\<lparr>ps_draws := d # ds\<rparr>) = PReturns (s\<lparr>ps_store := st, ps_draws := ds\<rparr>)"
    and ok: "node_ok snap n0 (s\<lparr>ps_store := st\<rparr>)" "ts_txns st i \<noteq> None" "kv_rep snap (ts_kv st) (kv_abs a (KPut k v))"
    by (auto simp: serves_def)
  have "runs (plan_put snap i k v) [d] s (s\<lparr>ps_store := st\<rparr>)" using r by (simp add: runs_def)
  with ok show ?thesis by (intro exI [of _ "[d]"] exI [of _ "s\<lparr>ps_store := st\<rparr>"]) (simp add: serves_def)
qed

lemma insert_runs:
  assumes "snappy_ok snap unsnap" and "serves snap n0 i a s"
    and "32 + length k + length v < log_buffer_size" and "kv_fits a (KPut k v)"
  shows "\<exists>ds s'. runs (insert_tuple snap i tab par k v) ds s s' \<and> serves snap n0 i (kv_abs a (KPut k v)) s'"
proof -
  obtain t where t: "runs (lock_unchecked (LockTable INTENTION_EXCLUSIVE tab) i) [] s t" "serves snap n0 i a t"
    using lock_runs [OF assms(2)] by blast
  obtain u where u: "runs (lock_unchecked (LockPartition EXLUCSIVE tab par) i) [] t u" "serves snap n0 i a u"
    using lock_runs [OF t(2)] by blast
  obtain ds s' where s': "runs (plan_put snap i k v) ds u s'" "serves snap n0 i (kv_abs a (KPut k v)) s'"
    using put_runs [OF assms(1) u(2) assms(3,4)] by blast
  from runs_then [OF t(1) runs_then [OF u(1) s'(1)]]
  have "runs (insert_tuple snap i tab par k v) ds s s'" unfolding insert_tuple_def by simp
  with s'(2) show ?thesis by blast
qed

section \<open>Properties\<close>

abbreviation put_ops :: "(bytes \<times> bytes) list \<Rightarrow> kv_op list" where
  "put_ops ws \<equiv> map (\<lambda>(k, v). KPut k v) ws"

text \<open>Every record fits into the log buffer, and the sizes stay below the width of the counters.\<close>

definition writable :: "kv_abst \<Rightarrow> (bytes \<times> bytes) list \<Rightarrow> bool" where
  "writable a ws \<longleftrightarrow> all_fit a (put_ops ws) \<and> list_all (\<lambda>(k, v). 32 + length k + length v < log_buffer_size) ws"

lemma writable_append: "writable a (xs @ ys) \<longleftrightarrow> writable a xs \<and> writable (foldl kv_abs a (put_ops xs)) ys"
  by (auto simp: writable_def all_fit_append)

lemma plans_run:
  assumes "\<And>p a s. p \<in> set ps \<Longrightarrow> serves snap n0 i a s \<Longrightarrow> writable a (f p) \<Longrightarrow>
      \<exists>ds s'. runs (g p) ds s s' \<and> serves snap n0 i (foldl kv_abs a (put_ops (f p))) s'"
    and "serves snap n0 i a s" and "writable a (concat (map f ps))"
  shows "\<exists>ds s'. runs (for_each g ps) ds s s' \<and> serves snap n0 i (foldl kv_abs a (put_ops (concat (map f ps)))) s'"
  using assms
proof (induction ps arbitrary: a s)
  case Nil
  have "runs (for_each g []) [] s s" by (simp add: runs_def)
  with Nil.prems(2) show ?case by (intro exI [of _ "[]"] exI [of _ s]) (simp add: runs_def)
next
  case (Cons p ps)
  have w: "writable a (f p)" "writable (foldl kv_abs a (put_ops (f p))) (concat (map f ps))"
    using Cons.prems(3) by (simp_all add: writable_append)
  obtain ds t where t: "runs (g p) ds s t" "serves snap n0 i (foldl kv_abs a (put_ops (f p))) t"
    using Cons.prems(1) [OF _ Cons.prems(2) w(1)] by auto
  obtain es u where u: "runs (for_each g ps) es t u" "serves snap n0 i (foldl kv_abs (foldl kv_abs a (put_ops (f p))) (put_ops (concat (map f ps)))) u"
    using Cons.IH [OF _ t(2) w(2)] Cons.prems(1) by auto
  have "runs (for_each g (p # ps)) (ds @ es) s u" using runs_then [OF t(1) u(1)] by (simp add: runs_def)
  with u(2) show ?case by (intro exI [of _ "ds @ es"] exI [of _ u]) (simp add: runs_def)
qed

lemma plan_runs:
  assumes snap: "snappy_ok snap unsnap"
  shows "plan_writes p = Some ws \<Longrightarrow> serves snap n0 i a s \<Longrightarrow> writable a ws \<Longrightarrow>
    \<exists>ds s'. runs (convert_into_plan snap i p) ds s s' \<and> serves snap n0 i (foldl kv_abs a (put_ops ws)) s'"
proof (induction p arbitrary: ws a s rule: plan_writes.induct)
  case 1
  have "runs (convert_into_plan snap i ChildPlanNotSet) [] s s" by (simp add: runs_def)
  with 1 show ?case by (intro exI [of _ "[]"] exI [of _ s]) (simp add: runs_def)
next
  case (2 tab cols kids)
  from 2(2) obtain kid more where kids: "kids = kid # more" and w: "plan_writes kid = Some ws" by (cases kids) auto
  from 2(1) [OF kids w 2(3,4)] show ?case by (simp add: kids runs_def)
next
  case (3 db tab par kids)
  from 3(2) obtain k v rest nxt others more where kids: "kids = ValuePlan (k # v # rest) (nxt # others) # more"
    by (auto split: list.splits child_plan.splits)
  with 3(2) obtain ws' where ws: "plan_writes nxt = Some ws'" "ws = (k, v) # ws'" by auto
  have w: "kv_fits a (KPut k v)" "32 + length k + length v < log_buffer_size" "writable (kv_abs a (KPut k v)) ws'"
    using 3(4) by (simp_all add: ws writable_def)
  obtain ds t where t: "runs (insert_tuple snap i tab par k v) ds s t" "serves snap n0 i (kv_abs a (KPut k v)) t"
    using insert_runs [OF snap 3(3) w(2,1)] by blast
  obtain es u where u: "runs (convert_into_plan snap i nxt) es t u" "serves snap n0 i (foldl kv_abs (kv_abs a (KPut k v)) (put_ops ws')) u"
    using 3(1) [of "ValuePlan (k # v # rest) (nxt # others)" more "k # v # rest" "nxt # others" k "v # rest" v rest nxt others, OF _ _ _ _ _ ws(1) t(2) w(3)]
    kids by auto
  from runs_then [OF t(1) u(1)] u(2) show ?case by (intro exI [of _ "ds @ es"] exI [of _ u]) (simp add: kids runs_def ws)
next
  case (4 kids)
  let ?f = "\<lambda>p. the (plan_writes p)"
  from 4(3) have all: "list_all (\<lambda>p. plan_writes p \<noteq> None) kids" and ws: "ws = concat (map ?f kids)"
    by (auto split: if_splits)
  have "\<exists>ds s'. runs (convert_into_plan snap i p) ds s s' \<and> serves snap n0 i (foldl kv_abs a (put_ops (?f p))) s'"
    if "p \<in> set kids" "serves snap n0 i a s" "writable a (?f p)" for p a s
  proof -
    have "plan_writes p = Some (?f p)" using all that(1) by (auto simp: list_all_iff)
    from 4(1) [OF that(1) this that(2,3)] show ?thesis .
  qed
  from plans_run [OF this 4(4), of kids] 4(5) show ?case by (simp add: ws runs_def)
qed simp_all

lemma begin_serves:
  assumes ok: "node_ok snap n0 s" and i: "ts_txns (ps_store s) i = None" and a: "kv_rep snap (ts_kv (ps_store s)) a"
  shows "\<exists>j log txns txn. tm_begin ndebug j i SERIALIZABLE None (ts_log (ps_store s), ts_txns (ps_store s)) = Some (log, txns, txn) \<and>
    serves snap n0 i a (s\<lparr>ps_store := (ps_store s)\<lparr>ts_log := log, ts_txns := txns\<rparr>\<rparr>)"
proof -
  let ?st = "ps_store s" and ?new = "transaction_new i SERIALIZABLE"
  obtain rs where st: "txn_store_ok snap n0 rs ?st" and alive: "log_alive (ts_log ?st)" using ok by (auto simp: node_ok_def)
  let ?t = "?new\<lparr>tx_prev_lsn := n0 + of_nat (length rs)\<rparr>"
  obtain j log where b: "tm_begin ndebug j i SERIALIZABLE None (ts_log ?st, ts_txns ?st) = Some (log, (ts_txns ?st)(i \<mapsto> ?t), ?t)"
    using begin_returns [OF st alive] by blast
  let ?s = "s\<lparr>ps_store := ?st\<lparr>ts_log := log, ts_txns := (ts_txns ?st)(i \<mapsto> ?t)\<rparr>\<rparr>"
  have "\<exists>rs'. txn_store_ok snap n0 rs' (ps_store ?s)" using txn_store_ok_begin [OF st i b] by simp
  moreover have "log_alive log" using tm_begin_log [OF b] alive append_call_alive by blast
  moreover have "sys_ok (ps_sys ?s)"
  proof -
    have sys: "sys_ok (ps_sys s)" using ok by (simp add: node_ok_def)
    have "sys_step (ps_sys s) (Began i) ((ps_sys s)\<lparr>ls_txns := (ls_txns (ps_sys s))(i \<mapsto> ?new)\<rparr>)"
      by (rule begin_txn) (simp add: ps_sys_def i)
    then have new: "sys_ok ((ps_sys s)\<lparr>ls_txns := (ls_txns (ps_sys s))(i \<mapsto> ?new)\<rparr>)" using sys_step_facts sys by blast
    then have n: "txn_ok (ps_locks s) i ?new None" by (simp add: sys_ok_def ps_sys_def)
    have e: "?t = ?new\<lparr>tx_prev_lsn := n0 + of_nat (length rs), tx_write_set := []\<rparr>" by (simp add: transaction_new_def)
    have "txn_ok (ps_locks s) i ?t None" by (subst e) (simp only: txn_ok_log_fields n)
    with new show ?thesis unfolding sys_ok_def ps_sys_def by (auto split: if_splits)
  qed
  ultimately have "serves snap n0 i a ?s" using ok a by (simp add: serves_def node_ok_def)
  with b show ?thesis by blast
qed

text \<open>C25. In the mode that does not wait, the handler of a remote plan whose way comes to an end returns, and every
  pair of the plan has then been written, in order, whatever the lock manager answered and whatever
  the state of the transaction is: the answers of the two lock calls are dropped.\<close>

theorem remote_plan_writes:
  assumes "snappy_ok snap unsnap" and "node_ok snap n0 s" and "kv_rep snap (ts_kv (ps_store s)) a"
    and "plan_writes p = Some ws" and "writable a ws"
  shows "\<exists>ds s'. send_remote_plan snap ndebug i p (s\<lparr>ps_draws := ds\<rparr>) = PReturns s' \<and> node_ok snap n0 s' \<and>
    (\<forall>k. kv_get unsnap (ts_kv (ps_store s')) k =
      Some (visible (foldl kv_abs a (put_ops ws)) k \<noteq> [], visible (foldl kv_abs a (put_ops ws)) k))"
proof -
  have ends: ?thesis if c: "runs (convert_into_plan snap i p) ds t t'" "serves snap n0 i (foldl kv_abs a (put_ops ws)) t'"
    and h: "send_remote_plan snap ndebug i p (s\<lparr>ps_draws := es @ ds\<rparr>) = convert_into_plan snap i p (t\<lparr>ps_draws := ds\<rparr>)" for ds es t t'
  proof -
    have "send_remote_plan snap ndebug i p (s\<lparr>ps_draws := es @ ds\<rparr>) = PReturns (t'\<lparr>ps_draws := []\<rparr>)"
      using c(1) h by (simp add: runs_def) (metis append_Nil2)
    moreover have "node_ok snap n0 (t'\<lparr>ps_draws := []\<rparr>)" using c(2) by (simp add: serves_def node_ok_def ps_sys_def)
    ultimately show ?thesis using c(2) kv_get_rep [OF assms(1)] unfolding serves_def by fastforce
  qed
  show ?thesis
  proof (cases "ts_txns (ps_store s) i")
    case (Some txn)
    then have "serves snap n0 i a s" using assms(2,3) by (simp add: serves_def)
    from plan_runs [OF assms(1,4) this assms(5)] obtain ds s' where
      "runs (convert_into_plan snap i p) ds s s'" "serves snap n0 i (foldl kv_abs a (put_ops ws)) s'" by blast
    then show ?thesis by (rule ends [where es = "[]"]) (simp add: send_remote_plan_def Some)
  next
    case None
    from begin_serves [OF assms(2) None assms(3), of ndebug] obtain j log txns txn where
      b: "tm_begin ndebug j i SERIALIZABLE None (ts_log (ps_store s), ts_txns (ps_store s)) = Some (log, txns, txn)"
      and t: "serves snap n0 i a (s\<lparr>ps_store := (ps_store s)\<lparr>ts_log := log, ts_txns := txns\<rparr>\<rparr>)" by blast
    from plan_runs [OF assms(1,4) t assms(5)] obtain ds s' where
      "runs (convert_into_plan snap i p) ds (s\<lparr>ps_store := (ps_store s)\<lparr>ts_log := log, ts_txns := txns\<rparr>\<rparr>) s'"
      "serves snap n0 i (foldl kv_abs a (put_ops ws)) s'" by blast
    then show ?thesis
      by (rule ends [where es = "[(j, 0)]"]) (simp add: send_remote_plan_def None next_draw_def b)
  qed
qed

text \<open>A node where transaction 7 was aborted: both lock calls refuse it, and its pair is written.\<close>

definition demo_plan :: child_plan where
  "demo_plan = InsertPlan [] 1 2 [ValuePlan [[5], [1]] [ChildPlanNotSet]]"

lemma demo_node:
  obtains kv txn s where "kv_new empty_fs ''data'' = Some kv" "node_ok (\<lambda>x. x) 0 s" "kv_rep (\<lambda>x. x) (ts_kv (ps_store s)) ([], [])"
    "ts_txns (ps_store s) 7 = Some txn" "tx_state txn = ABORTED"
proof -
  obtain kv where kv: "kv_new empty_fs ''data'' = Some kv" "kv_rep (\<lambda>x. x) kv ([], [])"
    using kv_new_rep [OF fresh_empty [of "''data''"]] by auto
  let ?st = "txn_store_new kv 0" and ?t = "(transaction_new 7 SERIALIZABLE)\<lparr>tx_prev_lsn := 0\<rparr>"
  have ok0: "txn_store_ok (\<lambda>x. x) 0 [] ?st" by (rule txn_store_new_ok [OF fresh_empty kv(1)]) simp
  have alive: "log_alive (ts_log ?st)" by (simp add: log_alive_def txn_store_new_def set_next_lsn_def log_manager_new_def)
  obtain j log where b: "tm_begin True j 7 SERIALIZABLE None (ts_log ?st, ts_txns ?st) = Some (log, (ts_txns ?st)(7 \<mapsto> ?t), ?t)"
    using begin_returns [OF ok0 alive, of True 7 SERIALIZABLE] by auto
  let ?st1 = "?st\<lparr>ts_log := log, ts_txns := (ts_txns ?st)(7 \<mapsto> ?t)\<rparr>"
  obtain rs where ok1: "txn_store_ok (\<lambda>x. x) 0 rs ?st1"
    using txn_store_ok_begin [OF ok0 _ b] by (auto simp: txn_store_new_def)
  have "txn_store_ok (\<lambda>x. x) 0 rs (set_txn 7 (abort_txn ?t) ?st1)"
    by (rule txn_store_ok_txn [OF ok1, where txn = ?t]) (simp_all add: transaction_new_def abort_txn_def)
  moreover have "log_alive log" using tm_begin_log [OF b] alive append_call_alive by blast
  moreover have "queue_at (lock_manager_new True) l = queue_new" for l by (simp add: queue_at_def lock_manager_new_def)
  ultimately have "node_ok (\<lambda>x. x) 0 \<lparr>ps_locks = lock_manager_new True, ps_store = set_txn 7 (abort_txn ?t) ?st1, ps_draws = []\<rparr>"
    by (auto simp: node_ok_def ps_sys_def set_txn_def sys_ok_def lm_ok_new queue_new_def txn_ok_def agrees_def
        txn_store_new_def abort_txn_def transaction_new_def) (simp add: lock_manager_new_def)
  from that [OF kv(1) this] kv(2) show ?thesis by (simp add: set_txn_def txn_store_new_def abort_txn_def)
qed

theorem remote_plan_writes_witness:
  "\<exists>s txn s'. ts_txns (ps_store s) 7 = Some txn \<and> tx_state txn = ABORTED \<and>
    (\<exists>ds. send_remote_plan (\<lambda>x. x) True 7 demo_plan (s\<lparr>ps_draws := ds\<rparr>) = PReturns s') \<and>
    kv_get (\<lambda>x. x) (ts_kv (ps_store s')) [5] = Some (True, [1])"
proof -
  obtain kv txn s where s: "kv_new empty_fs ''data'' = Some kv" "node_ok (\<lambda>x. x) 0 s" "kv_rep (\<lambda>x. x) (ts_kv (ps_store s)) ([], [])"
    "ts_txns (ps_store s) 7 = Some txn" "tx_state txn = ABORTED" by (rule demo_node)
  have "plan_writes demo_plan = Some [([5], [1])]" by (simp add: demo_plan_def)
  moreover have "writable ([], []) [([5], [1])]" by (simp add: writable_def small_def log_buffer_size_def)
  ultimately obtain ds s' where "send_remote_plan (\<lambda>x. x) True 7 demo_plan (s\<lparr>ps_draws := ds\<rparr>) = PReturns s'"
      "kv_get (\<lambda>x. x) (ts_kv (ps_store s')) [5] = Some (True, [1])"
    using remote_plan_writes [OF snappy_id s(2,3), of demo_plan "[([5], [1])]" True 7]
    by (fastforce simp: visible_def sstable_space_def)
  with s(4,5) show ?thesis by blast
qed

end
