(* ===== verification/OldStore.thy ===== *)
theory OldStore
  imports TxnStore
begin

text \<open>
  The first version of the transactional store (\<open>include/storage/KVStore.h\<close>, \<open>src/storage/KVStore.cpp\<close>), which the build
  replaces by that of \<open>KVStore_new.h\<close>. It keeps no write set, and an empty value counts as a value for
  \<open>get\<close> and, on disk, for \<open>del\<close>. Its constructor is given no log manager and sets none, so the pointer to it
  is not initialised (\<open>None\<close>). As in \<open>KVStore_new.h\<close>, \<open>del\<close> of a key in the memtable logs from the characters of a string that
  no longer exists (\<open>None\<close>).
\<close>

record old_store =
  os_kv :: kv_store
  os_log :: "log_mgr option"

definition okv_new :: "filesys \<Rightarrow> path \<Rightarrow> old_store option" where
  "okv_new fs dir = do { kv \<leftarrow> kv_new fs dir; Some \<lparr>os_kv = kv, os_log = None\<rparr> }"

definition okv_log :: "nat \<Rightarrow> log_record \<Rightarrow> old_store \<times> transaction \<Rightarrow> (old_store \<times> transaction) option" where
  "okv_log j r st = (case st of (s, txn) \<Rightarrow> do {
     log \<leftarrow> os_log s;
     (log1, txn1) \<leftarrow> log_for j r (log, txn);
     Some (s\<lparr>os_log := Some log1\<rparr>, txn1) })"

definition okv_put :: "(bytes \<Rightarrow> bytes) \<Rightarrow> nat \<Rightarrow> nat \<Rightarrow> bytes \<Rightarrow> bytes \<Rightarrow> old_store \<times> transaction \<Rightarrow> (old_store \<times> transaction) option" where
  "okv_put snap j ones key val st = (case st of (s, txn) \<Rightarrow> do {
     (s1, txn1) \<leftarrow>
       (if enable_logging then okv_log j (record_of_kv (tx_id txn) (tx_prev_lsn txn) INSERT_REC key val) (s, txn) else Some (s, txn));
     m \<leftarrow> sl_put ones (kv_mem (os_kv s1)) key val;
     (if of_nat sstable_space < sl_space m
      then do {
        d \<leftarrow> ds_add snap (kv_disk (os_kv s1)) m;
        m' \<leftarrow> sl_clear m;
        Some (s1\<lparr>os_kv := \<lparr>kv_mem = m', kv_disk = d\<rparr>\<rparr>, txn1) }
      else Some (s1\<lparr>os_kv := (os_kv s1)\<lparr>kv_mem := m\<rparr>\<rparr>, txn1)) })"

definition okv_get :: "(bytes \<Rightarrow> bytes) \<Rightarrow> old_store \<Rightarrow> bytes \<Rightarrow> (bool \<times> bytes) option" where
  "okv_get unsnap s key = do {
     has \<leftarrow> sl_contains (kv_mem (os_kv s)) key;
     (if has then sl_get (kv_mem (os_kv s)) key else ds_search unsnap (kv_disk (os_kv s)) key) }"

definition okv_del :: "(bytes \<Rightarrow> bytes) \<Rightarrow> nat \<Rightarrow> nat \<Rightarrow> bytes \<Rightarrow> old_store \<times> transaction \<Rightarrow> (bool \<times> old_store \<times> transaction) option" where
  "okv_del unsnap j ones key st = (case st of (s, txn) \<Rightarrow> do {
     has \<leftarrow> sl_contains (kv_mem (os_kv s)) key;
     (if has then do {
        (s1, txn1) \<leftarrow> (if enable_logging then None else Some (s, txn));
        (b, m) \<leftarrow> sl_del (kv_mem (os_kv s1)) key;
        Some (True, s1\<lparr>os_kv := (os_kv s1)\<lparr>kv_mem := m\<rparr>\<rparr>, txn1) }
      else do {
        result \<leftarrow> ds_search unsnap (kv_disk (os_kv s)) key;
        (if fst result then do {
           (s1, txn1) \<leftarrow> (if enable_logging
             then okv_log j (record_of_kv (tx_id txn) (tx_prev_lsn txn) DELETE_REC key (snd result)) (s, txn) else Some (s, txn));
           m \<leftarrow> sl_put ones (kv_mem (os_kv s1)) key [];
           Some (True, s1\<lparr>os_kv := (os_kv s1)\<lparr>kv_mem := m\<rparr>\<rparr>, txn1) }
         else Some (False, s, txn)) }) })"

definition okv_reset :: "old_store \<Rightarrow> old_store option" where
  "okv_reset s = do { m \<leftarrow> sl_clear (kv_mem (os_kv s)); Some (s\<lparr>os_kv := (os_kv s)\<lparr>kv_mem := m\<rparr>\<rparr>) }"

definition okv_flush :: "(bytes \<Rightarrow> bytes) \<Rightarrow> old_store \<Rightarrow> old_store option" where
  "okv_flush snap s =
     (if \<not> sl_empty (kv_mem (os_kv s)) then do {
        d \<leftarrow> ds_add snap (kv_disk (os_kv s)) (kv_mem (os_kv s));
        Some (s\<lparr>os_kv := (os_kv s)\<lparr>kv_disk := d\<rparr>\<rparr>) }
      else Some s)"

text \<open>The destructor flushes; the files stay.\<close>

definition okv_close :: "(bytes \<Rightarrow> bytes) \<Rightarrow> old_store \<Rightarrow> filesys option" where
  "okv_close snap s = map_option (\<lambda>s. fst (kv_disk (os_kv s))) (okv_flush snap s)"

section \<open>The old store and the new one\<close>

text \<open>Whether a key has a pair at all, be it with an empty value.\<close>

definition present :: "kv_abst \<Rightarrow> bytes \<Rightarrow> bool" where
  "present a k \<longleftrightarrow> map_of (fst a) k \<noteq> None \<or> map_of (concat (snd a)) k \<noteq> None"

abbreviation with_log :: "kv_store \<times> log_mgr \<times> transaction \<Rightarrow> old_store \<times> transaction" where
  "with_log r \<equiv> (case r of (kv, log, txn) \<Rightarrow> (\<lparr>os_kv = kv, os_log = Some log\<rparr>, txn))"

lemma okv_put_new:
  "okv_put snap j ones k v (\<lparr>os_kv = kv, os_log = Some log\<rparr>, txn) = map_option with_log (kvt_put snap j ones False k v (kv, log, txn))"
  by (cases "log_for j (record_of_kv (tx_id txn) (tx_prev_lsn txn) INSERT_REC k v) (log, txn)")
    (auto simp: okv_put_def okv_log_def kvt_put_def kv_put_def enable_logging_def split: Option.bind_splits if_splits)

lemma okv_get_new:
  assumes "snappy_ok snap unsnap" and "kv_rep snap (os_kv s) a"
  shows "okv_get unsnap s k = Some (present a k, visible a k)"
proof -
  obtain ps ts where a: "a = (ps, ts)" by (cases a)
  have mem: "sl_rep (kv_mem (os_kv s)) ps" using assms(2) by (simp add: kv_rep_def a)
  note reads = mt.has_rep [OF mem, of k] mt.get_rep [OF mem, of k] disk_search [OF assms [unfolded a], of k]
  show ?thesis
    using reads by (cases "map_of ps k") (auto simp: okv_get_def present_def visible_def a split: option.splits)
qed

lemma okv_del_new:
  assumes "snappy_ok snap unsnap" and "kv_rep snap kv a" and "present a k \<longrightarrow> deletes a k"
  shows "okv_del unsnap j ones k (\<lparr>os_kv = kv, os_log = Some log\<rparr>, txn) =
    map_option (map_prod id with_log) (kvt_del unsnap j ones False k (kv, log, txn))"
proof -
  obtain ps ts where a: "a = (ps, ts)" by (cases a)
  have mem: "sl_rep (kv_mem kv) ps" using assms(2) by (simp add: kv_rep_def a)
  note reads = mt.has_rep [OF mem, of k] mt.get_rep [OF mem, of k] disk_search [OF assms(1,2) [unfolded a], of k]
  let ?log = "\<lambda>v. log_for j (record_of_kv (tx_id txn) (tx_prev_lsn txn) DELETE_REC k v) (log, txn)"
  note defs = okv_del_def kvt_del_def okv_log_def log_delete_def remember_delete_def enable_logging_def
  show ?thesis
  proof (cases "map_of ps k")
    case (Some v)
    with reads show ?thesis by (simp add: defs)
  next
    case None
    show ?thesis
    proof (cases "map_of (concat ts) k")
      case (Some v)
      with None assms(3) have "v \<noteq> []" by (simp add: present_def deletes_def visible_def a)
      with None Some reads show ?thesis
        by (cases "?log v"; cases "sl_put ones (kv_mem kv) k []") (auto simp: defs)
    qed (use None reads in \<open>simp add: defs\<close>)
  qed
qed

text \<open>Given a log manager, the old store does what the new one does without a write set: \<open>put\<close> always,
  \<open>get\<close> for the value, which it reports as found also if it is the empty one of a deletion, and \<open>del\<close>
  unless the key has nothing but such an empty value on disk (for a key in the memtable, both are undefined).\<close>

lemma old_store_is_new_store:
  assumes "snappy_ok snap unsnap" and "kv_rep snap kv a"
  shows "okv_put snap j ones k v (\<lparr>os_kv = kv, os_log = Some log\<rparr>, txn) = map_option with_log (kvt_put snap j ones False k v (kv, log, txn))"
    and "okv_get unsnap \<lparr>os_kv = kv, os_log = Some log\<rparr> k = map_option (\<lambda>r. (present a k, snd r)) (kv_get unsnap kv k)"
    and "present a k = deletes a k \<Longrightarrow> okv_del unsnap j ones k (\<lparr>os_kv = kv, os_log = Some log\<rparr>, txn) =
      map_option (map_prod id with_log) (kvt_del unsnap j ones False k (kv, log, txn))"
proof -
  show "okv_get unsnap \<lparr>os_kv = kv, os_log = Some log\<rparr> k = map_option (\<lambda>r. (present a k, snd r)) (kv_get unsnap kv k)"
    using okv_get_new [OF assms(1), of "\<lparr>os_kv = kv, os_log = Some log\<rparr>" a k] kv_get_rep [OF assms, of k] assms(2) by simp
qed (use okv_put_new okv_del_new [OF assms] in simp_all)

text \<open>As constructed, the store follows an uninitialised pointer at the first \<open>put\<close>.\<close>

lemma old_store_has_no_log:
  "okv_new fs dir = Some s \<Longrightarrow> okv_put snap j ones k v (s, txn) = None"
  by (auto simp: okv_new_def okv_put_def okv_log_def enable_logging_def split: Option.bind_splits)

end
