(* ===== verification/LockOutcomes.thy ===== *)
theory LockOutcomes
  imports LockSystem
begin

text \<open>
  What each lock and unlock call returns in a reachable state of the lock system, branch by branch,
  and what it leaves behind: the first request of a transaction on a datum, a repeated request, an
  upgrade (and what a failed one does to the queue for good), a wake-up and a release.
\<close>

section \<open>Lock modes\<close>

text \<open>C15. The compatibility check is symmetric, and a lock may be upgraded exactly to the modes that
  conflict with strictly more modes; so every chain of upgrades only strengthens the lock.\<close>

theorem lock_mode_lattice:
  "isLockCompatible a b = isLockCompatible b a \<and>
   (isUpdateCompatible a b \<longleftrightarrow> {c. \<not> isLockCompatible a c} \<subset> {c. \<not> isLockCompatible b c})"
proof -
  have "{c. \<not> isLockCompatible x c} = conflicts x" for x by (auto simp: isLockCompatible_conflicts)
  then show ?thesis by (simp add: isUpdateCompatible_less less_lock_mode_def ld.agree_sym [of a b])
qed

section \<open>Calls in the no-wait mode\<close>

lemma awake_txn:
  assumes "sys_run (sys_init nw) es s" and "ls_txns s i = Some txn" and "ls_wait s i = None"
  shows "lm_ok (ls_lm s)" "txn_ok (ls_lm s) i txn None" "lm_no_wait (ls_lm s) = nw" "tx_id txn = i"
    "agrees (ls_lm s) txn {}"
proof -
  have ok: "sys_ok s" "lm_no_wait (ls_lm s) = nw" using reach_ok [OF assms(1)] by simp_all
  then have t: "txn_ok (ls_lm s) i txn (ls_wait s i)" using assms(2) unfolding sys_ok_def by blast
  show "lm_ok (ls_lm s)" using ok(1) by (simp add: sys_ok_def)
  show "txn_ok (ls_lm s) i txn None" using t assms(3) by simp
  then show "tx_id txn = i" "agrees (ls_lm s) txn {}" by (simp_all add: txn_ok_def)
  show "lm_no_wait (ls_lm s) = nw" by (rule ok(2))
qed

lemma returned_holds:
  assumes "lm_ok lm" and "txn_ok lm i txn None" and "run_lock c (lm, txn) = Some (lm', txn', Returned True)"
  shows "holds txn' (call_mode c) (call_data c)"
  using run_lock_result [OF assms(1,2), of c] assms(3) by (auto simp: step_result_def)

text \<open>C11. In the no-wait mode, the first lock call of a growing transaction on a datum returns true
  exactly when its mode is compatible with the granted requests of all others. Then it holds the lock
  and keeps growing; otherwise it is aborted.\<close>

theorem first_lock_call:
  assumes "sys_run (sys_init True) es s" and "ls_txns s i = Some txn" and "ls_wait s i = None" and "growing txn"
    and "lockable (ld_type (call_data c)) (call_mode c)"
    and "request_of i (queue_at (ls_lm s) (call_data c)) = None"
  shows "\<exists>lm' txn'. run_lock c (ls_lm s, txn) =
      Some (lm', txn', Returned (others_allow (call_mode c) i (queue_at (ls_lm s) (call_data c)))) \<and>
    (if others_allow (call_mode c) i (queue_at (ls_lm s) (call_data c))
     then tx_state txn' = GROWING \<and> holds txn' (call_mode c) (call_data c) else tx_state txn' = ABORTED)"
proof -
  note a = awake_txn [OF assms(1-3)]
  have g: "tx_state (start_growing txn) = GROWING" "tx_id (start_growing txn) = i"
    using assms(4) a(4) by (simp_all add: start_growing_simps)
  from first_request [OF a(1) assms(5) g(1) a(3)[unfolded simp_thms]] assms(6) g(2)
  obtain lm' txn' where r: "run_lock c (ls_lm s, txn) =
      Some (lm', txn', Returned (others_allow (call_mode c) i (queue_at (ls_lm s) (call_data c))))"
    "tx_state txn' = (if others_allow (call_mode c) i (queue_at (ls_lm s) (call_data c)) then GROWING else ABORTED)"
    by (auto simp: run_lock_acquire [OF assms(4,5)])
  then show ?thesis using returned_holds [OF a(1,2)] by auto
qed

theorem first_lock_call_witness:
  "\<exists>es s txn. schedule (sys_init True) [ABegin 1, ABegin 2, ALock 1 (LockRow SHARED 7 1 5)] = Some (es, s) \<and>
    ls_txns s 2 = Some txn \<and>
    (\<exists>lm' txn'. run_lock (LockRow SHARED 7 1 5) (ls_lm s, txn) = Some (lm', txn', Returned True)) \<and>
    (\<exists>lm' txn'. run_lock (LockRow EXLUCSIVE 7 1 5) (ls_lm s, txn) = Some (lm', txn', Returned False))"
proof -
  let ?q = "\<lambda>s. queue_at (ls_lm s) (row_id_of 7 1 5)"
  have "\<exists>es s txn. schedule (sys_init True) [ABegin 1, ABegin 2, ALock 1 (LockRow SHARED 7 1 5)] = Some (es, s) \<and>
      ls_txns s 2 = Some txn \<and> ls_wait s 2 = None \<and> growing txn \<and> request_of 2 (?q s) = None \<and>
      others_allow SHARED 2 (?q s) \<and> \<not> others_allow EXLUCSIVE 2 (?q s)"
    by (simp add: lock_eval growing_def others_allow_def)
  then obtain es s txn where s: "schedule (sys_init True) [ABegin 1, ABegin 2, ALock 1 (LockRow SHARED 7 1 5)] = Some (es, s)"
      "ls_txns s 2 = Some txn" "ls_wait s 2 = None" "growing txn" "request_of 2 (?q s) = None"
      "others_allow SHARED 2 (?q s)" "\<not> others_allow EXLUCSIVE 2 (?q s)" by blast
  have row: "lockable (ld_type (call_data (LockRow m 7 1 5))) m" if "m = SHARED \<or> m = EXLUCSIVE" for m
    using that by (auto simp: lockable_def)
  note run = schedule_run [OF s(1)]
  show ?thesis
    using s first_lock_call [OF run s(2-4), of "LockRow SHARED 7 1 5"]
      first_lock_call [OF run s(2-4), of "LockRow EXLUCSIVE 7 1 5"] row by (auto simp: lockable_def row_id_of_def)
qed

lemma further_lock_outcome:
  assumes "sys_run (sys_init True) es s" and "ls_txns s i = Some txn" and "ls_wait s i = None" and "growing txn"
    and "lockable (ld_type (call_data c)) (call_mode c)"
    and "request_of i (queue_at (ls_lm s) (call_data c)) = Some r" and "lr_granted r"
  shows "\<exists>lm' txn' b. run_lock c (ls_lm s, txn) = Some (lm', txn', Returned b) \<and>
    tx_state txn' = (if b then GROWING else ABORTED) \<and>
    (if lr_mode r = call_mode c
     then b \<and> queue_at lm' (call_data c) = queue_at (ls_lm s) (call_data c)
     else if lq_upgrading (queue_at (ls_lm s) (call_data c)) \<or> \<not> isUpdateCompatible (lr_mode r) (call_mode c)
     then \<not> b \<and> queue_at lm' (call_data c) = queue_at (ls_lm s) (call_data c)
     else b = others_allow (call_mode c) i (queue_at (ls_lm s) (call_data c)) \<and> (b \<longrightarrow> holds txn' (call_mode c) (call_data c)) \<and>
       (\<not> b \<longrightarrow> queue_at lm' (call_data c) = set_upgrade (lr_addr r) (call_mode c) (queue_at (ls_lm s) (call_data c))))"
proof -
  note a = awake_txn [OF assms(1-3)]
  have g: "tx_state (start_growing txn) = GROWING" "tx_id (start_growing txn) = i"
    using assms(4) a(4) by (simp_all add: start_growing_simps)
  have r: "request_of (tx_id (start_growing txn)) (queue_at (ls_lm s) (call_data c)) = Some r"
    using assms(6) g(2) by simp
  have ab: "tx_state (abort_txn t) = ABORTED" for t by (simp add: abort_txn_def)
  note run = run_lock_acquire [OF assms(4,5)]
  note rep = repeated_request [OF g(1) r assms(5)]
  show ?thesis
  proof (cases "lr_mode r = call_mode c")
    case True
    from rep(1) [OF this assms(7)] True run show ?thesis by auto
  next
    case ne: False
    show ?thesis
    proof (cases "lq_upgrading (queue_at (ls_lm s) (call_data c)) \<or> \<not> isUpdateCompatible (lr_mode r) (call_mode c)")
      case True
      with ne rep(2,3) obtain lm' where
        "acquire (call_mode c) (call_data c) (ls_lm s, start_growing txn) = Some (lm', abort_txn (start_growing txn), Returned False)"
        "queue_at lm' (call_data c) = queue_at (ls_lm s) (call_data c)" by (auto simp: isUpdateCompatible_less)
      with ne True run ab show ?thesis by auto
    next
      case False
      then have less: "lr_mode r < call_mode c" and up: "\<not> lq_upgrading (queue_at (ls_lm s) (call_data c))"
        by (simp_all add: isUpdateCompatible_less)
      from upgrade_request [OF a(1) assms(5) g(1) a(3)[unfolded simp_thms] r less up] g(2) ne False run ab
      show ?thesis by (auto split: if_splits)
    qed
  qed
qed

text \<open>A further lock call on a datum whose lock the transaction holds: in the mode it holds it
  returns true and leaves the queue as it is; in a mode that is not strictly stronger, or while an
  upgrade of the queue is pending, it aborts; otherwise it upgrades the request, and returns true
  exactly when all others allow the stronger mode.\<close>

theorem further_lock_call:
  assumes "sys_run (sys_init True) es s" and "ls_txns s i = Some txn" and "ls_wait s i = None" and "growing txn"
    and "lockable (ld_type (call_data c)) (call_mode c)"
    and "request_of i (queue_at (ls_lm s) (call_data c)) = Some r" and "lr_granted r"
  shows "\<exists>lm' txn' b. run_lock c (ls_lm s, txn) = Some (lm', txn', Returned b) \<and>
    tx_state txn' = (if b then GROWING else ABORTED) \<and>
    (if lr_mode r = call_mode c
     then b \<and> queue_at lm' (call_data c) = queue_at (ls_lm s) (call_data c)
     else if lq_upgrading (queue_at (ls_lm s) (call_data c)) \<or> \<not> isUpdateCompatible (lr_mode r) (call_mode c)
     then \<not> b \<and> queue_at lm' (call_data c) = queue_at (ls_lm s) (call_data c)
     else b = others_allow (call_mode c) i (queue_at (ls_lm s) (call_data c)) \<and> (b \<longrightarrow> holds txn' (call_mode c) (call_data c)) \<and>
       (\<not> b \<longrightarrow> queue_at lm' (call_data c) = set_upgrade (lr_addr r) (call_mode c) (queue_at (ls_lm s) (call_data c))))"
  by (rule further_lock_outcome [OF assms])

theorem further_lock_call_witness:
  "\<exists>es s txn. schedule (sys_init True) [ABegin 1, ALock 1 (LockTable SHARED 7)] = Some (es, s) \<and>
    ls_txns s 1 = Some txn \<and>
    (\<exists>lm' txn'. run_lock (LockTable EXLUCSIVE 7) (ls_lm s, txn) = Some (lm', txn', Returned True)) \<and>
    (\<exists>lm' txn'. run_lock (LockTable INTENTION_SHARED 7) (ls_lm s, txn) = Some (lm', txn', Returned False))"
proof -
  let ?q = "\<lambda>s. queue_at (ls_lm s) (table_id_of 7)"
  have "\<exists>es s txn r. schedule (sys_init True) [ABegin 1, ALock 1 (LockTable SHARED 7)] = Some (es, s) \<and>
      ls_txns s 1 = Some txn \<and> ls_wait s 1 = None \<and> growing txn \<and> request_of 1 (?q s) = Some r \<and> lr_granted r \<and>
      lr_mode r = SHARED \<and> \<not> lq_upgrading (?q s) \<and> others_allow EXLUCSIVE 1 (?q s)"
    by (simp add: lock_eval growing_def others_allow_def)
  then obtain es s txn r where s: "schedule (sys_init True) [ABegin 1, ALock 1 (LockTable SHARED 7)] = Some (es, s)"
      "ls_txns s 1 = Some txn" "ls_wait s 1 = None" "growing txn" "request_of 1 (?q s) = Some r" "lr_granted r"
      "lr_mode r = SHARED" "\<not> lq_upgrading (?q s)" "others_allow EXLUCSIVE 1 (?q s)" by blast
  note run = schedule_run [OF s(1)]
  show ?thesis
    using s further_lock_call [OF run s(2-4), of "LockTable EXLUCSIVE 7"]
      further_lock_call [OF run s(2-4), of "LockTable INTENTION_SHARED 7"]
    by (auto simp: lockable_def table_id_of_def isUpdateCompatible_def)
qed

section \<open>A failed upgrade\<close>

lemma lock_wake_flag:
  assumes "lock_wake m l w a (lm, txn) = Some (lm', txn', out)" and "w \<noteq> WaitUpgrade \<or> l \<noteq> l0"
  shows "lq_upgrading (queue_at lm' l0) = lq_upgrading (queue_at lm l0)"
  using assms by (auto simp: lock_wake_def wait_ready_def lock_granted_def Let_def lock_simps set_granted_def
      split: Option.bind_splits if_splits)

lemma queue_at_self: "queue_at (set_queue l (queue_at lm l) lm) = queue_at lm"
  by (auto simp: lock_simps)

lemma acquire_flag:
  assumes "acquire m l (lm, txn) = Some (lm', txn', out)" and "lq_upgrading (queue_at lm l0)"
  shows "lq_upgrading (queue_at lm' l0)"
proof (cases "request_of (tx_id txn) (queue_at lm l)")
  case None
  define lm2 where "lm2 = set_queue l ((queue_at lm l)\<lparr>lq_requests := lq_requests (queue_at lm l) @
    [\<lparr>lr_addr = lm_fresh lm, lr_txn = tx_id txn, lr_mode = m, lr_granted = False\<rparr>]\<rparr>)
    (set_queue l (queue_at lm l) lm\<lparr>lm_fresh := lm_fresh lm + 1\<rparr>)"
  have "lock_wake m l WaitNew (lm_fresh lm) (lm2, txn) = Some (lm', txn', out)"
    using assms(1) None by (simp add: acquire_def Let_def lm2_def lock_simps)
  from lock_wake_flag [OF this, of l0] assms(2) show ?thesis by (cases "l0 = l") (simp_all add: lm2_def lock_simps)
next
  case (Some r)
  have flag: "lq_upgrading (queue_at (set_queue l (queue_at lm l) lm) l0)" using assms(2) by (simp only: queue_at_self)
  consider "lm' = set_queue l (queue_at lm l) lm"
    | "lock_wake m l WaitSame (lr_addr r) (set_queue l (queue_at lm l) lm, txn) = Some (lm', txn', out)"
    | "\<not> lq_upgrading (queue_at lm l)" "lock_wake m l WaitUpgrade (lr_addr r)
        (set_queue l (set_upgrade (lr_addr r) m (queue_at lm l)) (set_queue l (queue_at lm l) lm), txn) = Some (lm', txn', out)"
    using assms(1) Some by (auto simp: acquire_def Let_def split: if_splits Option.bind_splits)
  then show ?thesis
  proof cases
    case 1
    with flag show ?thesis by simp
  next
    case 2
    from lock_wake_flag [OF this, of l0] flag show ?thesis by simp
  next
    case 3
    then have "l \<noteq> l0" using assms(2) by auto
    with lock_wake_flag [OF 3(2), of l0] flag show ?thesis by (simp add: lock_simps)
  qed
qed

lemma run_lock_flag:
  assumes "run_lock c (lm, txn) = Some (lm', txn', out)" and "lq_upgrading (queue_at lm l0)"
  shows "lq_upgrading (queue_at lm' l0)"
  using assms acquire_flag
  by (cases c) (auto simp: lock_table_def lock_partition_def lock_row_def Let_def split: if_splits)

lemma run_unlock_flag:
  assumes "run_unlock u (lm, txn) = (lm', txn', b)" and "lq_upgrading (queue_at lm l0)"
  shows "lq_upgrading (queue_at lm' l0)"
proof -
  have "lq_upgrading (queue_at (fst (unlock l (lm, txn))) l0)" for l
    using assms(2) by (auto simp: unlock_def Let_def lock_simps split: option.splits)
  then show ?thesis
    using assms(1) by (cases u) (auto simp: unlock_table_def unlock_partition_def unlock_row_def Let_def split: prod.splits,
      (metis fst_conv)+)
qed

lemma no_sleepers:
  assumes "sys_run (sys_init True) es s"
  shows "ls_wait s i = None"
  using assms
proof (induction "sys_init True" es s rule: sys_run.induct)
  case run_nil
  then show ?case by (simp add: sys_init_def)
next
  case (run_snoc es t e u)
  have r: "sys_ok t" "lm_no_wait (ls_lm t)" using reach_ok [OF run_snoc.hyps(1)] by auto
  from sys_step_facts [OF run_snoc.hyps(3) r(1)] r(2) have "\<And>j. e \<noteq> Sleeps j" by auto
  with run_snoc.hyps(3,2) show ?case
  proof cases
    case (lock_call i txn c lm' txn' out)
    then show ?thesis using \<open>\<And>j. e \<noteq> Sleeps j\<close> run_snoc.hyps(2) by (cases out) auto
  qed auto
qed
lemma step_flag:
  assumes "sys_step s e s'" and "\<forall>i. ls_wait s i = None" and "lq_upgrading (queue_at (ls_lm s) l)"
  shows "lq_upgrading (queue_at (ls_lm s') l)"
  using assms by cases (auto intro: run_lock_flag run_unlock_flag)

lemma flag_run:
  assumes "sys_run s es t" and "sys_run (sys_init True) ds s" and "lq_upgrading (queue_at (ls_lm s) l)"
  shows "lq_upgrading (queue_at (ls_lm t) l)"
  using assms
proof (induction rule: sys_run.induct)
  case (run_snoc s es t e u)
  have "\<forall>i. ls_wait t i = None" using no_sleepers [OF run_append [OF run_snoc.hyps(1) run_snoc.prems(1)]] by blast
  with step_flag [OF run_snoc.hyps(2)] run_snoc.IH [OF run_snoc.prems] show ?case by blast
qed

lemma run_lock_refused:
  assumes "\<not> (growing txn \<and> lockable (ld_type (call_data c)) (call_mode c))"
  shows "run_lock c (lm, txn) = Some (lm, abort_txn (start_growing txn), Returned False)"
  using assms
  by (cases c) (auto simp: lock_table_def lock_partition_def lock_row_def Let_def lockable_def table_id_of_def
      partition_id_of_def row_id_of_def start_growing_simps)

text \<open>In the no-wait mode a failed upgrade marks the queue of the datum for good: once the call of a
  transaction that holds a lock and asks for a stronger mode has been refused, in every later state,
  however the run goes on, every holder of a lock on the datum that asks for another mode is
  aborted, even when it is alone in the queue.\<close>

theorem failed_upgrade_is_forever:
  assumes "sys_run (sys_init True) es s" and "ls_txns s i = Some txn" and "growing txn"
    and "lockable (ld_type (call_data c)) (call_mode c)"
    and "request_of i (queue_at (ls_lm s) (call_data c)) = Some r" and "lr_granted r"
    and "isUpdateCompatible (lr_mode r) (call_mode c)" and "act s (ALock i c) = Some (Refused i, s1)"
    and "sys_run s1 es' s2" and "ls_txns s2 j = Some txn2"
    and "request_of j (queue_at (ls_lm s2) (call_data c)) = Some r2" and "lr_granted r2"
    and "call_data c2 = call_data c" and "lr_mode r2 \<noteq> call_mode c2"
  shows "\<exists>lm' txn'. run_lock c2 (ls_lm s2, txn2) = Some (lm', txn', Returned False) \<and> tx_state txn' = ABORTED"
proof -
  let ?l = "call_data c"
  have step: "sys_step s (Refused i) s1" by (rule act_step [OF assms(8)])
  have run1: "sys_run (sys_init True) (es @ [Refused i]) s1" by (rule run_snoc [OF assms(1) step])
  have run2: "sys_run (sys_init True) ((es @ [Refused i]) @ es') s2" by (rule run_append [OF assms(9) run1])
  obtain lm' txn' where call: "run_lock c (ls_lm s, txn) = Some (lm', txn', Returned False)" "ls_lm s1 = lm'"
    using assms(2,8) by (auto split: if_splits Option.bind_splits prod.splits lock_outcome.splits elim: outcome_event.elims)
  have "lr_mode r \<noteq> call_mode c" using assms(7) by (auto simp: isUpdateCompatible_less)
  with further_lock_outcome [OF assms(1,2) no_sleepers [OF assms(1)] assms(3-6)] call assms(7)
  have "lq_upgrading (queue_at (ls_lm s) ?l) \<and> queue_at lm' ?l = queue_at (ls_lm s) ?l \<or>
      queue_at lm' ?l = set_upgrade (lr_addr r) (call_mode c) (queue_at (ls_lm s) ?l)" by (auto split: if_splits)
  moreover have "lq_upgrading (set_upgrade a m q)" for a m q by (simp add: set_upgrade_def)
  ultimately have "lq_upgrading (queue_at lm' ?l)" by metis
  with call(2) have "lq_upgrading (queue_at (ls_lm s1) ?l)" by simp
  with flag_run [OF assms(9) run1] have flag: "lq_upgrading (queue_at (ls_lm s2) ?l)" by simp
  note a = awake_txn [OF run2 assms(10) no_sleepers [OF run2]]
  show ?thesis
  proof (cases "growing txn2 \<and> lockable (ld_type (call_data c2)) (call_mode c2)")
    case True
    from further_lock_outcome [OF run2 assms(10) no_sleepers [OF run2] _ _ _ assms(12), of c2] True assms(11,13,14) flag
    show ?thesis by auto
  next
    case False
    from run_lock_refused [OF this] show ?thesis by (simp add: abort_txn_def)
  qed
qed

theorem failed_upgrade_is_forever_witness:
  "\<exists>es s s1 es' s2 txn2. schedule (sys_init True) [ABegin 1, ABegin 2, ALock 1 (LockTable SHARED 7), ALock 2 (LockTable SHARED 7)] =
      Some (es, s) \<and> act s (ALock 1 (LockTable EXLUCSIVE 7)) = Some (Refused 1, s1) \<and>
    schedule s1 [AUnlock 1 (UnLockTable 7), AUnlock 2 (UnLockTable 7), ABegin 3, ALock 3 (LockTable SHARED 7)] = Some (es', s2) \<and>
    last es' = Locked 3 SHARED (table_id_of 7) \<and> ls_txns s2 3 = Some txn2 \<and>
    (\<exists>lm' txn'. run_lock (LockTable EXLUCSIVE 7) (ls_lm s2, txn2) = Some (lm', txn', Returned False))"
proof -
  let ?q = "\<lambda>s. queue_at (ls_lm s) (table_id_of 7)"
  have "\<exists>es s txn r s1 es' s2 txn2 r2. schedule (sys_init True) [ABegin 1, ABegin 2, ALock 1 (LockTable SHARED 7), ALock 2 (LockTable SHARED 7)] =
      Some (es, s) \<and> act s (ALock 1 (LockTable EXLUCSIVE 7)) = Some (Refused 1, s1) \<and>
    schedule s1 [AUnlock 1 (UnLockTable 7), AUnlock 2 (UnLockTable 7), ABegin 3, ALock 3 (LockTable SHARED 7)] = Some (es', s2) \<and>
    last es' = Locked 3 SHARED (table_id_of 7) \<and> ls_txns s2 3 = Some txn2 \<and>
    ls_txns s 1 = Some txn \<and> growing txn \<and> request_of 1 (?q s) = Some r \<and> lr_granted r \<and> lr_mode r = SHARED \<and>
    request_of 3 (?q s2) = Some r2 \<and> lr_granted r2 \<and> lr_mode r2 = SHARED"
    by (simp add: lock_eval growing_def)
  then obtain es s txn r s1 es' s2 txn2 r2 where
    s: "schedule (sys_init True) [ABegin 1, ABegin 2, ALock 1 (LockTable SHARED 7), ALock 2 (LockTable SHARED 7)] = Some (es, s)"
      "act s (ALock 1 (LockTable EXLUCSIVE 7)) = Some (Refused 1, s1)"
      "schedule s1 [AUnlock 1 (UnLockTable 7), AUnlock 2 (UnLockTable 7), ABegin 3, ALock 3 (LockTable SHARED 7)] = Some (es', s2)"
      "last es' = Locked 3 SHARED (table_id_of 7)" "ls_txns s2 3 = Some txn2"
    and t: "ls_txns s 1 = Some txn" "growing txn" "request_of 1 (?q s) = Some r" "lr_granted r" "lr_mode r = SHARED"
      "request_of 3 (?q s2) = Some r2" "lr_granted r2" "lr_mode r2 = SHARED" by blast
  have "\<exists>lm' txn'. run_lock (LockTable EXLUCSIVE 7) (ls_lm s2, txn2) = Some (lm', txn', Returned False) \<and> tx_state txn' = ABORTED"
    using failed_upgrade_is_forever [OF schedule_run [OF s(1)] t(1,2) _ _ t(4) _ s(2) schedule_run [OF s(3)] s(5) _ t(7),
        of "LockTable EXLUCSIVE 7"] t
    by (simp add: lockable_def table_id_of_def isUpdateCompatible_def)
  with s show ?thesis by blast
qed

section \<open>Lock sets, wake-ups, releases\<close>

text \<open>C10. In every reachable state, the lock sets of a transaction and its granted requests in the lock table mirror each other
  as follows. Every granted request is in the lock set of its mode, also while the transaction sleeps or after it was
  aborted. Every lock in the lock sets of a transaction that is not aborted is backed by its own request for that datum, in the mode of the
  lock or a stronger one, and that request is granted unless the transaction sleeps in a call on that datum. The exceptions are
  real: an upgrade clears the grant before it waits (\<open>sleeping_upgrade_keeps_lock\<close>) or aborts (\<open>failed_upgrade_is_forever\<close>).\<close>

theorem lock_sets_mirror_requests:
  assumes "sys_run (sys_init nw) es s" and "ls_txns s i = Some txn"
  shows "(\<forall>l r. r \<in> set (lq_requests (queue_at (ls_lm s) l)) \<and> lr_txn r = i \<and> lr_granted r \<longrightarrow> holds txn (lr_mode r) l) \<and>
    (tx_state txn \<noteq> ABORTED \<longrightarrow> (\<forall>m l. holds txn m l \<longrightarrow>
      (\<exists>r \<in> set (lq_requests (queue_at (ls_lm s) l)). lr_txn r = i \<and> m \<le> lr_mode r \<and> (\<not> asleep_on s i l \<longrightarrow> lr_granted r))))"
  using txn_agrees [OF conjunct1 [OF reach_ok [OF assms(1)]] assms(2)] unfolding agrees_def by (simp; blast)

theorem lock_sets_mirror_requests_witness:
  "\<exists>es s txn. schedule (sys_init True) [ABegin 1, ALock 1 (LockTable SHARED 7), ALock 1 (LockTable EXLUCSIVE 7)] = Some (es, s) \<and>
    ls_txns s 1 = Some txn \<and> holds txn SHARED (table_id_of 7) \<and>
    (\<exists>r \<in> set (lq_requests (queue_at (ls_lm s) (table_id_of 7))). lr_txn r = 1 \<and> lr_granted r \<and> SHARED \<le> lr_mode r)"
proof -
  have "\<exists>es s txn. schedule (sys_init True) [ABegin 1, ALock 1 (LockTable SHARED 7), ALock 1 (LockTable EXLUCSIVE 7)] = Some (es, s) \<and>
    ls_txns s 1 = Some txn \<and> ls_wait s 1 = None \<and> holds txn SHARED (table_id_of 7) \<and> tx_state txn \<noteq> ABORTED"
    by (simp add: lock_eval)
  then obtain es s txn where s: "schedule (sys_init True) [ABegin 1, ALock 1 (LockTable SHARED 7), ALock 1 (LockTable EXLUCSIVE 7)] = Some (es, s)"
    "ls_txns s 1 = Some txn" "ls_wait s 1 = None" "holds txn SHARED (table_id_of 7)" "tx_state txn \<noteq> ABORTED" by blast
  have "\<not> asleep_on s 1 (table_id_of 7)" using s(3) by (simp add: asleep_on_def)
  with lock_sets_mirror_requests [OF schedule_run [OF s(1)] s(2)] s show ?thesis by blast
qed

text \<open>C14. Totality in the no-wait mode. In every reachable state no call is asleep, and whatever lock operation a
  transaction calls, with whatever mode and data and in whatever state it is, the call returns: true, and then the transaction is
  growing and holds the lock, or false, and then it is aborted.\<close>

theorem no_wait_calls_return:
  assumes "sys_run (sys_init True) es s" and "ls_txns s i = Some txn"
  shows "ls_wait s i = None \<and> (\<exists>lm' txn' b. run_lock c (ls_lm s, txn) = Some (lm', txn', Returned b) \<and>
    (if b then tx_state txn' = GROWING \<and> holds txn' (call_mode c) (call_data c) else tx_state txn' = ABORTED))"
proof -
  have w: "ls_wait s i = None" by (rule no_sleepers [OF assms(1)])
  note a = awake_txn [OF assms w]
  obtain lm' txn' out where r: "run_lock c (ls_lm s, txn) = Some (lm', txn', out)"
      "\<forall>w a. out = Blocked w a \<longrightarrow> \<not> lm_no_wait (ls_lm s)"
      "out = Returned True \<longrightarrow> tx_state txn' = GROWING \<and> holds txn' (call_mode c) (call_data c)"
      "out = Returned False \<longrightarrow> tx_state txn' = ABORTED"
    using run_lock_result [OF a(1,2), of c] by (auto simp: step_result_def)
  with a(3) obtain b where "out = Returned b" by (cases out) auto
  with r w show ?thesis by (cases b) auto
qed

theorem no_wait_calls_return_witness:
  "\<exists>es s txn. schedule (sys_init True) [ABegin 1, ABegin 2, ALock 1 (LockTable SHARED 7)] = Some (es, s) \<and> ls_txns s 2 = Some txn \<and>
    (\<exists>lm' txn'. run_lock (LockTable EXLUCSIVE 7) (ls_lm s, txn) = Some (lm', txn', Returned False) \<and> tx_state txn' = ABORTED)"
proof -
  have "\<exists>es s txn lm' txn' b. schedule (sys_init True) [ABegin 1, ABegin 2, ALock 1 (LockTable SHARED 7)] = Some (es, s) \<and>
      ls_txns s 2 = Some txn \<and> run_lock (LockTable EXLUCSIVE 7) (ls_lm s, txn) = Some (lm', txn', Returned b) \<and> \<not> b"
    by (simp add: lock_eval bool_witness)
  then obtain es s txn lm' txn' where s: "schedule (sys_init True) [ABegin 1, ABegin 2, ALock 1 (LockTable SHARED 7)] = Some (es, s)"
      "ls_txns s 2 = Some txn" "run_lock (LockTable EXLUCSIVE 7) (ls_lm s, txn) = Some (lm', txn', Returned False)" by auto
  from no_wait_calls_return [OF schedule_run [OF s(1)] s(2), of "LockTable EXLUCSIVE 7"] s show ?thesis by auto
qed

text \<open>C12. In the wait mode, a lock call of a growing transaction that sleeps returns true with the lock
  at the first wake-up at which its mode is compatible with the granted requests of all others; at any
  other wake-up nothing changes and it sleeps on.\<close>

theorem sleeping_call_wakes:
  assumes "sys_run (sys_init False) es s" and "ls_txns s i = Some txn" and "ls_wait s i = Some (c, w, a)"
    and "tx_state txn = GROWING"
  shows "if others_allow (call_mode c) i (queue_at (ls_lm s) (call_data c))
    then \<exists>lm' txn'. lock_wake (call_mode c) (call_data c) w a (ls_lm s, txn) = Some (lm', txn', Returned True) \<and>
      tx_state txn' = GROWING \<and> holds txn' (call_mode c) (call_data c)
    else lock_wake (call_mode c) (call_data c) w a (ls_lm s, txn) = Some (ls_lm s, txn, Blocked w a)"
proof -
  let ?m = "call_mode c" and ?l = "call_data c"
  have ok: "sys_ok s" "\<not> lm_no_wait (ls_lm s)" using reach_ok [OF assms(1)] by simp_all
  then have "txn_ok (ls_lm s) i txn (Some (c, w, a))" using assms(2,3) unfolding sys_ok_def by metis
  then have own: "own_request (ls_lm s) (tx_id txn) ?m ?l a" and id: "tx_id txn = i" by (simp_all add: txn_ok_def)
  have lm: "lm_ok (ls_lm s)" using ok(1) by (simp add: sys_ok_def)
  obtain r where r: "find_addr a (queue_at (ls_lm s) ?l) = Some r" "lr_txn r = i" "lr_mode r = ?m"
    using own id by (auto simp: own_request_def)
  have others: "checkQueueCompatible (queue_at (ls_lm s) ?l) r \<longleftrightarrow> others_allow ?m i (queue_at (ls_lm s) ?l)"
    by (rule own_others [OF lm_ok_queue [OF lm] r])
  have ready: "wait_ready (lm_no_wait (ls_lm s)) (queue_at (ls_lm s) ?l) r txn =
      (others_allow ?m i (queue_at (ls_lm s) ?l), txn)"
    using ok(2) others assms(4) by (simp add: wait_ready_def)
  show ?thesis
  proof (cases "others_allow ?m i (queue_at (ls_lm s) ?l)")
    case False
    then show ?thesis using ready r(1) by (simp add: lock_wake_def)
  next
    case True
    have m: "lockable (ld_type ?l) ?m" using own by (simp add: own_request_def)
    obtain lm' txn' out where wake: "lock_wake ?m ?l w a (ls_lm s, txn) = Some (lm', txn', out)"
      using lock_wake_ok [OF lm r(1) m] by blast
    from wake own show ?thesis
    proof (cases rule: lock_wake_cases)
      case (granted u)
      with True wake assms(4) show ?thesis by auto
    qed (use wake True ready r(1) assms(4) in \<open>auto simp: lock_wake_def lock_granted_def Let_def split: Option.bind_splits\<close>)
  qed
qed

theorem sleeping_call_wakes_witness:
  "\<exists>es s txn es' s' txn'. schedule (sys_init False) [ABegin 1, ABegin 2, ALock 1 (LockTable SHARED 7), ALock 2 (LockTable EXLUCSIVE 7)] =
      Some (es, s) \<and> last es = Sleeps 2 \<and> ls_txns s 2 = Some txn \<and>
    lock_wake EXLUCSIVE (table_id_of 7) WaitNew 1 (ls_lm s, txn) = Some (ls_lm s, txn, Blocked WaitNew 1) \<and>
    schedule s [AUnlock 1 (UnLockTable 7)] = Some (es', s') \<and> ls_txns s' 2 = Some txn' \<and>
    (\<exists>lm t. lock_wake EXLUCSIVE (table_id_of 7) WaitNew 1 (ls_lm s', txn') = Some (lm, t, Returned True))"
proof -
  let ?q = "\<lambda>s. queue_at (ls_lm s) (table_id_of 7)"
  let ?c = "LockTable EXLUCSIVE 7"
  have "\<exists>es s txn es' s' txn'. schedule (sys_init False) [ABegin 1, ABegin 2, ALock 1 (LockTable SHARED 7), ALock 2 ?c] =
      Some (es, s) \<and> last es = Sleeps 2 \<and> ls_txns s 2 = Some txn \<and> ls_wait s 2 = Some (?c, WaitNew, 1) \<and> tx_state txn = GROWING \<and>
    \<not> others_allow EXLUCSIVE 2 (?q s) \<and>
    schedule s [AUnlock 1 (UnLockTable 7)] = Some (es', s') \<and> ls_txns s' 2 = Some txn' \<and>
    ls_wait s' 2 = Some (?c, WaitNew, 1) \<and> tx_state txn' = GROWING \<and> others_allow EXLUCSIVE 2 (?q s')"
    by (simp add: lock_eval others_allow_def)
  then obtain es s txn es' s' txn' where
    s: "schedule (sys_init False) [ABegin 1, ABegin 2, ALock 1 (LockTable SHARED 7), ALock 2 ?c] = Some (es, s)" "last es = Sleeps 2"
      "ls_txns s 2 = Some txn" "ls_wait s 2 = Some (?c, WaitNew, 1)" "tx_state txn = GROWING" "\<not> others_allow EXLUCSIVE 2 (?q s)"
    and s': "schedule s [AUnlock 1 (UnLockTable 7)] = Some (es', s')" "ls_txns s' 2 = Some txn'"
      "ls_wait s' 2 = Some (?c, WaitNew, 1)" "tx_state txn' = GROWING" "others_allow EXLUCSIVE 2 (?q s')" by blast
  note run = schedule_run [OF s(1)]
  note run' = run_append [OF schedule_run [OF s'(1)] run]
  from sleeping_call_wakes [OF run s(3-5)] s(6) have "lock_wake EXLUCSIVE (table_id_of 7) WaitNew 1 (ls_lm s, txn) =
      Some (ls_lm s, txn, Blocked WaitNew 1)" by simp
  moreover from sleeping_call_wakes [OF run' s'(2-4)] s'(5)
  have "\<exists>lm t. lock_wake EXLUCSIVE (table_id_of 7) WaitNew 1 (ls_lm s', txn') = Some (lm, t, Returned True)" by auto
  ultimately show ?thesis using s(1-3) s'(1,2) by blast
qed

lemma erase_granted_filter:
  "distinct (map lr_txn rs) \<Longrightarrow> r \<in> set rs \<Longrightarrow> lr_txn r = i \<Longrightarrow> lr_granted r \<Longrightarrow>
   erase_granted i rs = Some (filter (\<lambda>r. lr_txn r \<noteq> i) rs)"
proof (induction rs)
  case (Cons q qs)
  show ?case
  proof (cases "lr_txn q = i")
    case True
    then have q: "q = r" using Cons.prems by (auto simp: image_iff)
    have "\<forall>x \<in> set qs. lr_txn x \<noteq> i" using Cons.prems(1) True by (auto simp: image_iff)
    with True q Cons.prems(4) show ?thesis by (auto simp: filter_id_conv)
  next
    case False
    with Cons show ?thesis by auto
  qed
qed simp

text \<open>C13. Unlocking a datum whose lock the transaction holds removes exactly its request from the queue
  of that datum, leaves every other queue as it is, takes the datum out of the lock sets and moves a
  growing transaction to SHRINKING; without a granted request the transaction is aborted and no queue
  changes.\<close>

theorem unlock_releases:
  assumes "sys_run (sys_init nw) es s" and "ls_txns s i = Some txn" and "ls_wait s i = None"
  shows "\<exists>lm' txn' b. run_unlock u (ls_lm s, txn) = (lm', txn', b) \<and> (\<forall>m. \<not> holds txn' m (unlock_data u)) \<and>
    (\<forall>l. l \<noteq> unlock_data u \<longrightarrow> queue_at lm' l = queue_at (ls_lm s) l) \<and>
    (if \<exists>r \<in> set (lq_requests (queue_at (ls_lm s) (unlock_data u))). lr_txn r = i \<and> lr_granted r
     then lq_requests (queue_at lm' (unlock_data u)) =
            filter (\<lambda>r. lr_txn r \<noteq> i) (lq_requests (queue_at (ls_lm s) (unlock_data u))) \<and>
          tx_state txn' = (if tx_state txn = GROWING then SHRINKING else tx_state txn)
     else queue_at lm' (unlock_data u) = queue_at (ls_lm s) (unlock_data u) \<and> tx_state txn' = ABORTED)"
proof -
  note a = awake_txn [OF assms]
  define l where "l = unlock_data u"
  let ?q = "queue_at (ls_lm s) l"
  obtain lm' txn' b where u: "run_unlock u (ls_lm s, txn) = (lm', txn', b)" by (metis prod_cases3)
  obtain txn1 b1 where u1: "unlock l (ls_lm s, txn) = (lm', txn1, b1)" "tx_state txn' = tx_state txn1"
    using u by (cases u) (auto simp: l_def unlock_table_def unlock_partition_def unlock_row_def Let_def split: prod.splits)
  have "release_effect l (ls_lm s, txn) (lm', txn', b)"
    using release_effects [OF a(1,5)] u unfolding l_def by (cases u) (metis run_unlock.simps unlock_data.simps)+
  then have gone: "\<forall>m. \<not> holds txn' m l" by (simp add: release_effect_def)
  have other: "queue_at lm' l' = queue_at (ls_lm s) l'" if "l' \<noteq> l" for l'
    using u1(1) that by (auto simp: unlock_def Let_def lock_simps split: option.splits)
  have id: "tx_id (if tx_state txn = GROWING then txn\<lparr>tx_state := SHRINKING\<rparr> else txn) = i" using a(4) by simp
  show ?thesis
  proof (cases "\<exists>r \<in> set (lq_requests ?q). lr_txn r = i \<and> lr_granted r")
    case True
    then obtain r where r: "r \<in> set (lq_requests ?q)" "lr_txn r = i" "lr_granted r" by blast
    have "distinct (map lr_txn (lq_requests ?q))" using lm_ok_queue [OF a(1), of l] by (simp add: queue_ok_def)
    note e = erase_granted_filter [OF this r]
    have "lm' = set_queue l (?q\<lparr>lq_requests := filter (\<lambda>r. lr_txn r \<noteq> i) (lq_requests ?q)\<rparr>) (ls_lm s)"
      "txn1 = (if tx_state txn = GROWING then txn\<lparr>tx_state := SHRINKING\<rparr> else txn)"
      using u1(1) by (simp_all only: unlock_def Let_def prod.case id e option.case prod.inject)
    with u gone other u1(2) True show ?thesis unfolding l_def [symmetric] by (auto simp: lock_simps)
  next
    case False
    then have e: "erase_granted i (lq_requests ?q) = None"
      using erase_granted_set by (metis in_set_conv_decomp not_None_eq)
    have "lm' = set_queue l ?q (ls_lm s)"
      "txn1 = abort_txn (if tx_state txn = GROWING then txn\<lparr>tx_state := SHRINKING\<rparr> else txn)"
      using u1(1) by (simp_all only: unlock_def Let_def prod.case id e option.case prod.inject)
    with u gone other u1(2) False show ?thesis unfolding l_def [symmetric] by (auto simp: lock_simps abort_txn_def)
  qed
qed

theorem unlock_releases_witness:
  "\<exists>es s txn. schedule (sys_init False) [ABegin 1, ABegin 2, ALock 1 (LockTable SHARED 7), ALock 2 (LockTable SHARED 7)] = Some (es, s) \<and>
    ls_txns s 1 = Some txn \<and>
    (\<exists>lm' txn' b. run_unlock (UnLockTable 7) (ls_lm s, txn) = (lm', txn', b) \<and> tx_state txn' = SHRINKING \<and>
      map lr_txn (lq_requests (queue_at lm' (table_id_of 7))) = [2])"
proof -
  let ?q = "\<lambda>s. queue_at (ls_lm s) (table_id_of 7)"
  have "\<exists>es s txn. schedule (sys_init False) [ABegin 1, ABegin 2, ALock 1 (LockTable SHARED 7), ALock 2 (LockTable SHARED 7)] = Some (es, s) \<and>
      ls_txns s 1 = Some txn \<and> ls_wait s 1 = None \<and> tx_state txn = GROWING \<and>
      (\<exists>r \<in> set (lq_requests (?q s)). lr_txn r = 1 \<and> lr_granted r) \<and>
      map lr_txn (filter (\<lambda>r. lr_txn r \<noteq> 1) (lq_requests (?q s))) = [2]"
    by (simp add: lock_eval)
  then obtain es s txn where s: "schedule (sys_init False) [ABegin 1, ABegin 2, ALock 1 (LockTable SHARED 7), ALock 2 (LockTable SHARED 7)] = Some (es, s)"
      "ls_txns s 1 = Some txn" "ls_wait s 1 = None" "tx_state txn = GROWING"
      "\<exists>r \<in> set (lq_requests (?q s)). lr_txn r = 1 \<and> lr_granted r"
      "map lr_txn (filter (\<lambda>r. lr_txn r \<noteq> 1) (lq_requests (?q s))) = [2]" by (elim exE conjE)
  from unlock_releases [OF schedule_run [OF s(1)] s(2,3), of "UnLockTable 7"] s show ?thesis by (auto split: if_splits)
qed

end
