(* ===== verification/ReleaseLocks.thy ===== *)
theory ReleaseLocks
  imports LockOutcomes
begin

text \<open>
  \<open>TransactionManager::ReleaseLocks\<close> (\<open>transaction_manager.cpp\<close>): twelve loops, one over each lock set of the
  transaction, that unlock every datum of the set. The order in which a loop goes through its
  \<open>unordered_set\<close> is an argument. Each unlock call removes its datum from the set that the loop is on, so the
  loop has the iterator of the next element before the call; no call adds to a set.
\<close>

section \<open>The loops\<close>

text \<open>The body of a loop reads the identifiers off the set element.\<close>

fun unlock_of :: "lock_data_type \<Rightarrow> lock_data_id \<Rightarrow> unlock_call" where
  "unlock_of TABLE l = UnLockTable (ld_oid l)"
| "unlock_of PARTITION l = UnLockPartition (ld_oid l) (ld_p_id l)"
| "unlock_of ROW l = UnLockRow (ld_oid l) (ld_p_id l) (ld_row_id l)"

fun run_unlocks :: "unlock_call list \<Rightarrow> lock_manager \<times> transaction \<Rightarrow> lock_manager \<times> transaction" where
  "run_unlocks [] s = s"
| "run_unlocks (u # us) s = (case run_unlock u s of (lm, txn, b) \<Rightarrow> run_unlocks us (lm, txn))"

definition release_set :: "(lock_data_type \<Rightarrow> lock_mode \<Rightarrow> lock_data_id list) \<Rightarrow> lock_data_type \<times> lock_mode \<Rightarrow>
    lock_manager \<times> transaction \<Rightarrow> lock_manager \<times> transaction" where
  "release_set order tm s = (case tm of (ty, m) \<Rightarrow>
     (case get_lock_set ty m (snd s) of
        None \<Rightarrow> s
      | Some S \<Rightarrow> run_unlocks (map (unlock_of ty) (filter (\<lambda>l. l \<in> S) (order ty m))) s))"

definition release_order :: "(lock_data_type \<times> lock_mode) list" where
  "release_order =
     [(ROW, SHARED), (ROW, EXLUCSIVE),
      (PARTITION, SHARED), (PARTITION, INTENTION_SHARED), (PARTITION, INTENTION_EXCLUSIVE), (PARTITION, S_IX), (PARTITION, EXLUCSIVE),
      (TABLE, SHARED), (TABLE, INTENTION_SHARED), (TABLE, INTENTION_EXCLUSIVE), (TABLE, S_IX), (TABLE, EXLUCSIVE)]"

definition release_locks :: "(lock_data_type \<Rightarrow> lock_mode \<Rightarrow> lock_data_id list) \<Rightarrow>
    lock_manager \<times> transaction \<Rightarrow> lock_manager \<times> transaction" where
  "release_locks order s = fold (release_set order) release_order s"

section \<open>Held data\<close>

text \<open>A lock set has only what the constructors of the lock calls make.\<close>

definition canonical :: "lock_data_id \<Rightarrow> bool" where
  "canonical l \<longleftrightarrow> unlock_data (unlock_of (ld_type l) l) = l"

definition canonical_sets :: "transaction \<Rightarrow> bool" where
  "canonical_sets txn \<longleftrightarrow> (\<forall>ty m S. get_lock_set ty m txn = Some S \<longrightarrow> (\<forall>l \<in> S. ld_type l = ty \<and> canonical l))"

lemma canonical_call: "canonical (call_data c)"
  by (cases c) (simp_all add: canonical_def table_id_of_def partition_id_of_def row_id_of_def)

lemma canonical_state [simp]:
  "canonical_sets (txn\<lparr>tx_state := st\<rparr>) = canonical_sets txn" "canonical_sets (abort_txn txn) = canonical_sets txn"
  by (simp_all add: canonical_sets_def abort_txn_def get_lock_set_def)

lemma canonical_new [simp]: "canonical_sets (transaction_new i lvl)"
proof -
  have "get_lock_set ty m (transaction_new i lvl) = Some S \<Longrightarrow> S = {}" for ty m S
    by (cases ty; cases m) (simp_all add: get_lock_set_def transaction_new_def)
  then show ?thesis by (auto simp: canonical_sets_def)
qed

lemma canonical_erase:
  assumes "canonical_sets txn"
  shows "canonical_sets (erase_lock m l txn)"
  unfolding canonical_sets_def
proof (intro allI impI ballI)
  fix ty m' S x
  assume "get_lock_set ty m' (erase_lock m l txn) = Some S" and x: "x \<in> S"
  then have "\<exists>S0. get_lock_set ty m' txn = Some S0 \<and> S \<subseteq> S0"
    by (auto simp: erase_lock_def get_lock_set_def locks_of_update split: if_splits)
  with x assms show "ld_type x = ty \<and> canonical x" unfolding canonical_sets_def by blast
qed

lemma canonical_fold_erase: "canonical_sets txn \<Longrightarrow> canonical_sets (fold (\<lambda>m. erase_lock m l) ms txn)"
  by (induction ms arbitrary: txn) (simp_all add: canonical_erase)

lemma holds_in_set:
  assumes "canonical_sets txn" and "get_lock_set ty m txn = Some S"
  shows "l \<in> S \<longleftrightarrow> ld_type l = ty \<and> holds txn m l"
proof
  assume l: "l \<in> S"
  then have "ld_type l = ty" using assms unfolding canonical_sets_def by blast
  then show "ld_type l = ty \<and> holds txn m l" using assms(2) l by (simp add: holds_def)
next
  assume "ld_type l = ty \<and> holds txn m l"
  then obtain S' where "get_lock_set ty m txn = Some S'" "l \<in> S'" by (auto simp: holds_def)
  then show "l \<in> S" using assms(2) by simp
qed

lemma canonical_add: "canonical l \<Longrightarrow> canonical_sets txn \<Longrightarrow> canonical_sets (add_lock_set m l txn)"
  unfolding canonical_sets_def add_lock_set_def get_lock_set_def
  by (auto simp: locks_of_update split: if_splits)

lemma canonical_note: "note_lock m l txn = Some txn1 \<Longrightarrow> canonical l \<Longrightarrow> canonical_sets txn \<Longrightarrow> canonical_sets txn1"
  by (auto simp: note_lock_def intro: canonical_add split: Option.bind_splits if_splits)

lemma canonical_wake:
  assumes "lock_wake m l w a (lm, txn) = Some (lm', txn', out)" and "canonical l" and "canonical_sets txn"
  shows "canonical_sets txn'"
proof -
  obtain r where r: "find_addr a (queue_at lm l) = Some r" using assms(1) by (auto simp: lock_wake_def split: Option.bind_splits)
  obtain b txn1 where w: "wait_ready (lm_no_wait lm) (queue_at lm l) r txn = (b, txn1)" by fastforce
  then have c1: "canonical_sets txn1" using assms(3) by (auto simp: wait_ready_def Let_def split: if_splits)
  show ?thesis
  proof (cases b)
    case True
    then have g: "lock_granted m l w a (lm, txn1) = Some (lm', txn', out)" using assms(1) r w by (simp add: lock_wake_def)
    show ?thesis
    proof (cases "tx_state txn1 = ABORTED")
      case True
      then have "txn' = abort_txn txn1" using g by (simp add: lock_granted_def)
      then show ?thesis using c1 by simp
    next
      case False
      then obtain txn2 where "(if w = WaitNew then Some (add_lock_set m l txn1) else note_lock m l txn1) = Some txn2" "txn' = txn2"
        using g by (auto simp: lock_granted_def Let_def split: Option.bind_splits)
      then show ?thesis using canonical_add [OF assms(2) c1] canonical_note [OF _ assms(2) c1] by (auto split: if_splits)
    qed
  next
    case False
    then show ?thesis using assms(1) r w c1 by (simp add: lock_wake_def)
  qed
qed

lemma canonical_acquire:
  assumes "acquire m l (lm, txn) = Some (lm', txn', out)" and "canonical l" and "canonical_sets txn"
  shows "canonical_sets txn'"
proof (cases "find (\<lambda>r. lr_txn r = tx_id txn) (lq_requests (queue_at lm l))")
  case None
  then show ?thesis using assms canonical_wake [OF _ assms(2,3)] by (simp add: acquire_def Let_def)
next
  case (Some r)
  then show ?thesis using assms canonical_wake [OF _ assms(2,3)] canonical_note [OF _ assms(2,3)]
    by (auto simp: acquire_def Let_def split: if_splits Option.bind_splits)
qed

lemma canonical_lock:
  assumes "run_lock c (lm, txn) = Some (lm', txn', out)" and "canonical_sets txn"
  shows "canonical_sets txn'"
proof -
  have "canonical_sets (start_growing txn)" using assms(2) by (simp add: start_growing_def)
  note a = canonical_acquire [OF _ canonical_call this]
  show ?thesis
    using assms a [of _ "LockTable _ _"] a [of _ "LockPartition _ _ _"] a [of _ "LockRow _ _ _ _"]
      \<open>canonical_sets (start_growing txn)\<close>
    by (cases c) (auto simp: lock_table_def lock_partition_def lock_row_def Let_def split: if_splits)
qed


lemma unlock_fields:
  assumes "unlock l (lm, txn) = (lm', txn', b)"
  shows "holds txn' m l' = holds txn m l'" and "tx_id txn' = tx_id txn"
    and "(\<exists>r \<in> set (lq_requests (queue_at lm l)). lr_txn r = tx_id txn \<and> lr_granted r) \<Longrightarrow>
      tx_state txn' = (if tx_state txn = GROWING then SHRINKING else tx_state txn)"
    and "tx_state txn = ABORTED \<Longrightarrow> tx_state txn' = ABORTED" and "canonical_sets txn \<Longrightarrow> canonical_sets txn'"
proof -
  have id: "tx_id (if tx_state txn = GROWING then txn\<lparr>tx_state := SHRINKING\<rparr> else txn) = tx_id txn" by simp
  have "txn' = (if tx_state txn = GROWING then txn\<lparr>tx_state := SHRINKING\<rparr> else txn) \<and> erase_granted (tx_id txn) (lq_requests (queue_at lm l)) \<noteq> None
      \<or> txn' = abort_txn (if tx_state txn = GROWING then txn\<lparr>tx_state := SHRINKING\<rparr> else txn) \<and> erase_granted (tx_id txn) (lq_requests (queue_at lm l)) = None"
    using assms unfolding unlock_def Let_def prod.case id by (auto split: option.splits)
  note t = this
  have "holds (if tx_state txn = GROWING then txn\<lparr>tx_state := SHRINKING\<rparr> else txn) m l' = holds txn m l'" by simp
  then show "holds txn' m l' = holds txn m l'" using t by (auto simp: abort_txn_def simp del: if_split)
  show "tx_id txn' = tx_id txn" using t by (auto simp: abort_txn_def)
  show "canonical_sets txn \<Longrightarrow> canonical_sets txn'" using t by (auto split: if_splits)
  show "tx_state txn = ABORTED \<Longrightarrow> tx_state txn' = ABORTED" using t by (auto simp: abort_txn_def)
  show "tx_state txn' = (if tx_state txn = GROWING then SHRINKING else tx_state txn)"
    if "\<exists>r \<in> set (lq_requests (queue_at lm l)). lr_txn r = tx_id txn \<and> lr_granted r"
    using t erase_granted_None that by auto
qed

lemma holds_fold_erase: "holds (fold (\<lambda>m. erase_lock m l) ms txn) m' l' \<longleftrightarrow> holds txn m' l' \<and> \<not> (l' = l \<and> m' \<in> set ms)"
  by (induction ms arbitrary: txn) (auto simp: holds_erase)

lemma fold_erase_fields [simp]:
  "tx_id (fold (\<lambda>m. erase_lock m l) ms txn) = tx_id txn" "tx_state (fold (\<lambda>m. erase_lock m l) ms txn) = tx_state txn"
  by (induction ms arbitrary: txn) simp_all

lemma run_unlock_cases:
  assumes "run_unlock u (lm, txn) = (lm', txn', b)"
  obtains ms txn1 b1 where "unlock (unlock_data u) (lm, txn) = (lm', txn1, b1)" "txn' = fold (\<lambda>m. erase_lock m (unlock_data u)) ms txn1"
    "\<forall>m. lockable (ld_type (unlock_data u)) m \<longrightarrow> m \<in> set ms"
proof -
  let ?all = "[SHARED, EXLUCSIVE, INTENTION_EXCLUSIVE, INTENTION_SHARED, S_IX]"
  have all: "m \<in> set ?all" for m :: lock_mode by (cases m) simp_all
  obtain lm1 txn1 b1 where l: "unlock (unlock_data u) (lm, txn) = (lm1, txn1, b1)" by (metis prod_cases3)
  show thesis
  proof (cases u)
    case (UnLockTable oid)
    then show thesis using assms l all by (intro that [of txn1 b1 ?all]) (auto simp: unlock_table_def Let_def)
  next
    case (UnLockPartition oid p_id)
    then show thesis using assms l all by (intro that [of txn1 b1 ?all]) (auto simp: unlock_partition_def Let_def)
  next
    case (UnLockRow oid p_id row)
    then show thesis using assms l
      by (intro that [of txn1 b1 "[SHARED, EXLUCSIVE]"]) (auto simp: unlock_row_def Let_def lockable_def row_id_of_def)
  qed
qed

lemma run_unlock_fields:
  assumes "run_unlock u (lm, txn) = (lm', txn', b)"
  shows "holds txn' m l \<longleftrightarrow> holds txn m l \<and> l \<noteq> unlock_data u" and "tx_id txn' = tx_id txn"
    and "(\<exists>r \<in> set (lq_requests (queue_at lm (unlock_data u))). lr_txn r = tx_id txn \<and> lr_granted r) \<Longrightarrow>
      tx_state txn' = (if tx_state txn = GROWING then SHRINKING else tx_state txn)"
    and "tx_state txn = ABORTED \<Longrightarrow> tx_state txn' = ABORTED" and "canonical_sets txn \<Longrightarrow> canonical_sets txn'"
proof -
  obtain ms txn1 b1 where u: "unlock (unlock_data u) (lm, txn) = (lm', txn1, b1)" "txn' = fold (\<lambda>m. erase_lock m (unlock_data u)) ms txn1"
    "\<forall>m. lockable (ld_type (unlock_data u)) m \<longrightarrow> m \<in> set ms" using run_unlock_cases [OF assms] by blast
  note f = unlock_fields [OF u(1)]
  show "holds txn' m l \<longleftrightarrow> holds txn m l \<and> l \<noteq> unlock_data u"
    using u(3) holds_lockable [of txn m l] by (auto simp: u(2) holds_fold_erase f(1))
  show "tx_id txn' = tx_id txn" by (simp add: u(2) f(2))
  show "tx_state txn' = (if tx_state txn = GROWING then SHRINKING else tx_state txn)"
    if "\<exists>r \<in> set (lq_requests (queue_at lm (unlock_data u))). lr_txn r = tx_id txn \<and> lr_granted r"
    using f(3) [OF that] by (simp add: u(2))
  show "tx_state txn' = ABORTED" if "tx_state txn = ABORTED" using f(4) [OF that] by (simp add: u(2))
  show "canonical_sets txn'" if "canonical_sets txn" using canonical_fold_erase [OF f(5) [OF that]] by (simp add: u(2))
qed

lemma reachable_canonical:
  assumes "sys_run (sys_init nw) es s"
  shows "\<forall>i txn. ls_txns s i = Some txn \<longrightarrow> canonical_sets txn"
proof -
  have step: "\<forall>i txn. ls_txns s' i = Some txn \<longrightarrow> canonical_sets txn"
    if "sys_step s e s'" and c: "\<forall>i txn. ls_txns s i = Some txn \<longrightarrow> canonical_sets txn" for s e s'
    using that(1)
  proof cases
    case (begin_txn i lvl)
    then show ?thesis using c by auto
  next
    case (lock_call i txn c' lm' txn' out)
    then have "canonical_sets txn'" using c canonical_lock by blast
    then show ?thesis using c lock_call(2) by auto
  next
    case (wake_up i txn c' w a lm' txn' out)
    then have "canonical_sets txn'" using c canonical_wake [OF _ canonical_call] by blast
    then show ?thesis using c wake_up(2) by auto
  next
    case (unlock_call i txn u lm' txn' b)
    then have "canonical_sets txn'" using c run_unlock_fields(5) by blast
    then show ?thesis using c unlock_call(2) by auto
  next
    case (set_state i txn st)
    then show ?thesis using c by auto
  qed
  have "sys_run s0 es s \<Longrightarrow> s0 = sys_init nw \<Longrightarrow> ?thesis" for s0
    by (induction rule: sys_run.induct) (use step in \<open>auto simp: sys_init_def\<close>)
  then show ?thesis using assms by blast
qed


section \<open>Releasing sets\<close>

text \<open>Between two unlock calls of an awake transaction.\<close>

definition releasing :: "txn_id \<Rightarrow> lock_manager \<times> transaction \<Rightarrow> bool" where
  "releasing i s \<longleftrightarrow> (case s of (lm, txn) \<Rightarrow> lm_ok lm \<and> agrees lm txn {} \<and> tx_id txn = i \<and> canonical_sets txn)"

text \<open>From \<open>s\<close> to \<open>s'\<close> only locks of \<open>i\<close> were released.\<close>

definition only_released :: "txn_id \<Rightarrow> lock_manager \<times> transaction \<Rightarrow> lock_manager \<times> transaction \<Rightarrow> bool" where
  "only_released i s s' \<longleftrightarrow> releasing i s' \<and>
     (\<forall>l. foreign i (queue_at (fst s') l) = foreign i (queue_at (fst s) l)) \<and>
     (\<forall>m l. holds (snd s') m l \<longrightarrow> holds (snd s) m l) \<and>
     (tx_state (snd s') = ABORTED \<longleftrightarrow> tx_state (snd s) = ABORTED)"

lemma only_released_refl: "releasing i s \<Longrightarrow> only_released i s s"
  by (simp add: only_released_def)

lemma only_released_trans: "only_released i s t \<Longrightarrow> only_released i t u \<Longrightarrow> only_released i s u"
  by (auto simp: only_released_def)

lemma unlock_held:
  assumes r: "releasing i (lm, txn)" and u: "run_unlock u (lm, txn) = (lm', txn', b)" and h: "\<exists>m. holds txn m (unlock_data u)"
  shows "only_released i (lm, txn) (lm', txn')" and "\<forall>m l. holds txn' m l \<longleftrightarrow> holds txn m l \<and> l \<noteq> unlock_data u"
proof -
  have g: "lm_ok lm" "agrees lm txn {}" "tx_id txn = i" "canonical_sets txn" using r by (simp_all add: releasing_def)
  note f = run_unlock_fields [OF u]
  have "release_effect (unlock_data u) (lm, txn) (lm', txn', b)" using run_unlock_effect [OF g(1,2), of u] u by simp
  then have e: "lm_ok lm'" "agrees lm' txn' {}" "\<forall>l. foreign i (queue_at lm' l) = foreign i (queue_at lm l)"
    by (simp_all add: release_effect_def g(3))
  have "tx_state txn' = ABORTED \<longleftrightarrow> tx_state txn = ABORTED"
  proof (cases "tx_state txn = ABORTED")
    case False
    then have "\<exists>r \<in> set (lq_requests (queue_at lm (unlock_data u))). lr_txn r = tx_id txn \<and> lr_granted r"
      using g(2) h unfolding agrees_def by blast
    then show ?thesis using f(3) False by simp
  qed (use f(4) in simp)
  moreover have "canonical_sets txn'" using g(4) f(5) by simp
  ultimately show "only_released i (lm, txn) (lm', txn')"
    using e f(1,2) g(3) by (simp add: only_released_def releasing_def)
  show "\<forall>m l. holds txn' m l \<longleftrightarrow> holds txn m l \<and> l \<noteq> unlock_data u" using f(1) by simp
qed

lemma run_unlocks_release:
  assumes "releasing i (lm, txn)" and "distinct (map unlock_data us)" and "\<forall>u \<in> set us. \<exists>m. holds txn m (unlock_data u)"
    and "run_unlocks us (lm, txn) = (lm', txn')"
  shows "only_released i (lm, txn) (lm', txn') \<and> (\<forall>m l. holds txn' m l \<longrightarrow> l \<notin> unlock_data ` set us)"
  using assms
proof (induction us arbitrary: lm txn)
  case Nil
  then show ?case using only_released_refl by simp
next
  case (Cons u us)
  obtain lm1 txn1 b where u: "run_unlock u (lm, txn) = (lm1, txn1, b)" by (metis prod_cases3)
  note h = unlock_held [OF Cons.prems(1) u]
  have held: "\<exists>m. holds txn m (unlock_data u)" using Cons.prems(3) by simp
  have r1: "releasing i (lm1, txn1)" using h(1) [OF held] by (simp add: only_released_def)
  have "\<forall>v \<in> set us. \<exists>m. holds txn1 m (unlock_data v)"
    using Cons.prems(2,3) h(2) [OF held] by (auto simp: image_iff)
  then have "only_released i (lm1, txn1) (lm', txn') \<and> (\<forall>m l. holds txn' m l \<longrightarrow> l \<notin> unlock_data ` set us)"
    using Cons.IH [OF r1] Cons.prems(2,4) u by simp
  then show ?case
    using only_released_trans [OF h(1) [OF held], of "(lm', txn')"] h(2) [OF held] unfolding only_released_def snd_conv by fastforce
qed

text \<open>A loop leaves nothing in its set.\<close>

definition enumerates :: "(lock_data_type \<Rightarrow> lock_mode \<Rightarrow> lock_data_id list) \<Rightarrow> transaction \<Rightarrow> bool" where
  "enumerates order txn \<longleftrightarrow> (\<forall>ty m. distinct (order ty m)) \<and> (\<forall>m l. holds txn m l \<longrightarrow> l \<in> set (order (ld_type l) m))"

lemma release_set_empties:
  assumes r: "releasing i (lm, txn)" and o: "enumerates order txn" and u: "release_set order (ty, m) (lm, txn) = (lm', txn')"
  shows "only_released i (lm, txn) (lm', txn') \<and> (\<forall>l. \<not> (ld_type l = ty \<and> holds txn' m l))"
proof (cases "get_lock_set ty m txn")
  case None
  then have "\<not> (ld_type l = ty \<and> holds txn m l)" for l by (auto simp: holds_def)
  then show ?thesis using u None only_released_refl [OF r] by (simp add: release_set_def)
next
  case (Some S)
  have c: "canonical_sets txn" using r by (simp add: releasing_def)
  let ?ls = "filter (\<lambda>l. l \<in> S) (order ty m)"
  have id: "unlock_data (unlock_of ty l) = l" if "l \<in> S" for l
  proof -
    have "ld_type l = ty" "canonical l" using c Some that unfolding canonical_sets_def by blast+
    then show ?thesis by (auto simp: canonical_def)
  qed
  then have ls: "map unlock_data (map (unlock_of ty) ?ls) = ?ls" by (induction "order ty m") (auto intro: map_idI)
  moreover have "distinct ?ls" using o by (simp add: enumerates_def)
  moreover have "\<forall>v \<in> set (map (unlock_of ty) ?ls). \<exists>m. holds txn m (unlock_data v)"
    using id holds_in_set [OF c Some] by auto
  moreover have "run_unlocks (map (unlock_of ty) ?ls) (lm, txn) = (lm', txn')" using u Some by (simp add: release_set_def)
  ultimately have e: "only_released i (lm, txn) (lm', txn') \<and> (\<forall>m l. holds txn' m l \<longrightarrow> l \<notin> unlock_data ` set (map (unlock_of ty) ?ls))"
    using run_unlocks_release [OF r, of "map (unlock_of ty) ?ls" lm' txn'] by simp
  moreover have "unlock_data ` set (map (unlock_of ty) ?ls) = set ?ls" using ls by (metis set_map)
  moreover have "l \<in> set ?ls" if "ld_type l = ty" "holds txn' m l" for l
    using that e holds_in_set [OF c Some, of l] o by (auto simp: enumerates_def only_released_def)
  ultimately show ?thesis by blast
qed

lemma release_sets_empty:
  assumes "releasing i (lm, txn)" and "enumerates order txn" and "fold (release_set order) tms (lm, txn) = (lm', txn')"
  shows "only_released i (lm, txn) (lm', txn') \<and> (\<forall>m l. holds txn' m l \<longrightarrow> (ld_type l, m) \<notin> set tms)"
  using assms
proof (induction tms arbitrary: lm txn)
  case Nil
  then show ?case using only_released_refl by simp
next
  case (Cons tm tms)
  obtain ty m where tm: "tm = (ty, m)" by (cases tm)
  obtain lm1 txn1 where u: "release_set order (ty, m) (lm, txn) = (lm1, txn1)" by fastforce
  note e = release_set_empties [OF Cons.prems(1,2) u]
  have "releasing i (lm1, txn1)" "enumerates order txn1"
    using e Cons.prems(2) by (auto simp: only_released_def enumerates_def)
  from Cons.IH [OF this] have r: "only_released i (lm1, txn1) (lm', txn')" "\<forall>m l. holds txn' m l \<longrightarrow> (ld_type l, m) \<notin> set tms"
    using Cons.prems(3) u tm by simp_all
  have "holds txn1 m' l" if "holds txn' m' l" for m' l using r(1) that by (simp add: only_released_def)
  then show ?case using only_released_trans [OF conjunct1 [OF e] r(1)] r(2) e tm by auto
qed

lemma release_order_all: "holds txn m l \<Longrightarrow> (ld_type l, m) \<in> set release_order"
  using holds_lockable [of txn m l] by (cases "ld_type l"; cases m; simp add: release_order_def lockable_def)

section \<open>As steps of the lock system\<close>

lemma run_unlocks_steps:
  assumes "ls_txns s i = Some txn" and "ls_wait s i = None" and "run_unlocks us (ls_lm s, txn) = (lm', txn')"
  shows "sys_run s (map (Unlocked i \<circ> unlock_data) us) (s\<lparr>ls_lm := lm', ls_txns := (ls_txns s)(i \<mapsto> txn')\<rparr>)"
  using assms
proof (induction us arbitrary: s txn)
  case Nil
  then have "s\<lparr>ls_lm := lm', ls_txns := (ls_txns s)(i \<mapsto> txn')\<rparr> = s" by (simp add: fun_upd_idem)
  with run_nil [of s] show ?case by (simp only: list.map)
next
  case (Cons u us)
  obtain lm1 txn1 b where u: "run_unlock u (ls_lm s, txn) = (lm1, txn1, b)" by (metis prod_cases3)
  let ?s1 = "s\<lparr>ls_lm := lm1, ls_txns := (ls_txns s)(i \<mapsto> txn1)\<rparr>"
  have "sys_run s ([] @ [Unlocked i (unlock_data u)]) ?s1"
    by (rule run_snoc [OF run_nil unlock_call [OF Cons.prems(1,2) u]])
  moreover have "sys_run ?s1 (map (Unlocked i \<circ> unlock_data) us) (?s1\<lparr>ls_lm := lm', ls_txns := (ls_txns ?s1)(i \<mapsto> txn')\<rparr>)"
    using Cons.prems(2,3) u by (intro Cons.IH [of ?s1 txn1]) simp_all
  ultimately have "sys_run s (([] @ [Unlocked i (unlock_data u)]) @ map (Unlocked i \<circ> unlock_data) us)
      (?s1\<lparr>ls_lm := lm', ls_txns := (ls_txns ?s1)(i \<mapsto> txn')\<rparr>)" by (rule run_append [rotated])
  moreover have "?s1\<lparr>ls_lm := lm', ls_txns := (ls_txns ?s1)(i \<mapsto> txn')\<rparr> = s\<lparr>ls_lm := lm', ls_txns := (ls_txns s)(i \<mapsto> txn')\<rparr>" by simp
  ultimately show ?case by (simp only: append_Nil append_Cons list.map comp_def)
qed

lemma release_set_unlocks: "\<exists>us. release_set order tm s = run_unlocks us s"
  by (cases tm) (auto simp: release_set_def intro: exI [of _ "[]"] split: option.splits)

lemma run_unlocks_append: "run_unlocks (us @ vs) s = run_unlocks vs (run_unlocks us s)"
  by (induction us arbitrary: s) (auto split: prod.splits)

lemma release_unlocks: "\<exists>us. fold (release_set order) tms s = run_unlocks us s"
proof (induction tms arbitrary: s)
  case Nil
  show ?case by (rule exI [of _ "[]"]) simp
next
  case (Cons tm tms)
  obtain us vs where "release_set order tm s = run_unlocks us s" "fold (release_set order) tms (run_unlocks us s) = run_unlocks vs (run_unlocks us s)"
    using release_set_unlocks Cons.IH by metis
  then have "fold (release_set order) (tm # tms) s = run_unlocks (us @ vs) s" by (simp add: run_unlocks_append)
  then show ?case by blast
qed

text \<open>C36. \<open>ReleaseLocks\<close>, called for an awake transaction in any reachable state, empties all twelve lock sets and
  leaves no granted request of the transaction in any queue. It keeps the requests of all others, aborts
  no transaction, and is a sequence of unlock steps of the lock system.\<close>

theorem release_locks_releases_all:
  assumes "sys_run (sys_init nw) es s" and "ls_txns s i = Some txn" and "ls_wait s i = None" and "enumerates order txn"
  shows "\<exists>lm' txn' ls. release_locks order (ls_lm s, txn) = (lm', txn') \<and> (\<forall>m l. \<not> holds txn' m l) \<and>
    (\<forall>l. \<forall>r \<in> set (lq_requests (queue_at lm' l)). \<not> (lr_txn r = i \<and> lr_granted r)) \<and>
    (\<forall>l. foreign i (queue_at lm' l) = foreign i (queue_at (ls_lm s) l)) \<and>
    (tx_state txn' = ABORTED \<longleftrightarrow> tx_state txn = ABORTED) \<and>
    sys_run (sys_init nw) (es @ map (Unlocked i) ls) (s\<lparr>ls_lm := lm', ls_txns := (ls_txns s)(i \<mapsto> txn')\<rparr>)"
proof -
  note a = awake_txn [OF assms(1-3)]
  have r: "releasing i (ls_lm s, txn)"
    using a reachable_canonical [OF assms(1)] assms(2) by (simp add: releasing_def)
  obtain lm' txn' where e: "release_locks order (ls_lm s, txn) = (lm', txn')" by fastforce
  then have "only_released i (ls_lm s, txn) (lm', txn')" "\<forall>m l. holds txn' m l \<longrightarrow> (ld_type l, m) \<notin> set release_order"
    using release_sets_empty [OF r assms(4)] by (simp_all add: release_locks_def)
  then have o: "only_released i (ls_lm s, txn) (lm', txn')" "\<forall>m l. \<not> holds txn' m l" using release_order_all by blast+
  have g: "\<not> (lr_txn r = i \<and> lr_granted r)" if "r \<in> set (lq_requests (queue_at lm' l))" for l r
    using o that by (auto simp: only_released_def releasing_def agrees_def)
  obtain us where "run_unlocks us (ls_lm s, txn) = (lm', txn')" using release_unlocks e unfolding release_locks_def by metis
  then have "sys_run (sys_init nw) (es @ map (Unlocked i) (map unlock_data us)) (s\<lparr>ls_lm := lm', ls_txns := (ls_txns s)(i \<mapsto> txn')\<rparr>)"
    using run_append [OF run_unlocks_steps [OF assms(2,3)] assms(1)] by simp
  then show ?thesis using e o g unfolding only_released_def fst_conv snd_conv by blast
qed


fun demo_set_order :: "lock_data_type \<Rightarrow> lock_mode \<Rightarrow> lock_data_id list" where
  "demo_set_order TABLE m = (if m = INTENTION_EXCLUSIVE then [table_id_of 7] else [])"
| "demo_set_order PARTITION m = (if m = EXLUCSIVE then [partition_id_of 7 3, partition_id_of 7 2] else [])"
| "demo_set_order ROW m = []"

theorem release_locks_releases_all_witness:
  "\<exists>es s txn lm' txn'. schedule (sys_init True) [ABegin 1, ALock 1 (LockTable INTENTION_EXCLUSIVE 7),
      ALock 1 (LockPartition EXLUCSIVE 7 3)] = Some (es, s) \<and> ls_txns s 1 = Some txn \<and> holds txn EXLUCSIVE (partition_id_of 7 3) \<and>
    release_locks demo_set_order (ls_lm s, txn) = (lm', txn') \<and> (\<forall>m l. \<not> holds txn' m l)"
proof -
  let ?as = "[ABegin 1, ALock 1 (LockTable INTENTION_EXCLUSIVE 7), ALock 1 (LockPartition EXLUCSIVE 7 3)]"
  have "\<exists>es s txn. schedule (sys_init True) ?as = Some (es, s) \<and> ls_txns s 1 = Some txn \<and> ls_wait s 1 = None \<and>
      tx_locks txn = (tx_locks (transaction_new 1 SERIALIZABLE))\<lparr>table_IX_lock_set := {table_id_of 7}, partition_X_lock_set := {partition_id_of 7 3}\<rparr>"
    by (simp add: lock_eval)
  then obtain es s txn where s: "schedule (sys_init True) ?as = Some (es, s)" "ls_txns s 1 = Some txn" "ls_wait s 1 = None"
    "tx_locks txn = (tx_locks (transaction_new 1 SERIALIZABLE))\<lparr>table_IX_lock_set := {table_id_of 7}, partition_X_lock_set := {partition_id_of 7 3}\<rparr>"
    by (elim exE conjE)
  have h: "holds txn m l \<Longrightarrow> m = INTENTION_EXCLUSIVE \<and> l = table_id_of 7 \<or> m = EXLUCSIVE \<and> l = partition_id_of 7 3" for m l
    unfolding holds_def get_lock_set_def s(4) by (cases "ld_type l"; cases m) (simp_all add: transaction_new_def)
  have d: "distinct (demo_set_order ty m)" for ty m by (cases ty) (simp_all add: partition_id_of_def)
  have "enumerates demo_set_order txn"
    unfolding enumerates_def
  proof (intro conjI allI impI d)
    fix m l assume "holds txn m l"
    from h [OF this] show "l \<in> set (demo_set_order (ld_type l) m)" by (auto simp: table_id_of_def partition_id_of_def)
  qed
  moreover have "holds txn EXLUCSIVE (partition_id_of 7 3)"
    by (simp add: holds_def get_lock_set_def s(4) partition_id_of_def)
  ultimately show ?thesis using release_locks_releases_all [OF schedule_run [OF s(1)] s(2,3)] s(1,2) by blast
qed

end
