(* ===== verification/Recovery.thy ===== *)
theory Recovery
  imports TxnStore
begin

text \<open>
  \<open>RecoveryManager\<close> (\<open>include/recovery/recovery_manager.h\<close>, \<open>src/recovery/recovery_manager.cpp\<close>): \<open>Redo\<close>
  replays the log file on a store, \<open>Undo\<close> takes back the writes of the transactions that did not end.

  The buffer is the object \<open>buffer_\<close>: a read behind its end is \<open>None\<close>. The constructor leaves the pointer \<open>kv_\<close> uninitialised and no
  code sets it, so it is \<open>None\<close>, and as constructed Redo is undefined on every log with a write record
  (\<open>redo_without_store\<close>). \<open>attach_store\<close> is the assignment that the class lacks; what Redo and Undo do is stated for a
  manager with a store attached. An \<open>unordered_map\<close> is a map; \<open>order\<close> is the order in which the last loop of \<open>Undo\<close>
  meets the entries of \<open>active_txn_\<close>. \<open>draw l\<close> is what the random engine of the memtable draws for the
  record with LSN \<open>l\<close>, and \<open>j\<close> the number of steps that the flush thread makes while an append waits.
\<close>

record recovery =
  rv_buf :: bytes
  rv_kv :: "kv_store option"
  rv_log :: log_mgr
  rv_active :: "txn_id \<rightharpoonup> lsn"
  rv_map :: "lsn \<rightharpoonup> nat \<times> 32 word"

section \<open>Redo\<close>

definition max_signed :: "lsn \<Rightarrow> lsn \<Rightarrow> lsn" where
  "max_signed a b = (if sint a < sint b then b else a)"

text \<open>\<open>std::string(log.GetKey(), log.GetKeySize())\<close>, and the same for the value.\<close>

definition key_of :: "log_record \<Rightarrow> bytes" where
  "key_of r = take (unat (rec_key_size r)) (rec_key r)"

definition value_of :: "log_record \<Rightarrow> bytes" where
  "value_of r = take (unat (rec_value_size r)) (rec_value r)"

definition redo_log :: "(bytes \<Rightarrow> bytes) \<Rightarrow> (bytes \<Rightarrow> bytes) \<Rightarrow> (lsn \<Rightarrow> nat) \<Rightarrow> log_record \<Rightarrow> recovery \<Rightarrow> recovery option" where
  "redo_log snap unsnap draw r st =
     (let st1 = st\<lparr>rv_active := (rv_active st)(rec_txn r \<mapsto> rec_lsn r)\<rparr> in
      case rec_type r of
        COMMIT_REC \<Rightarrow> Some (st1\<lparr>rv_active := (rv_active st1)(rec_txn r := None)\<rparr>)
      | ABORT_REC \<Rightarrow> Some (st1\<lparr>rv_active := (rv_active st1)(rec_txn r := None)\<rparr>)
      | BEGIN_REC \<Rightarrow> Some (st1\<lparr>rv_active := (rv_active st1)(rec_txn r \<mapsto> rec_lsn r)\<rparr>)
      | INSERT_REC \<Rightarrow> do {
          s \<leftarrow> rv_kv st1;
          kv \<leftarrow> kv_put snap (draw (rec_lsn r)) s (key_of r) (value_of r);
          Some (st1\<lparr>rv_kv := Some kv\<rparr>) }
      | DELETE_REC \<Rightarrow> do {
          s \<leftarrow> rv_kv st1;
          (b, kv) \<leftarrow> kv_del unsnap (draw (rec_lsn r)) s (key_of r);
          Some (st1\<lparr>rv_kv := Some kv\<rparr>) }
      | _ \<Rightarrow> Some st1)"

text \<open>One round of the inner loop, after the probe of the size; with the largest LSN so far.\<close>

definition redo_record :: "(bytes \<Rightarrow> bytes) \<Rightarrow> (bytes \<Rightarrow> bytes) \<Rightarrow> (lsn \<Rightarrow> nat) \<Rightarrow> nat \<Rightarrow> 32 word \<Rightarrow> log_record \<Rightarrow>
    lsn \<times> recovery \<Rightarrow> (lsn \<times> recovery) option" where
  "redo_record snap unsnap draw pos n r s = (case s of (m, st) \<Rightarrow> do {
     st1 \<leftarrow> redo_log snap unsnap draw r (st\<lparr>rv_map := (rv_map st)(rec_lsn r \<mapsto> (pos, n))\<rparr>);
     Some (max_signed m (rec_lsn r), st1) })"

partial_function (option) redo_inner :: "(bytes \<Rightarrow> bytes) \<Rightarrow> (bytes \<Rightarrow> bytes) \<Rightarrow> (lsn \<Rightarrow> nat) \<Rightarrow> bool \<Rightarrow> nat \<Rightarrow> nat \<Rightarrow>
    lsn \<times> recovery \<Rightarrow> (nat \<times> lsn \<times> recovery) option" where
  "redo_inner snap unsnap draw ndebug offset inner s = do {
     n \<leftarrow> read_u32 (rv_buf (snd s)) inner;
     (if n = 0 \<or> of_nat log_buffer_size < n + of_nat inner then Some (inner, s)
      else do {
        r \<leftarrow> deserialize ndebug (rv_buf (snd s)) inner;
        s1 \<leftarrow> redo_record snap unsnap draw (offset + inner) n r s;
        redo_inner snap unsnap draw ndebug offset (inner + unat n) s1 }) }"

text \<open>The outer loop; \<open>offset\<close> is an \<open>int\<close>, and beyond its range the behaviour is undefined.\<close>

partial_function (option) redo_loop :: "(bytes \<Rightarrow> bytes) \<Rightarrow> (bytes \<Rightarrow> bytes) \<Rightarrow> (lsn \<Rightarrow> nat) \<Rightarrow> bool \<Rightarrow> nat \<Rightarrow>
    lsn \<times> recovery \<Rightarrow> (lsn \<times> recovery) option" where
  "redo_loop snap unsnap draw ndebug offset s =
     (case read_log (lg_file (rv_log (snd s))) log_buffer_size offset of
        None \<Rightarrow> Some s
      | Some buf \<Rightarrow> do {
          (inner, s1) \<leftarrow> redo_inner snap unsnap draw ndebug offset 0 (fst s, (snd s)\<lparr>rv_buf := buf\<rparr>);
          (if 2 ^ 31 \<le> offset + inner then None else redo_loop snap unsnap draw ndebug (offset + inner) s1) })"

definition redo :: "(bytes \<Rightarrow> bytes) \<Rightarrow> (bytes \<Rightarrow> bytes) \<Rightarrow> (lsn \<Rightarrow> nat) \<Rightarrow> bool \<Rightarrow> recovery \<Rightarrow> recovery option" where
  "redo snap unsnap draw ndebug st = do {
     (m, st1) \<leftarrow> redo_loop snap unsnap draw ndebug 0 (invalid_lsn, st);
     Some (st1\<lparr>rv_log := set_next_lsn (m + 1) (rv_log st1)\<rparr>) }"

section \<open>Undo\<close>

text \<open>The compensation: the record written for an undone insert is a delete, and the other way round.\<close>

definition undo_write :: "nat \<Rightarrow> log_record_type \<Rightarrow> log_record \<Rightarrow> recovery \<Rightarrow> recovery option" where
  "undo_write j ty r st = do {
     let prev = (case rv_active st (rec_txn r) of Some l \<Rightarrow> l | None \<Rightarrow> 0);
     (log, l) \<leftarrow> append_call j (record_data (rec_txn r) prev ty (rec_key_size r) (rec_key r) (rec_value_size r) (rec_value r)) (rv_log st);
     Some (st\<lparr>rv_log := log, rv_active := (rv_active st)(rec_txn r \<mapsto> l)\<rparr>) }"

definition undo_log :: "(bytes \<Rightarrow> bytes) \<Rightarrow> (bytes \<Rightarrow> bytes) \<Rightarrow> (lsn \<Rightarrow> nat) \<Rightarrow> nat \<Rightarrow> log_record \<Rightarrow> recovery \<Rightarrow> recovery option" where
  "undo_log snap unsnap draw j r st =
     (case rec_type r of
        INSERT_REC \<Rightarrow> do {
          s \<leftarrow> rv_kv st;
          (b, kv) \<leftarrow> kv_del unsnap (draw (rec_lsn r)) s (key_of r);
          undo_write j DELETE_REC r (st\<lparr>rv_kv := Some kv\<rparr>) }
      | DELETE_REC \<Rightarrow> do {
          s \<leftarrow> rv_kv st;
          kv \<leftarrow> kv_put snap (draw (rec_lsn r)) s (key_of r) (key_of r);
          undo_write j INSERT_REC r (st\<lparr>rv_kv := Some kv\<rparr>) }
      | _ \<Rightarrow> Some st)"

text \<open>\<open>ReadLog(buffer_, size, offset)\<close> fills the first \<open>size\<close> bytes of the buffer, if there is anything to read.\<close>

definition read_into :: "bytes \<Rightarrow> 32 word \<Rightarrow> nat \<Rightarrow> bytes \<Rightarrow> bytes option" where
  "read_into file n offset buf =
     (case read_log file (unat n) offset of
        None \<Rightarrow> Some buf
      | Some got \<Rightarrow> if unat n \<le> length buf then Some (got @ drop (unat n) buf) else None)"

text \<open>\<open>*next_lsn.rbegin()\<close>\<close>

definition last_element :: "lsn set \<Rightarrow> lsn" where
  "last_element S = word_of_int (Max (sint ` S))"

partial_function (option) undo_loop :: "(bytes \<Rightarrow> bytes) \<Rightarrow> (bytes \<Rightarrow> bytes) \<Rightarrow> (lsn \<Rightarrow> nat) \<Rightarrow> nat \<Rightarrow> bool \<Rightarrow> lsn set \<Rightarrow>
    recovery \<Rightarrow> recovery option" where
  "undo_loop snap unsnap draw j ndebug next st =
     (if next = {} then Some st
      else do {
        let l = last_element next;
        let (offset, n) = (case rv_map st l of Some e \<Rightarrow> e | None \<Rightarrow> (0, 0));
        buf \<leftarrow> read_into (lg_file (rv_log st)) n offset (rv_buf st);
        r \<leftarrow> deserialize ndebug buf 0;
        st1 \<leftarrow> undo_log snap unsnap draw j r (st\<lparr>rv_map := (rv_map st)(l \<mapsto> (offset, n)), rv_buf := buf\<rparr>);
        let rest = next - {l};
        undo_loop snap unsnap draw j ndebug (if rec_prev r \<noteq> invalid_lsn then insert (rec_prev r) rest else rest) st1 })"

fun abort_all :: "nat \<Rightarrow> bool \<Rightarrow> txn_id list \<Rightarrow> recovery \<Rightarrow> recovery option" where
  "abort_all j ndebug [] st = Some st"
| "abort_all j ndebug (i # order) st = do {
     l \<leftarrow> rv_active st i;
     r \<leftarrow> record_control ndebug i l ABORT_REC;
     (log, l') \<leftarrow> append_call j r (rv_log st);
     abort_all j ndebug order (st\<lparr>rv_log := log\<rparr>) }"

definition undo :: "(bytes \<Rightarrow> bytes) \<Rightarrow> (bytes \<Rightarrow> bytes) \<Rightarrow> (lsn \<Rightarrow> nat) \<Rightarrow> nat \<Rightarrow> bool \<Rightarrow> txn_id list \<Rightarrow> recovery \<Rightarrow> recovery option" where
  "undo snap unsnap draw j ndebug order st = do {
     st1 \<leftarrow> undo_loop snap unsnap draw j ndebug (ran (rv_active st)) st;
     abort_all j ndebug order st1 }"

definition aries :: "(bytes \<Rightarrow> bytes) \<Rightarrow> (bytes \<Rightarrow> bytes) \<Rightarrow> (lsn \<Rightarrow> nat) \<Rightarrow> nat \<Rightarrow> bool \<Rightarrow> txn_id list \<Rightarrow> recovery \<Rightarrow> recovery option" where
  "aries snap unsnap draw j ndebug order st = do {
     st1 \<leftarrow> redo snap unsnap draw ndebug st;
     undo snap unsnap draw j ndebug order st1 }"

text \<open>The constructor: \<open>buf\<close> is the content of the new buffer, which is not initialised, and so is \<open>kv_\<close>.\<close>

definition recovery_new :: "bytes \<Rightarrow> log_mgr \<Rightarrow> recovery" where
  "recovery_new buf log = \<lparr>rv_buf = buf, rv_kv = None, rv_log = log, rv_active = Map.empty, rv_map = Map.empty\<rparr>"

text \<open>What the code lacks.\<close>

definition attach_store :: "kv_store \<Rightarrow> recovery \<Rightarrow> recovery" where
  "attach_store kv st = st\<lparr>rv_kv := Some kv\<rparr>"

text \<open>What the attached store answers.\<close>

definition recovered_get :: "(bytes \<Rightarrow> bytes) \<Rightarrow> recovery \<Rightarrow> bytes \<Rightarrow> (bool \<times> bytes) option" where
  "recovered_get unsnap st k = do { kv \<leftarrow> rv_kv st; kv_get unsnap kv k }"

text \<open>The manager has a store, and that stands for \<open>a\<close>.\<close>

definition store_rep :: "(bytes \<Rightarrow> bytes) \<Rightarrow> recovery \<Rightarrow> kv_abst \<Rightarrow> bool" where
  "store_rep snap st a \<longleftrightarrow> (\<exists>kv. rv_kv st = Some kv \<and> kv_rep snap kv a)"

lemma recovered_get_rep:
  assumes "snappy_ok snap unsnap" and "store_rep snap st a"
  shows "recovered_get unsnap st k = Some (visible a k \<noteq> [], visible a k)"
proof -
  obtain kv where kv: "rv_kv st = Some kv" "kv_rep snap kv a" using assms(2) by (auto simp: store_rep_def)
  from kv_get_rep [OF assms(1) kv(2), of k] kv(1) show ?thesis by (simp add: recovered_get_def)
qed

section \<open>Redo replays the log\<close>

text \<open>The records one after the other, without buffers, with the place of each.\<close>

fun redo_recs :: "(bytes \<Rightarrow> bytes) \<Rightarrow> (bytes \<Rightarrow> bytes) \<Rightarrow> (lsn \<Rightarrow> nat) \<Rightarrow> nat \<Rightarrow> log_record list \<Rightarrow>
    lsn \<times> recovery \<Rightarrow> (lsn \<times> recovery) option" where
  "redo_recs snap unsnap draw pos [] s = Some s"
| "redo_recs snap unsnap draw pos (r # rs) s = do {
     s1 \<leftarrow> redo_record snap unsnap draw pos (rec_size r) r s;
     redo_recs snap unsnap draw (pos + unat (rec_size r)) rs s1 }"

lemma redo_recs_append:
  "redo_recs snap unsnap draw pos (rs @ qs) s =
    do { s1 \<leftarrow> redo_recs snap unsnap draw pos rs s; redo_recs snap unsnap draw (pos + (\<Sum>r \<leftarrow> rs. unat (rec_size r))) qs s1 }"
  by (induction rs arbitrary: pos s) (auto simp: add.assoc split: Option.bind_splits)

text \<open>What replaying does not touch.\<close>

definition same_io :: "recovery \<Rightarrow> recovery \<Rightarrow> bool" where
  "same_io st st' \<longleftrightarrow> rv_buf st' = rv_buf st \<and> rv_log st' = rv_log st"

definition with_buf :: "bytes \<Rightarrow> lsn \<times> recovery \<Rightarrow> lsn \<times> recovery" where
  "with_buf buf s = (fst s, (snd s)\<lparr>rv_buf := buf\<rparr>)"

lemma redo_record_io: "redo_record snap unsnap draw pos n r s = Some s' \<Longrightarrow> same_io (snd s) (snd s')"
  by (cases "rec_type r")
    (auto simp: redo_record_def redo_log_def same_io_def Let_def split: Option.bind_splits prod.splits)

lemma redo_record_buf:
  "redo_record snap unsnap draw pos n r (with_buf buf s) = map_option (with_buf buf) (redo_record snap unsnap draw pos n r s)"
  by (cases "rec_type r")
    (auto simp: redo_record_def redo_log_def with_buf_def Let_def split: Option.bind_splits prod.splits)

lemma redo_recs_io: "redo_recs snap unsnap draw pos rs s = Some s' \<Longrightarrow> same_io (snd s) (snd s')"
proof (induction rs arbitrary: pos s)
  case (Cons r rs)
  then obtain s1 where "redo_record snap unsnap draw pos (rec_size r) r s = Some s1"
      "redo_recs snap unsnap draw (pos + unat (rec_size r)) rs s1 = Some s'" by (auto split: Option.bind_splits)
  with Cons.IH redo_record_io show ?case by (fastforce simp: same_io_def)
qed (simp add: same_io_def)

lemma redo_recs_buf:
  "redo_recs snap unsnap draw pos rs (with_buf buf s) = map_option (with_buf buf) (redo_recs snap unsnap draw pos rs s)"
  by (induction rs arbitrary: pos s) (auto simp: redo_record_buf Option.bind_map_option comp_def map_option_bind)

lemma length_image: "record_ok r \<Longrightarrow> record_image r = Some (image_of r) \<and> length (image_of r) = unat (rec_size r)"
  using record_image_ok [of r] by (auto simp: image_of_def)

lemma record_size_ok:
  assumes "record_ok r"
  shows "24 \<le> unat (rec_size r)" "unat (rec_size r) < 2 ^ 31" "\<exists>rest. image_of r = header_image r @ rest"
proof -
  have i: "record_image r = Some (image_of r)" "length (image_of r) = unat (rec_size r)" using length_image [OF assms] by auto
  then show "\<exists>rest. image_of r = header_image r @ rest"
    unfolding record_image_def by (metis (no_types, lifting) append_Nil2 bind_eq_Some_conv option.inject)
  then show "24 \<le> unat (rec_size r)" using i(2) by auto
  show "unat (rec_size r) < 2 ^ 31" using record_image_ok [OF assms] by auto
qed

text \<open>A probe at the end of the buffer reads behind it.\<close>

definition probe_ok :: "nat \<Rightarrow> bool" where
  "probe_ok inner \<longleftrightarrow> inner + 4 \<le> log_buffer_size"

lemma probe_zeros: "4 \<le> n \<Longrightarrow> read_u32 (pre @ replicate n 0) (length pre) = Some 0"
proof -
  assume "4 \<le> n"
  moreover from this have "le_value (take 4 (replicate n 0)) = 0" by (auto simp: take_replicate numeral_eq_Suc)
  ultimately show ?thesis by (simp add: read_u32_def read_le_def)
qed

lemma read_u32_take: "off + 4 \<le> n \<Longrightarrow> n \<le> length xs \<Longrightarrow> read_u32 (take n xs) off = read_u32 xs off"
  by (simp add: read_u32_def read_le_def drop_take)

text \<open>The records of \<open>rs\<close> that lie as a whole in the next \<open>room\<close> bytes.\<close>

fun in_window :: "nat \<Rightarrow> log_record list \<Rightarrow> log_record list" where
  "in_window room [] = []"
| "in_window room (r # rs) =
     (if length (image_of r) \<le> room then r # in_window (room - length (image_of r)) rs else [])"

lemma in_window_prefix: "\<exists>bs. rs = in_window room rs @ bs"
  by (induction room rs rule: in_window.induct) auto

lemma in_window_room: "length (images (in_window room rs)) \<le> room"
  by (induction room rs rule: in_window.induct) auto

lemma probe_end: "length buf < off + 4 \<Longrightarrow> read_u32 buf off = None"
  by (simp add: read_u32_def read_le_def)

text \<open>The inner loop reads records up to the end of the log, or up to the first that does not lie in the
  buffer as a whole. It then probes the size of the next one, which is undefined if less than four bytes of the buffer are left.\<close>

lemma redo_inner_recs:
  assumes "\<forall>r \<in> set qs. comes_back r" and "rv_buf (snd s) = take log_buffer_size (pre @ images qs @ replicate log_buffer_size 0)"
    and "length pre \<le> log_buffer_size"
  shows "redo_inner snap unsnap draw True offset (length pre) s =
    (if probe_ok (length pre + length (images (in_window (log_buffer_size - length pre) qs)))
     then map_option (Pair (length pre + length (images (in_window (log_buffer_size - length pre) qs))))
       (redo_recs snap unsnap draw (offset + length pre) (in_window (log_buffer_size - length pre) qs) s)
     else None)"
  using assms
proof (induction qs arbitrary: pre s)
  case Nil
  show ?case
  proof (cases "probe_ok (length pre)")
    case True
    then have "read_u32 (rv_buf (snd s)) (length pre) = Some 0"
      using probe_zeros [of "log_buffer_size - length pre" pre] Nil.prems(2) by (simp add: probe_ok_def take_replicate)
    with True show ?thesis using Nil.prems(3) by (simp add: redo_inner.simps)
  next
    case False
    then have "read_u32 (rv_buf (snd s)) (length pre) = None"
      using Nil.prems(2) by (intro probe_end) (simp add: probe_ok_def)
    with False show ?thesis by (simp add: redo_inner.simps)
  qed
next
  case (Cons r qs)
  let ?L = log_buffer_size and ?n = "unat (rec_size r)"
  have cb: "comes_back r" using Cons.prems(1) by simp
  note ok = comes_back_ok [OF cb]
  have r: "record_image r = Some (image_of r)" "length (image_of r) = ?n" "24 \<le> ?n" "?n < 2 ^ 31"
    using length_image [OF ok] record_size_ok [OF ok] by auto
  obtain rest where h: "image_of r = header_image r @ rest" using record_size_ok(3) [OF ok] by auto
  show ?case
  proof (cases "length pre + 4 \<le> ?L")
    case False
    then have "read_u32 (rv_buf (snd s)) (length pre) = None"
      using Cons.prems(2) by (intro probe_end) simp
    moreover have "\<not> ?n \<le> ?L - length pre" using False r(3) by linarith
    ultimately show ?thesis using False r(2) by (simp add: redo_inner.simps probe_ok_def)
  next
    case p: True
    have "read_u32 (rv_buf (snd s)) (length pre) = read_u32 (pre @ images (r # qs) @ replicate ?L 0) (length pre)"
      unfolding Cons.prems(2) by (rule read_u32_take [OF p]) simp
    also have "\<dots> = Some (rec_size r)" using header_reads(1) [of pre r "rest @ images qs @ replicate ?L 0"] by (simp add: h)
    finally have size: "read_u32 (rv_buf (snd s)) (length pre) = Some (rec_size r)" .
    have "rec_size r + of_nat (length pre) = of_nat (?n + length pre)" by simp
    moreover have "unat (of_nat (?n + length pre) :: 32 word) = ?n + length pre" "unat (of_nat ?L :: 32 word) = ?L"
      using r(4) Cons.prems(3) by (intro unat_small; simp add: log_buffer_size_def)+
    ultimately have big: "of_nat ?L < rec_size r + of_nat (length pre) \<longleftrightarrow> ?L < length pre + ?n"
      unfolding word_less_nat_alt by (simp only: add.commute)
    have nz: "rec_size r \<noteq> 0" using r(3) by auto
    show ?thesis
    proof (cases "?L < length pre + ?n")
      case True
      then have "\<not> ?n \<le> ?L - length pre" using Cons.prems(3) by linarith
      with True show ?thesis using size big nz r(2) p by (simp add: redo_inner.simps probe_ok_def)
    next
      case False
      have "rv_buf (snd s) = pre @ image_of r @ take (?L - length pre - ?n) (images qs @ replicate ?L 0)"
        using False Cons.prems(2,3) r(2) by simp
      then have des: "deserialize True (rv_buf (snd s)) (length pre) = Some r"
        using deserialize_image [OF cb r(1), of True pre "take (?L - length pre - ?n) (images qs @ replicate ?L 0)"] by simp
      have step: "redo_inner snap unsnap draw True offset (length pre) s = do {
          s1 \<leftarrow> redo_record snap unsnap draw (offset + length pre) (rec_size r) r s;
          redo_inner snap unsnap draw True offset (length (pre @ image_of r)) s1 }"
        using size big nz des False r(2) by (subst redo_inner.simps) simp
      show ?thesis
      proof (cases "redo_record snap unsnap draw (offset + length pre) (rec_size r) r s")
        case None
        moreover have "?n \<le> ?L - length pre" using False by linarith
        ultimately show ?thesis using step r(2) by simp
      next
        case (Some s1)
        have buf: "rv_buf (snd s1) = take ?L ((pre @ image_of r) @ images qs @ replicate ?L 0)"
          using redo_record_io [OF Some] Cons.prems(2) by (simp add: same_io_def)
        have "length (pre @ image_of r) \<le> ?L" and room: "?n \<le> ?L - length pre" using False r(2) by simp_all
        from Cons.IH [OF _ buf this(1)] Cons.prems(1) step Some r(2) room show ?thesis
          by (simp add: add.assoc option.map_comp comp_def)
      qed
    qed
  qed
qed

text \<open>The windows of the outer loop: \<open>room\<close> bytes are left in the current one. Whenever the loop stops before a record, or
  at the end, there have to be four bytes for the probe.\<close>

fun fits_windows :: "nat \<Rightarrow> log_record list \<Rightarrow> bool" where
  "fits_windows room [] \<longleftrightarrow> 4 \<le> room"
| "fits_windows room (r # rs) \<longleftrightarrow>
     (if length (image_of r) \<le> room then fits_windows (room - length (image_of r)) rs
      else 4 \<le> room \<and> length (image_of r) \<le> log_buffer_size \<and> fits_windows (log_buffer_size - length (image_of r)) rs)"

lemma fits_windows_split:
  "fits_windows room rs \<longleftrightarrow> length (images (in_window room rs)) + 4 \<le> room \<and>
     fits_windows log_buffer_size (drop (length (in_window room rs)) rs)"
proof (induction room rs rule: in_window.induct)
  case (1 room)
  then show ?case by (simp add: log_buffer_size_def)
next
  case (2 room r rs)
  then show ?case by (auto simp: log_buffer_size_def)
qed

lemma short_fits: "length (images rs) + 4 \<le> room \<Longrightarrow> fits_windows room rs"
  by (induction room rs rule: fits_windows.induct) auto

text \<open>A log file that the outer loop reads to its end.\<close>

definition log_records :: "log_record list \<Rightarrow> bool" where
  "log_records rs \<longleftrightarrow> (\<forall>r \<in> set rs. comes_back r \<and> unat (rec_size r) \<le> log_buffer_size) \<and> length (images rs) < 2 ^ 31"

definition log_readable :: "log_record list \<Rightarrow> bool" where
  "log_readable rs \<longleftrightarrow> log_records rs \<and> fits_windows log_buffer_size rs"

lemma log_readable_ok: "log_records rs \<Longrightarrow> \<forall>r \<in> set rs. record_ok r"
  by (auto simp: log_records_def comes_back_ok)

lemma short_log_readable:
  assumes "\<forall>r \<in> set rs. comes_back r" and "length (images rs) + 4 \<le> log_buffer_size"
  shows "log_readable rs"
proof -
  have "unat (rec_size r) \<le> log_buffer_size" if "r \<in> set rs" for r
  proof -
    have "length (image_of r) \<le> length (images rs)" using split_list [OF that] by auto
    with assms that length_image [OF comes_back_ok, of r] show ?thesis by simp
  qed
  with assms short_fits [OF assms(2)] show ?thesis by (auto simp: log_readable_def log_records_def log_buffer_size_def)
qed

lemma sum_sizes: "\<forall>r \<in> set rs. record_ok r \<Longrightarrow> (\<Sum>r \<leftarrow> rs. unat (rec_size r)) = length (images rs)"
  by (induction rs) (auto simp: length_image)

lemma with_buf_twice [simp]: "with_buf b (with_buf c s) = with_buf b s"
  by (simp add: with_buf_def)

lemma with_buf_same: "with_buf (rv_buf (snd s)) s = s"
  by (cases s) (simp add: with_buf_def)

lemma redo_loop_recs:
  assumes "log_records rs" and "rs = ds @ qs" and "lg_file (rv_log (snd s)) = images rs"
  shows "\<exists>buf. (length (rv_buf (snd s)) = log_buffer_size \<longrightarrow> length buf = log_buffer_size) \<and>
    redo_loop snap unsnap draw True (length (images ds)) s =
    (if qs = [] \<or> fits_windows log_buffer_size qs
     then map_option (with_buf buf) (redo_recs snap unsnap draw (length (images ds)) qs s) else None)"
  using assms(2,3)
proof (induction "length qs" arbitrary: ds qs s rule: less_induct)
  case less
  let ?off = "length (images ds)" and ?L = log_buffer_size
  have len: "length (images rs) < 2 ^ 31" using assms(1) by (simp add: log_records_def)
  show ?case
  proof (cases "qs = []")
    case True
    then have "read_log (images rs) ?L ?off = None" using less.prems(1) by (intro lgs.read_end [OF len]) simp
    with True less.prems(2) have "redo_loop snap unsnap draw True ?off s = Some s" by (simp add: redo_loop.simps)
    with True with_buf_same show ?thesis by (intro exI [of _ "rv_buf (snd s)"]) simp
  next
    case False
    let ?w = "take ?L (images qs @ replicate ?L 0)" and ?as = "in_window ?L qs"
    obtain r qs' where qs: "qs = r # qs'" using False by (cases qs) auto
    have cb: "\<forall>r \<in> set qs. comes_back r" "unat (rec_size r) \<le> ?L" using assms(1) less.prems(1) by (auto simp: log_records_def qs)
    then have ok: "\<forall>r \<in> set qs. record_ok r" using comes_back_ok by blast
    obtain bs where bs: "qs = ?as @ bs" using in_window_prefix by blast
    have ne: "?as \<noteq> []" using ok cb(2) length_image [of r] by (simp add: qs)
    have "0 < length (images qs)" using ok length_image [of r] record_size_ok(1) [of r] by (auto simp: qs)
    then have "read_log (images rs) ?L ?off = Some ?w"
      using lgs.read_zero_padded [OF len, of ?off ?L] less.prems(1) by simp
    then have loop: "redo_loop snap unsnap draw True ?off s = do {
        (inner, s1) \<leftarrow> redo_inner snap unsnap draw True ?off (length ([] :: bytes)) (with_buf ?w s);
        (if 2 ^ 31 \<le> ?off + inner then None else redo_loop snap unsnap draw True (?off + inner) s1) }"
      using less.prems(2) by (subst redo_loop.simps) (simp add: with_buf_def)
    from redo_inner_recs [OF cb(1), of "with_buf ?w s" "[]" snap unsnap draw ?off]
    have inner: "redo_inner snap unsnap draw True ?off (length ([] :: bytes)) (with_buf ?w s) =
        (if probe_ok (length (images ?as))
         then map_option (Pair (length (images ?as))) (redo_recs snap unsnap draw ?off ?as (with_buf ?w s)) else None)"
      by (simp add: with_buf_def)
    have "drop (length ?as) qs = bs" using bs by (metis append_eq_conv_conj)
    then have windows: "fits_windows ?L qs \<longleftrightarrow> probe_ok (length (images ?as)) \<and> fits_windows ?L bs"
      using fits_windows_split [of ?L qs] by (simp add: probe_ok_def)
    have "fits_windows ?L []" by (simp add: log_buffer_size_def)
    then have rest: "bs = [] \<or> fits_windows ?L bs \<longleftrightarrow> fits_windows ?L bs" by auto
    have "images qs = images ?as @ images bs" using arg_cong [OF bs, of "\<lambda>x. images x"] by (simp only: map_append concat_append)
    then have "images rs = images (ds @ ?as) @ images bs" using less.prems(1) by simp
    then have small: "\<not> 2 ^ 31 \<le> ?off + length (images ?as)" using len by (simp only: map_append concat_append length_append)
    have all: "redo_recs snap unsnap draw ?off qs s = do {
        s1 \<leftarrow> redo_recs snap unsnap draw ?off ?as s; redo_recs snap unsnap draw (?off + length (images ?as)) bs s1 }"
      using redo_recs_append [of snap unsnap draw ?off ?as bs s] bs ok(1) sum_sizes [of ?as] by (metis Un_iff set_append)
    show ?thesis
    proof (cases "redo_recs snap unsnap draw ?off ?as s")
      case None
      then show ?thesis unfolding loop inner redo_recs_buf all using False by (intro exI [of _ "replicate ?L 0"]) simp
    next
      case (Some s1)
      have "length bs < length qs" using bs ne by (metis length_append length_greater_0_conv less_add_same_cancel2)
      moreover have "rs = (ds @ ?as) @ bs" using less.prems(1) bs by simp
      moreover have "lg_file (rv_log (snd (with_buf ?w s1))) = images rs"
        using redo_recs_io [OF Some] less.prems(2) by (simp add: same_io_def with_buf_def)
      ultimately obtain buf where b: "length (rv_buf (snd (with_buf ?w s1))) = ?L \<longrightarrow> length buf = ?L"
          "redo_loop snap unsnap draw True (length (images (ds @ ?as))) (with_buf ?w s1) =
          (if bs = [] \<or> fits_windows ?L bs
           then map_option (with_buf buf) (redo_recs snap unsnap draw (length (images (ds @ ?as))) bs (with_buf ?w s1)) else None)"
        using less.hyps by blast
      have "redo_loop snap unsnap draw True ?off s = (if probe_ok (length (images ?as))
          then redo_loop snap unsnap draw True (length (images (ds @ ?as))) (with_buf ?w s1) else None)"
        unfolding loop inner redo_recs_buf using Some small by simp
      also have "\<dots> = (if fits_windows ?L qs
          then map_option (with_buf buf) (redo_recs snap unsnap draw (?off + length (images ?as)) bs s1) else None)"
        unfolding b(2) rest windows by (simp add: redo_recs_buf option.map_comp comp_def)
      finally show ?thesis unfolding all using Some b(1) False by (intro exI [of _ buf]) (simp add: with_buf_def)
    qed
  qed
qed

section \<open>What redo leaves\<close>

definition ended :: "log_record \<Rightarrow> bool" where
  "ended r \<longleftrightarrow> rec_type r = COMMIT_REC \<or> rec_type r = ABORT_REC"

text \<open>The transactions that began and did not end, with the LSN of their last record.\<close>

definition open_txns :: "log_record list \<Rightarrow> txn_id \<rightharpoonup> lsn" where
  "open_txns rs i = (case find (\<lambda>r. rec_txn r = i) (rev rs) of
     Some r \<Rightarrow> if ended r then None else Some (rec_lsn r) | None \<Rightarrow> None)"

lemma open_txns_Nil [simp]: "open_txns [] = Map.empty"
  by (simp add: open_txns_def fun_eq_iff)

lemma open_txns_snoc: "open_txns (rs @ [r]) = (open_txns rs)(rec_txn r := if ended r then None else Some (rec_lsn r))"
  by (auto simp: open_txns_def fun_eq_iff)

lemma key_value_of:
  assumes "record_ok r" and "has_payload r"
  shows "key_of r = rec_key r" "value_of r = rec_value r"
  using payload_image(2,3) [OF assms] by (simp_all add: key_of_def value_of_def)

lemma redo_record_effect:
  assumes snap: "snappy_ok snap unsnap" and cb: "comes_back r" and rep: "store_rep snap st a" and fit: "all_fit a (op_of r)"
  shows "\<exists>st'. redo_record snap unsnap draw pos n r (m, st) = Some (max_signed m (rec_lsn r), st') \<and>
    store_rep snap st' (foldl kv_abs a (op_of r)) \<and> rv_log st' = rv_log st \<and> rv_buf st' = rv_buf st \<and>
    rv_active st' = (rv_active st)(rec_txn r := if ended r then None else Some (rec_lsn r)) \<and>
    rv_map st' = (rv_map st)(rec_lsn r \<mapsto> (pos, n))"
proof (cases "has_payload r")
  case True
  note kv = key_value_of [OF comes_back_ok [OF cb] True]
  obtain s where s: "rv_kv st = Some s" "kv_rep snap s a" using rep by (auto simp: store_rep_def)
  show ?thesis
  proof (cases "rec_type r = INSERT_REC")
    case ins: True
    then have "kv_fits a (KPut (rec_key r) (rec_value r))" using fit by (simp add: op_of_def)
    then obtain kv' where "kv_put snap (draw (rec_lsn r)) s (rec_key r) (rec_value r) = Some kv'"
        "kv_rep snap kv' (kv_abs a (KPut (rec_key r) (rec_value r)))"
      using kv_put_rep [OF snap, of s "fst a" "snd a"] s(2) by fastforce
    then show ?thesis using ins kv s(1) by (simp add: redo_record_def redo_log_def op_of_def ended_def store_rep_def Let_def)
  next
    case False
    then have del: "rec_type r = DELETE_REC" using True by (simp add: has_payload_def)
    obtain kv' where "kv_del unsnap (draw (rec_lsn r)) s (rec_key r) = Some (deletes a (rec_key r), kv')"
        "kv_rep snap kv' (kv_abs a (KDel (rec_key r)))" using kv_del_rep [OF snap s(2)] by blast
    then show ?thesis using del kv s(1) by (simp add: redo_record_def redo_log_def op_of_def ended_def store_rep_def Let_def)
  qed
next
  case False
  then have "rec_type r \<in> {BEGIN_REC, COMMIT_REC, ABORT_REC}" using cb by (auto simp: comes_back_def record_ok_def)
  then show ?thesis using rep by (auto simp: redo_record_def redo_log_def op_of_def ended_def store_rep_def Let_def)
qed

lemma redo_recs_effect:
  assumes snap: "snappy_ok snap unsnap" and "\<forall>r \<in> set rs. comes_back r" and rep: "store_rep snap st a"
    and "all_fit a (ops_of rs)" and "distinct (map rec_lsn rs)" and "rv_active st = Map.empty"
  shows "\<exists>st'. redo_recs snap unsnap draw pos rs (m, st) = Some (foldl max_signed m (map rec_lsn rs), st') \<and>
    store_rep snap st' (foldl kv_abs a (ops_of rs)) \<and> rv_log st' = rv_log st \<and> rv_buf st' = rv_buf st \<and>
    rv_active st' = open_txns rs \<and>
    (\<forall>i < length rs. rv_map st' (rec_lsn (rs ! i)) = Some (pos + length (images (take i rs)), rec_size (rs ! i)))"
  using assms(2,4,5)
proof (induction rs rule: rev_induct)
  case (snoc r rs)
  have fit: "all_fit a (ops_of rs)" "all_fit (foldl kv_abs a (ops_of rs)) (op_of r)"
    using snoc.prems(2) by (simp_all add: all_fit_append)
  obtain st1 where 1: "redo_recs snap unsnap draw pos rs (m, st) = Some (foldl max_signed m (map rec_lsn rs), st1)"
      "store_rep snap st1 (foldl kv_abs a (ops_of rs))" "rv_log st1 = rv_log st" "rv_buf st1 = rv_buf st"
      "rv_active st1 = open_txns rs"
      "\<forall>i < length rs. rv_map st1 (rec_lsn (rs ! i)) = Some (pos + length (images (take i rs)), rec_size (rs ! i))"
    using snoc.IH snoc.prems(1,3) fit(1) by auto
  have r: "comes_back r" "\<forall>r \<in> set rs. record_ok r" using snoc.prems(1) by (auto intro: comes_back_ok)
  obtain st2 where 2: "redo_record snap unsnap draw (pos + length (images rs)) (rec_size r) r (foldl max_signed m (map rec_lsn rs), st1) =
        Some (max_signed (foldl max_signed m (map rec_lsn rs)) (rec_lsn r), st2)"
      "store_rep snap st2 (foldl kv_abs (foldl kv_abs a (ops_of rs)) (op_of r))" "rv_log st2 = rv_log st1" "rv_buf st2 = rv_buf st1"
      "rv_active st2 = (rv_active st1)(rec_txn r := if ended r then None else Some (rec_lsn r))"
      "rv_map st2 = (rv_map st1)(rec_lsn r \<mapsto> (pos + length (images rs), rec_size r))"
    using redo_record_effect [OF snap r(1) 1(2) fit(2)] by blast
  have "rec_lsn (rs ! i) \<noteq> rec_lsn r" if "i < length rs" for i using snoc.prems(3) imageI [OF nth_mem [OF that], of rec_lsn] by auto
  then have "\<forall>i < length (rs @ [r]). rv_map st2 (rec_lsn ((rs @ [r]) ! i)) =
      Some (pos + length (images (take i (rs @ [r]))), rec_size ((rs @ [r]) ! i))"
    using 1(6) 2(6) by (auto simp: nth_append less_Suc_eq)
  moreover have "redo_recs snap unsnap draw pos (rs @ [r]) (m, st) = Some (foldl max_signed m (map rec_lsn (rs @ [r])), st2)"
    using 1(1) 2(1) by (simp add: redo_recs_append sum_sizes [OF r(2)])
  ultimately show ?case using 1(3-5) 2(2-5) by (intro exI [of _ st2]) (simp add: open_txns_snoc)
qed (use rep assms(6) in simp)

definition lsns_from :: "lsn \<Rightarrow> log_record list \<Rightarrow> bool" where
  "lsns_from n0 rs \<longleftrightarrow> map rec_lsn rs = map (\<lambda>i. n0 + of_nat i) [0..<length rs]"

lemma sint_last_lsn: "0 < p \<Longrightarrow> unat n0 + p < 2 ^ 31 \<Longrightarrow> sint (last_lsn n0 p) = int (unat n0 + p - 1)"
  using lsn_plus [of n0 "p - 1"] by (cases p) (simp_all add: last_lsn_def)

lemma max_of_lsns:
  "unat n0 + p < 2 ^ 31 \<Longrightarrow> foldl max_signed invalid_lsn (map (\<lambda>i. n0 + of_nat i) [0..<p]) = last_lsn n0 p"
proof (induction p)
  case (Suc p)
  have l: "last_lsn n0 (Suc p) = n0 + of_nat p" by (simp add: last_lsn_def)
  have s: "sint (n0 + of_nat p) = int (unat n0 + p)" using Suc.prems by (intro lsn_plus) simp
  have "sint (last_lsn n0 p) < sint (n0 + of_nat p)"
  proof (cases p)
    case 0
    then have "sint (last_lsn n0 p) = - 1" by (simp add: last_lsn_def invalid_lsn_def)
    with s show ?thesis by linarith
  next
    case (Suc q)
    then show ?thesis using sint_last_lsn [of p n0] s Suc.prems \<open>unat n0 + Suc p < 2 ^ 31\<close> by simp
  qed
  with Suc l show ?case by (simp add: max_signed_def)
qed (simp add: last_lsn_def)

lemma lsns_distinct:
  assumes "lsns_from n0 rs" and "unat n0 + length rs < 2 ^ 31"
  shows "distinct (map rec_lsn rs)"
proof -
  have "inj_on (\<lambda>i. n0 + of_nat i :: lsn) {0..<length rs}"
  proof (rule inj_onI)
    fix i j assume "i \<in> {0..<length rs}" "j \<in> {0..<length rs}" and e: "(n0 + of_nat i :: lsn) = n0 + of_nat j"
    then have "unat n0 + i < 2 ^ 31" "unat n0 + j < 2 ^ 31" using assms(2) by simp_all
    from lsn_plus [OF this(1)] lsn_plus [OF this(2)] e have "int (unat n0 + i) = int (unat n0 + j)" by metis
    then show "i = j" by linarith
  qed
  then show ?thesis using assms(1) by (simp add: lsns_from_def distinct_map)
qed

lemma redo_effect:
  assumes snap: "snappy_ok snap unsnap" and rs: "log_readable rs" "lsns_from n0 rs" "unat n0 + length rs < 2 ^ 31"
    and rep: "kv_rep snap kv ([], [])" and fit: "all_fit ([], []) (ops_of rs)" and log: "lg_file log = images rs"
  shows "\<exists>st. redo snap unsnap draw True (attach_store kv (recovery_new buf log)) = Some st \<and>
    store_rep snap st (foldl kv_abs ([], []) (ops_of rs)) \<and> rv_active st = open_txns rs \<and>
    rv_log st = set_next_lsn (last_lsn n0 (length rs) + 1) log \<and>
    (length buf = log_buffer_size \<longrightarrow> length (rv_buf st) = log_buffer_size) \<and>
    (\<forall>i < length rs. rv_map st (rec_lsn (rs ! i)) = Some (length (images (take i rs)), rec_size (rs ! i)))"
proof -
  let ?st = "attach_store kv (recovery_new buf log)"
  have ok: "\<forall>r \<in> set rs. comes_back r" "log_records rs" using rs(1) by (auto simp: log_readable_def log_records_def)
  have new: "rv_buf ?st = buf" "store_rep snap ?st ([], [])" "rv_active ?st = Map.empty" "rv_log ?st = log"
    using rep by (simp_all add: recovery_new_def attach_store_def store_rep_def)
  obtain st where st: "redo_recs snap unsnap draw 0 rs (invalid_lsn, ?st) = Some (foldl max_signed invalid_lsn (map rec_lsn rs), st)"
      "store_rep snap st (foldl kv_abs ([], []) (ops_of rs))" "rv_log st = log" "rv_active st = open_txns rs"
      "\<forall>i < length rs. rv_map st (rec_lsn (rs ! i)) = Some (0 + length (images (take i rs)), rec_size (rs ! i))"
    using redo_recs_effect [OF snap ok(1) new(2) fit lsns_distinct [OF rs(2,3)] new(3), of draw 0 invalid_lsn] new(4) by auto
  have m: "foldl max_signed invalid_lsn (map rec_lsn rs) = last_lsn n0 (length rs)"
    using max_of_lsns [OF rs(3)] rs(2) by (simp add: lsns_from_def)
  obtain b where b: "length (rv_buf ?st) = log_buffer_size \<longrightarrow> length b = log_buffer_size"
      "redo_loop snap unsnap draw True (length (images ([] :: log_record list))) (invalid_lsn, ?st) =
      map_option (with_buf b) (redo_recs snap unsnap draw (length (images ([] :: log_record list))) rs (invalid_lsn, ?st))"
    using redo_loop_recs [OF ok(2), where ds = "[]" and qs = rs and s = "(invalid_lsn, ?st)" and snap = snap and
        unsnap = unsnap and draw = draw] new(4) log rs(1) by (auto simp: log_readable_def)
  then have "redo snap unsnap draw True ?st =
      Some (st\<lparr>rv_buf := b, rv_log := set_next_lsn (last_lsn n0 (length rs) + 1) log\<rparr>)"
    using st(1,3) m by (simp add: redo_def with_buf_def)
  with st(2-5) b(1) new(1) show ?thesis by (simp add: store_rep_def)
qed

text \<open>When a window ends less than four bytes before the end of the buffer, Redo is undefined, whatever store it has.\<close>

lemma redo_reads_behind:
  assumes "log_records rs" and "\<not> fits_windows log_buffer_size rs" and "lg_file (rv_log st) = images rs"
  shows "redo snap unsnap draw True st = None"
proof -
  have "rs \<noteq> []" using assms(2) by (auto simp: log_buffer_size_def)
  with redo_loop_recs [OF assms(1), where ds = "[]" and qs = rs and s = "(invalid_lsn, st)" and snap = snap and
      unsnap = unsnap and draw = draw] assms(2,3) show ?thesis by (auto simp: redo_def)
qed

text \<open>As constructed, without a store, Redo is undefined on every log with a write record.\<close>

lemma redo_recs_no_store:
  "rv_kv (snd s) = None \<Longrightarrow> \<exists>r \<in> set rs. has_payload r \<Longrightarrow> redo_recs snap unsnap draw pos rs s = None"
proof (induction rs arbitrary: pos s)
  case (Cons r rs)
  show ?case
  proof (cases "has_payload r")
    case True
    then have "redo_record snap unsnap draw pos (rec_size r) r s = None"
      using Cons.prems(1) by (cases s) (auto simp: redo_record_def redo_log_def has_payload_def Let_def)
    then show ?thesis by simp
  next
    case False
    then have "rv_kv (snd s1) = None" if "redo_record snap unsnap draw pos (rec_size r) r s = Some s1" for s1
      using that Cons.prems(1) by (cases s; cases "rec_type r")
        (auto simp: redo_record_def redo_log_def has_payload_def Let_def split: Option.bind_splits)
    with Cons False show ?thesis by (auto split: Option.bind_splits)
  qed
qed simp

lemma redo_without_store:
  assumes "log_records rs" and "lg_file log = images rs" and "r \<in> set rs" and "has_payload r"
  shows "redo snap unsnap draw True (recovery_new buf log) = None"
proof -
  let ?s = "(invalid_lsn, recovery_new buf log)"
  have none: "redo_recs snap unsnap draw (length (images ([] :: log_record list))) rs ?s = None"
    using assms(3,4) by (intro redo_recs_no_store) (auto simp: recovery_new_def)
  have "lg_file (rv_log (snd ?s)) = images rs" using assms(2) by (simp add: recovery_new_def)
  from redo_loop_recs [OF assms(1) _ this, of "[]" rs, where snap = snap and unsnap = unsnap and draw = draw]
  have "\<exists>buf. redo_loop snap unsnap draw True (length (images ([] :: log_record list))) ?s =
      (if rs = [] \<or> fits_windows log_buffer_size rs then map_option (with_buf buf) None else None)"
    unfolding none by blast
  then have "redo_loop snap unsnap draw True (length (images ([] :: log_record list))) ?s = None"
    by (elim exE) (simp only: option.map if_cancel)
  then show ?thesis by (simp add: redo_def)
qed

text \<open>Of the log of a run, a prefix is in the file, and it has every record that was reported durable.\<close>

lemma log_run_prefix:
  assumes "log_run (set_next_lsn n0 (log_manager_new [])) rs log"
  shows "\<exists>m \<le> length rs. lg_file log = images (take m rs) \<and>
    (unat n0 + length rs < 2 ^ 31 \<longrightarrow> (\<forall>i < length rs. flush_done (rec_lsn (rs ! i)) log \<longrightarrow> i < m))"
proof -
  note ok = log_reach [OF assms]
  obtain m k p where at: "log_at [] n0 rs m k p log" using ok by (auto simp: log_ok_def)
  then have b: "p \<le> m" "m \<le> length rs" "lg_persistent log = last_lsn n0 p" "lg_file log = images (take m rs)"
    by (auto simp: log_at_def)
  have "i < m" if "unat n0 + length rs < 2 ^ 31" "i < length rs" "flush_done (rec_lsn (rs ! i)) log" for i
    using last_lsn_covers [OF that(1) _ that(2), of p] that(3) b log_lsns [OF ok that(2)] by (force simp: flush_done_def)
  with b show ?thesis by (intro exI [of _ m]) auto
qed

lemma log_ok_prefix:
  assumes "log_ok f0 n0 rs log"
  shows "lsns_from n0 (take m rs)"
proof -
  have "map rec_lsn rs = map (\<lambda>i. n0 + of_nat i) [0..<length rs]" using assms by (simp add: log_ok_def)
  then have "take m (map rec_lsn rs) = take m (map (\<lambda>i. n0 + of_nat i) [0..<length rs])" by simp
  then show "lsns_from n0 (take m rs)" by (simp add: lsns_from_def take_map take_upt min_def)
qed

text \<open>Only records that fit into the buffer get into the log.\<close>

lemma log_run_sizes:
  assumes "log_run (set_next_lsn n0 (log_manager_new f0)) rs log"
  shows "\<forall>r \<in> set rs. unat (rec_size r) < log_buffer_size"
  using assms
proof (induction "set_next_lsn n0 (log_manager_new f0)" rs log rule: log_run.induct)
  case (log_snoc rs t es u)
  have b: "length (lg_buf t) < log_buffer_size" using log_reach [OF log_snoc.hyps(1)] by (simp add: log_ok_def)
  have "unat (rec_size r) < log_buffer_size" if "r \<in> set es" for r
    using log_snoc.hyps(3) that
  proof cases
    case (appended q l)
    then have "fits q t" by (simp add: append_record_def split: if_splits)
    with fits_iff [OF appended(2) b] that appended(1) show ?thesis by simp
  next
    case (woken q l)
    then have "fits q t" by (simp add: append_wake_def split: if_splits)
    with fits_iff [OF woken(2) b] that woken(1) show ?thesis by simp
  qed simp_all
  with log_snoc.hyps(2) show ?case by auto
qed simp

lemma log_records_take:
  assumes "txn_store_ok snap n0 rs s" and "length (images rs) < 2 ^ 31"
  shows "log_records (take m rs)"
proof -
  have run: "log_run (set_next_lsn n0 (log_manager_new [])) rs (ts_log s)" and ty: "\<forall>r \<in> set rs. rec_type r \<noteq> PREPARED_REC"
    using assms(1) by (simp_all add: txn_store_ok_def)
  have "\<forall>r \<in> set rs. comes_back r \<and> unat (rec_size r) < log_buffer_size"
    using log_run_sizes [OF run] log_reach [OF run] ty by (auto simp: log_ok_def comes_back_def)
  moreover have "length (images (take m rs)) \<le> length (images rs)"
    using arg_cong [OF append_take_drop_id [of m rs], of "\<lambda>x. length (images x)"] by (simp del: append_take_drop_id)
  ultimately show ?thesis using assms(2) by (force simp: log_records_def dest: in_set_takeD)
qed

lemma all_fit_take: "all_fit a (ops_of rs) \<Longrightarrow> all_fit a (ops_of (take m rs))"
  using all_fit_append [of a "ops_of (take m rs)" "ops_of (drop m rs)"]
  by (metis append_take_drop_id concat_append map_append)

text \<open>C26. Recovery from a crash. Take any calls of any transactions, one after the other and with defined behaviour, and the
  log file as it is then. The file has the records of a prefix of the log, and the prefix has every record for which Flush has returned. Let
  the LSNs stay in the range of \<open>int\<close> and the log below 2 GB. Redo, with a new empty store attached to the recovery manager (which
  the code forgets to do), is undefined if a window that it reads into its buffer ends less than four bytes before
  the end of the buffer (\<open>fits_windows\<close>). Otherwise it returns, the store answers as if exactly the writes in the
  prefix had been made, so as the one before the crash if the prefix is the whole log, the transactions to undo are
  those without a commit or abort record in the prefix, and the next LSN follows the last one.\<close>

theorem crash_recovery:
  assumes "snappy_ok snap unsnap" and "fresh_dir fs dir" and "kv_new fs dir = Some kv"
    and "txn_run snap unsnap (txn_store_new kv n0) s" and "fresh_dir fs' dir'" and "kv_new fs' dir' = Some kv'"
    and "lg_file log = lg_file (ts_log s)"
  shows "\<exists>rs m. log_run (set_next_lsn n0 (log_manager_new [])) rs (ts_log s) \<and> lg_file log = images (take m rs) \<and>
    (unat n0 + length rs < 2 ^ 31 \<and> length (images rs) < 2 ^ 31 \<longrightarrow>
      (\<forall>i < length rs. flush_done (rec_lsn (rs ! i)) (ts_log s) \<longrightarrow> i < m) \<and>
      (if \<not> fits_windows log_buffer_size (take m rs)
       then redo snap unsnap draw True (attach_store kv' (recovery_new buf log)) = None
       else \<exists>st. redo snap unsnap draw True (attach_store kv' (recovery_new buf log)) = Some st \<and>
         rv_active st = open_txns (take m rs) \<and> lg_next (rv_log st) = last_lsn n0 (min m (length rs)) + 1 \<and>
         (\<forall>k. recovered_get unsnap st k = Some (visible (foldl kv_abs ([], []) (ops_of (take m rs))) k \<noteq> [],
           visible (foldl kv_abs ([], []) (ops_of (take m rs))) k)) \<and>
         (length rs \<le> m \<longrightarrow> (\<forall>k. recovered_get unsnap st k = kv_get unsnap (ts_kv s) k))))"
proof -
  obtain rs where ok: "txn_store_ok snap n0 rs s"
    using txn_run_ok [OF assms(4,1) txn_store_new_ok [OF assms(2,3)]] by blast
  then have run: "log_run (set_next_lsn n0 (log_manager_new [])) rs (ts_log s)" and fit: "all_fit ([], []) (ops_of rs)"
    and rep: "kv_rep snap (ts_kv s) (foldl kv_abs ([], []) (ops_of rs))" by (simp_all add: txn_store_ok_def)
  obtain m where m: "m \<le> length rs" "lg_file (ts_log s) = images (take m rs)"
      "unat n0 + length rs < 2 ^ 31 \<longrightarrow> (\<forall>i < length rs. flush_done (rec_lsn (rs ! i)) (ts_log s) \<longrightarrow> i < m)"
    using log_run_prefix [OF run] by blast
  have new: "kv_rep snap kv' ([], [])" using kv_new_rep [OF assms(5), of snap] assms(6) by auto
  let ?st = "attach_store kv' (recovery_new buf log)" and ?a = "foldl kv_abs ([], []) (ops_of (take m rs))"
  have redo: "if \<not> fits_windows log_buffer_size (take m rs) then redo snap unsnap draw True ?st = None
      else \<exists>st. redo snap unsnap draw True ?st = Some st \<and> rv_active st = open_txns (take m rs) \<and>
        lg_next (rv_log st) = last_lsn n0 (min m (length rs)) + 1 \<and>
        (\<forall>k. recovered_get unsnap st k = Some (visible ?a k \<noteq> [], visible ?a k)) \<and>
        (length rs \<le> m \<longrightarrow> (\<forall>k. recovered_get unsnap st k = kv_get unsnap (ts_kv s) k))"
    if b: "unat n0 + length rs < 2 ^ 31" "length (images rs) < 2 ^ 31"
  proof (cases "fits_windows log_buffer_size (take m rs)")
    case False
    then show ?thesis
      using redo_reads_behind [OF log_records_take [OF ok b(2)]] m(2) assms(7) by (simp add: attach_store_def recovery_new_def)
  next
    case True
    then have rd: "log_readable (take m rs)" using log_records_take [OF ok b(2)] by (simp add: log_readable_def)
    have "unat n0 + length (take m rs) < 2 ^ 31" using b(1) by simp
    from redo_effect [OF assms(1) rd log_ok_prefix [OF log_reach [OF run]] this new all_fit_take [OF fit], of log draw buf]
    obtain st where st: "redo snap unsnap draw True ?st = Some st" "store_rep snap st ?a" "rv_active st = open_txns (take m rs)"
        "rv_log st = set_next_lsn (last_lsn n0 (length (take m rs)) + 1) log" using m(2) assms(7) by auto
    note get = recovered_get_rep [OF assms(1) st(2)]
    have "length rs \<le> m \<Longrightarrow> recovered_get unsnap st k = kv_get unsnap (ts_kv s) k" for k
      using get [of k] kv_get_rep [OF assms(1) rep, of k] by simp
    with st get True show ?thesis by (auto simp: set_next_lsn_def min.commute)
  qed
  show ?thesis using run m(2,3) assms(7) redo by (intro exI [of _ rs] exI [of _ m]) auto
qed

text \<open>With the flush thread running, everything logged gets into the file.\<close>

lemma log_drains:
  assumes run: "log_run (set_next_lsn n0 (log_manager_new f0)) rs log" and alive: "log_alive log"
  shows "\<exists>j. lg_thread ((flush_thread_step ^^ j) log) = FWait \<and> lg_buf ((flush_thread_step ^^ j) log) = [] \<and>
    lg_file ((flush_thread_step ^^ j) log) = f0 @ images rs"
proof -
  obtain j where j: "lg_thread ((flush_thread_step ^^ j) log) = FWait"
    using reaches_wait [of log] alive by (auto simp: log_alive_def)
  let ?t = "(flush_thread_step ^^ j) log"
  have al: "lg_enable ?t" using log_alive_steps(1) [OF alive] by (simp add: log_alive_def)
  have "\<exists>i. lg_thread ((flush_thread_step ^^ i) ?t) = FWait \<and> lg_buf ((flush_thread_step ^^ i) ?t) = []"
  proof (cases "lg_buf ?t = []")
    case True
    with j show ?thesis by (intro exI [of _ 0]) simp
  next
    case False
    with j al show ?thesis by (intro exI [of _ 5]) (simp add: eval_nat_numeral flush_thread_step_def swap_buffer_def)
  qed
  then obtain i where i: "lg_thread ((flush_thread_step ^^ (i + j)) log) = FWait" "lg_buf ((flush_thread_step ^^ (i + j)) log) = []"
    by (auto simp: funpow_add)
  with log_content [OF log_run_thread [OF run, of "i + j"]] show ?thesis by (intro exI [of _ "i + j"]) simp
qed

lemma txn_run_threads:
  "txn_run snap unsnap s0 s \<Longrightarrow> txn_run snap unsnap s0 (s\<lparr>ts_log := (flush_thread_step ^^ j) (ts_log s)\<rparr>)"
proof (induction j)
  case (Suc j)
  from txn_thread [OF Suc.IH [OF Suc.prems]] show ?case by simp
qed simp

lemma demo_log_sizes: "length (images demo_log) = 58"
proof -
  have "record_ok (record_of_kv 7 0 INSERT_REC [5] [1])" by (rule record_of_kv_ok) simp_all
  moreover have "record_ok (record_default\<lparr>rec_size := 24, rec_lsn := 0, rec_txn := 7, rec_type := BEGIN_REC\<rparr>)"
    by (simp add: record_ok_def has_payload_def record_default_def)
  ultimately have ok: "\<forall>r \<in> set demo_log. record_ok r" by (simp add: demo_log_def)
  have "length (image_of r) = unat (rec_size r)" if "r \<in> set demo_log" for r using ok length_image that by blast
  then show "length (images demo_log) = 58" by (simp add: demo_log_def record_of_kv_def record_data_def)
qed

lemma few_records: "\<forall>r \<in> set rs. record_ok r \<Longrightarrow> length rs \<le> length (images rs)"
proof (induction rs)
  case (Cons r rs)
  then have "24 \<le> length (image_of r)" using length_image [of r] record_size_ok(1) [of r] by simp
  with Cons show ?case by simp
qed simp

text \<open>The small run, with everything flushed.\<close>

lemma demo_flushed:
  "\<exists>kv s. kv_new empty_fs ''data'' = Some kv \<and> txn_run (\<lambda>x. x) (\<lambda>x. x) (txn_store_new kv 0) s \<and>
     kv_rep (\<lambda>x. x) (ts_kv s) ([([5], [1])], []) \<and> lg_thread (ts_log s) = FWait \<and> lg_buf (ts_log s) = [] \<and>
     lg_file (ts_log s) = images demo_log"
proof -
  obtain kv s where s: "kv_new empty_fs ''data'' = Some kv" "txn_run (\<lambda>x. x) (\<lambda>x. x) (txn_store_new kv 0) s"
      "kv_rep (\<lambda>x. x) (ts_kv s) ([([5], [1])], [])" "log_alive (ts_log s)"
      "log_run (set_next_lsn 0 (log_manager_new [])) demo_log (ts_log s)" using demo_txn by blast
  obtain j where "lg_thread ((flush_thread_step ^^ j) (ts_log s)) = FWait" "lg_buf ((flush_thread_step ^^ j) (ts_log s)) = []"
      "lg_file ((flush_thread_step ^^ j) (ts_log s)) = images demo_log"
    using log_drains [OF s(5,4)] by auto
  with s(1,3) txn_run_threads [OF s(2), of j] show ?thesis by (intro exI conjI) (assumption | simp)+
qed

theorem crash_recovery_witness:
  "\<exists>kv s st. kv_new empty_fs ''data'' = Some kv \<and> txn_run (\<lambda>x. x) (\<lambda>x. x) (txn_store_new kv 0) s \<and>
    redo (\<lambda>x. x) (\<lambda>x. x) (\<lambda>l. 1) True (attach_store kv (recovery_new [] (log_manager_new (lg_file (ts_log s))))) = Some st \<and>
    recovered_get (\<lambda>x. x) st [5] = Some (True, [1])"
proof -
  obtain kv s where s: "kv_new empty_fs ''data'' = Some kv" "txn_run (\<lambda>x. x) (\<lambda>x. x) (txn_store_new kv 0) s"
      "kv_rep (\<lambda>x. x) (ts_kv s) ([([5], [1])], [])" "lg_thread (ts_log s) = FWait" "lg_buf (ts_log s) = []"
      "lg_file (ts_log s) = images demo_log" using demo_flushed by blast
  let ?log = "log_manager_new (lg_file (ts_log s))" and ?st = "\<lambda>l. attach_store kv (recovery_new [] l)"
  have fresh: "fresh_dir empty_fs ''data''" by (rule fresh_empty) simp
  have logf: "lg_file ?log = lg_file (ts_log s)" by (simp add: log_manager_new_def)
  have get: "kv_get (\<lambda>x. x) (ts_kv s) [5] = Some (True, [1])" using kv_get_rep [OF snappy_id s(3), of "[5]"] by (simp add: visible_def)
  from crash_recovery [OF snappy_id fresh s(1,2) fresh s(1) logf, where draw = "\<lambda>l. 1" and buf = "[]"] obtain rs m where
    rs: "log_run (set_next_lsn 0 (log_manager_new [])) rs (ts_log s)" "lg_file ?log = images (take m rs)"
      "unat (0 :: lsn) + length rs < 2 ^ 31 \<Longrightarrow> length (images rs) < 2 ^ 31 \<Longrightarrow> fits_windows log_buffer_size (take m rs) \<Longrightarrow>
        (\<exists>st. redo (\<lambda>x. x) (\<lambda>x. x) (\<lambda>l. 1) True (?st ?log) = Some st \<and>
          (length rs \<le> m \<longrightarrow> (\<forall>k. recovered_get (\<lambda>x. x) st k = kv_get (\<lambda>x. x) (ts_kv s) k)))"
    by (elim exE conjE) (rule that, assumption, assumption, simp, blast)
  have ok: "\<forall>r \<in> set rs. record_ok r" using log_reach [OF rs(1)] by (simp add: log_ok_def)
  have all: "images rs = images demo_log" using log_content [OF rs(1)] s(4-6) by simp
  then have "images (take m rs) = images rs" using rs(2) s(6) by (simp add: log_manager_new_def)
  then have "length (images (drop m rs)) = 0"
    by (metis append_take_drop_id concat_append map_append append_self_conv list.size(3))
  then have "length (drop m rs) = 0" using few_records [of "drop m rs"] ok by (metis in_set_dropD le_zero_eq)
  then have m: "length rs \<le> m" by simp
  have small: "length rs \<le> 58" "length (images rs) = 58" using few_records [OF ok] all demo_log_sizes by simp_all
  have "fits_windows log_buffer_size (take m rs)" using short_fits [of rs] small(2) m by (simp add: log_buffer_size_def)
  with rs(3) m small obtain st where "redo (\<lambda>x. x) (\<lambda>x. x) (\<lambda>l. 1) True (?st ?log) = Some st"
      "recovered_get (\<lambda>x. x) st [5] = kv_get (\<lambda>x. x) (ts_kv s) [5]" by auto
  with s(1,2) get show ?thesis by auto
qed

section \<open>Undo takes back the writes of unfinished transactions\<close>

text \<open>Once a record fits it goes on fitting while the flush thread runs, so five steps are always enough.\<close>

lemma fits_thread:
  assumes ok: "log_ok f0 n0 rs log" and r: "record_ok r" and "fits r log"
  shows "fits r ((flush_thread_step ^^ i) log)"
proof (induction i)
  case (Suc i)
  let ?t = "(flush_thread_step ^^ i) log"
  have "log_ok f0 n0 rs ?t" "log_ok f0 n0 rs (flush_thread_step ?t)"
    using log_ok_thread [OF ok, of i] log_ok_thread [OF ok, of "Suc i"] by simp_all
  then have b: "length (lg_buf ?t) < log_buffer_size" "length (lg_buf (flush_thread_step ?t)) < log_buffer_size"
    by (simp_all add: log_ok_def)
  have "length (lg_buf (flush_thread_step ?t)) \<le> length (lg_buf ?t)"
    by (auto simp: flush_thread_step_def swap_buffer_def split: flush_phase.splits)
  with Suc fits_iff [OF r b(1)] fits_iff [OF r b(2)] show ?case by simp
qed (use assms in simp)

lemma append_call_five:
  assumes run: "log_run (set_next_lsn n0 (log_manager_new f0)) rs log" and alive: "log_alive log"
    and r: "record_ok r" "unat (rec_size r) < log_buffer_size" and j: "5 \<le> j"
  shows "\<exists>log'. append_call j r log = Some (log', n0 + of_nat (length rs)) \<and> log_alive log' \<and>
    log_run (set_next_lsn n0 (log_manager_new f0)) (rs @ [r\<lparr>rec_lsn := n0 + of_nat (length rs)\<rparr>]) log'"
proof -
  note ok = log_reach [OF run]
  have "\<exists>log'. append_call j r log = Some (log', n0 + of_nat (length rs))"
  proof (cases "fits r log")
    case True
    then show ?thesis
      using append_write_fits [OF r(1) _ True] ok by (auto simp: append_call_def append_record_def log_ok_def)
  next
    case False
    let ?log = "log\<lparr>lg_need := True\<rparr>"
    have ok1: "log_ok f0 n0 rs ?log" using ok by (simp add: log_ok_fields)
    obtain i where i: "i \<le> 4" "lg_thread ((flush_thread_step ^^ i) ?log) = FWait"
      using reaches_wait [of ?log] alive by (auto simp: log_alive_def)
    let ?t = "(flush_thread_step ^^ Suc i) ?log"
    have okt: "log_ok f0 n0 rs ?t" by (rule log_ok_thread [OF ok1])
    have "lg_buf ?t = []" using wait_step [OF i(2)] by simp
    moreover have bt: "length (lg_buf ?t) < log_buffer_size" using okt by (simp only: log_ok_def)
    ultimately have "fits r ?t" using fits_iff [OF r(1) bt] r(2) by simp
    from fits_thread [OF okt r(1) this, of "j - Suc i"] have fit: "fits r ((flush_thread_step ^^ j) ?log)"
      using i(1) j by (simp only: funpow_add [symmetric, THEN fun_cong, unfolded comp_def]) simp
    have okj: "log_ok f0 n0 rs ((flush_thread_step ^^ j) ?log)" by (rule log_ok_thread [OF ok1])
    then have "length (lg_buf ((flush_thread_step ^^ j) ?log)) < log_buffer_size"
      "lg_next ((flush_thread_step ^^ j) ?log) = n0 + of_nat (length rs)" by (simp_all add: log_ok_def)
    with append_write_fits [OF r(1) _ fit] fit False show ?thesis
      by (simp add: append_call_def append_record_def append_wake_def)
  qed
  then obtain log' where c: "append_call j r log = Some (log', n0 + of_nat (length rs))" by blast
  with append_call_alive [OF c alive] log_run_trans [OF append_call_run [OF c r(1)] run] show ?thesis by blast
qed

text \<open>The file grows by what is appended only.\<close>

lemma file_bound:
  assumes "log_run (set_next_lsn n0 (log_manager_new f0)) rs log"
  shows "\<exists>extra. lg_file log = f0 @ extra \<and> length extra \<le> length (images rs)"
proof -
  obtain m k p where "log_at f0 n0 rs m k p log" using log_reach [OF assms] by (auto simp: log_ok_def)
  moreover have "length (images (take m rs)) \<le> length (images rs)"
    using arg_cong [OF append_take_drop_id [of m rs], of "\<lambda>x. length (images x)"] by (simp del: append_take_drop_id)
  ultimately show ?thesis by (intro exI [of _ "images (take m rs)"]) (simp add: log_at_def)
qed

lemma read_record:
  assumes k: "k < length rs" and ok: "\<forall>r \<in> set rs. comes_back r" and room: "unat (rec_size (rs ! k)) \<le> length buf"
    and len: "length (images rs @ extra) < 2 ^ 31"
  shows "\<exists>buf'. read_into (images rs @ extra) (rec_size (rs ! k)) (length (images (take k rs))) buf = Some buf' \<and>
    length buf' = length buf \<and> deserialize True buf' 0 = Some (rs ! k)"
proof -
  let ?r = "rs ! k" and ?n = "unat (rec_size (rs ! k))"
  have cb: "comes_back ?r" using ok k by simp
  note r = comes_back_ok [OF cb]
  note img = length_image [OF r]
  have split: "images rs @ extra = images (take k rs) @ image_of ?r @ images (drop (Suc k) rs) @ extra"
    using arg_cong [OF id_take_nth_drop [OF k], of "\<lambda>x. images x"] by simp
  have pos: "length (images (take k rs)) < length (images rs @ extra)"
    unfolding split using img record_size_ok(1) [OF r] by simp
  have "read_log (images rs @ extra) ?n (length (images (take k rs))) = Some (image_of ?r)"
    unfolding lgs.read_zero_padded [OF len pos] unfolding split using img by simp
  then have "read_into (images rs @ extra) (rec_size ?r) (length (images (take k rs))) buf = Some (image_of ?r @ drop ?n buf)"
    using room by (simp add: read_into_def)
  with img room deserialize_image [OF cb conjunct1 [OF img], of True "[]" "drop ?n buf"] show ?thesis by simp
qed

text \<open>The set \<open>next_lsn\<close> when the records from position \<open>n\<close> on are dealt with.\<close>

definition pending :: "log_record list \<Rightarrow> nat \<Rightarrow> lsn set" where
  "pending rs n = {last_of i (take n rs) |i. open_txns rs i \<noteq> None} - {invalid_lsn}"

definition loser :: "log_record list \<Rightarrow> log_record \<Rightarrow> bool" where
  "loser rs r \<longleftrightarrow> open_txns rs (rec_txn r) \<noteq> None"

lemma pending_0 [simp]: "pending rs 0 = {}"
  by (auto simp: pending_def last_of_def)

lemma nth_lsn: "lsns_from n0 rs \<Longrightarrow> k < length rs \<Longrightarrow> rec_lsn (rs ! k) = n0 + of_nat k"
  unfolding lsns_from_def by (metis (no_types, lifting) length_map map_nth nth_map nth_upt add_0 length_upt minus_nat.diff_0)

lemma lsn_valid:
  assumes "lsns_from n0 rs" and "unat n0 + length rs < 2 ^ 31" and "k < length rs"
  shows "sint (rec_lsn (rs ! k)) = int (unat n0 + k)" "rec_lsn (rs ! k) \<noteq> invalid_lsn"
proof -
  show s: "sint (rec_lsn (rs ! k)) = int (unat n0 + k)"
    using nth_lsn [OF assms(1,3)] lsn_plus [of n0 k] assms(2,3) by simp
  show "rec_lsn (rs ! k) \<noteq> invalid_lsn"
  proof
    assume "rec_lsn (rs ! k) = invalid_lsn"
    then have "sint (rec_lsn (rs ! k)) = - 1" by (simp add: invalid_lsn_def)
    with s show False by linarith
  qed
qed

lemma find_mem: "find P xs = Some x \<Longrightarrow> P x \<and> x \<in> set xs"
  by (induction xs) (auto split: if_splits)

lemma pending_all: "lsns_from n0 rs \<Longrightarrow> unat n0 + length rs < 2 ^ 31 \<Longrightarrow> ran (open_txns rs) = pending rs (length rs)"
proof -
  assume l: "lsns_from n0 rs" "unat n0 + length rs < 2 ^ 31"
  have o: "open_txns rs i = Some x \<Longrightarrow> x = last_of i rs \<and> (\<exists>r \<in> set rs. x = rec_lsn r)" for i x
    using find_mem [of "\<lambda>r. rec_txn r = i" "rev rs"] by (auto simp: open_txns_def last_of_def split: option.splits if_splits)
  have "rec_lsn r \<noteq> invalid_lsn" if "r \<in> set rs" for r
    using lsn_valid(2) [OF l] that by (auto simp: in_set_conv_nth)
  with o show ?thesis by (fastforce simp: pending_def ran_def)
qed

lemma last_of_index:
  assumes "last_of i rs \<noteq> invalid_lsn"
  shows "\<exists>k < length rs. last_of i rs = rec_lsn (rs ! k)"
  using assms
proof (induction rs rule: rev_induct)
  case (snoc r rs)
  show ?case
  proof (cases "rec_txn r = i")
    case True
    then show ?thesis by (intro exI [of _ "length rs"]) (simp add: last_of_snoc)
  next
    case False
    then obtain k where "k < length rs" "last_of i rs = rec_lsn (rs ! k)" using snoc by (auto simp: last_of_snoc)
    with False show ?thesis by (intro exI [of _ k]) (simp add: last_of_snoc nth_append)
  qed
qed (simp add: last_of_def)

lemma take_Suc_snoc: "k < length rs \<Longrightarrow> take (Suc k) rs = take k rs @ [rs ! k]"
  by (rule take_Suc_conv_app_nth)

lemma pending_winner:
  assumes "k < length rs" and "\<not> loser rs (rs ! k)"
  shows "pending rs (Suc k) = pending rs k"
proof -
  have "(\<lambda>i. last_of i (take (Suc k) rs)) ` {i. open_txns rs i \<noteq> None} = (\<lambda>i. last_of i (take k rs)) ` {i. open_txns rs i \<noteq> None}"
    using assms by (intro image_cong) (auto simp: loser_def take_Suc_snoc last_of_snoc)
  then show ?thesis by (simp add: pending_def setcompr_eq_image)
qed

lemma pending_loser:
  assumes l: "lsns_from n0 rs" "unat n0 + length rs < 2 ^ 31" and k: "k < length rs" and lo: "loser rs (rs ! k)" and ch: "chained rs"
  shows "last_element (pending rs (Suc k)) = rec_lsn (rs ! k)" "pending rs (Suc k) \<noteq> {}"
    "(if rec_prev (rs ! k) \<noteq> invalid_lsn then insert (rec_prev (rs ! k)) (pending rs (Suc k) - {rec_lsn (rs ! k)})
      else pending rs (Suc k) - {rec_lsn (rs ! k)}) = pending rs k"
proof -
  let ?r = "rs ! k"
  note s = lsn_valid(1) [OF l] and val = lsn_valid(2) [OF l k]
  have last: "last_of i (take (Suc k) rs) = (if rec_txn ?r = i then rec_lsn ?r else last_of i (take k rs))" for i
    by (simp add: take_Suc_snoc [OF k] last_of_snoc)
  have less: "sint (last_of i (take k rs)) < sint (rec_lsn ?r)" if ne: "last_of i (take k rs) \<noteq> invalid_lsn" for i
  proof -
    obtain j where "j < length (take k rs)" "last_of i (take k rs) = rec_lsn (take k rs ! j)" using last_of_index [OF ne] by blast
    then show ?thesis using s [OF k] s [of j] k by simp
  qed
  have mem: "rec_lsn ?r \<in> pending rs (Suc k)" using lo val last by (auto simp: pending_def loser_def)
  then show "pending rs (Suc k) \<noteq> {}" by blast
  have le: "sint x \<le> sint (rec_lsn ?r)" if "x \<in> pending rs (Suc k)" for x
    using that less last by (auto simp: pending_def split: if_splits intro: less_imp_le)
  have "finite (sint ` pending rs (Suc k))"
    by (rule finite_subset [of _ "sint ` (UNIV :: lsn set)"]) auto
  with le mem have "Max (sint ` pending rs (Suc k)) = sint (rec_lsn ?r)" by (intro Max_eqI) auto
  then show "last_element (pending rs (Suc k)) = rec_lsn ?r" by (simp add: last_element_def)
  have prev: "rec_prev ?r = last_of (rec_txn ?r) (take k rs)" using ch k by (simp add: chained_def)
  have "last_of i (take k rs) \<noteq> rec_lsn ?r" for i using less [of i] val by fastforce
  moreover have "pending rs (Suc k) = insert (rec_lsn ?r) {last_of i (take k rs) |i. open_txns rs i \<noteq> None \<and> i \<noteq> rec_txn ?r} - {invalid_lsn}"
  proof -
    let ?A = "{i. open_txns rs i \<noteq> None}"
    have "?A = insert (rec_txn ?r) (?A - {rec_txn ?r})" using lo by (auto simp: loser_def)
    then have "(\<lambda>i. last_of i (take (Suc k) rs)) ` ?A =
        (\<lambda>i. last_of i (take (Suc k) rs)) ` insert (rec_txn ?r) (?A - {rec_txn ?r})" by (rule arg_cong)
    also have "\<dots> = insert (last_of (rec_txn ?r) (take (Suc k) rs)) ((\<lambda>i. last_of i (take (Suc k) rs)) ` (?A - {rec_txn ?r}))"
      by (rule image_insert)
    also have "\<dots> = insert (rec_lsn ?r) ((\<lambda>i. last_of i (take k rs)) ` (?A - {rec_txn ?r}))"
      using last by (intro arg_cong2 [where f = insert] image_cong) auto
    finally have img: "(\<lambda>i. last_of i (take (Suc k) rs)) ` ?A = insert (rec_lsn ?r) ((\<lambda>i. last_of i (take k rs)) ` (?A - {rec_txn ?r}))" .
    have "{i. open_txns rs i \<noteq> None \<and> i \<noteq> rec_txn ?r} = ?A - {rec_txn ?r}" by auto
    with img show ?thesis by (simp only: pending_def setcompr_eq_image)
  qed
  ultimately have "pending rs (Suc k) - {rec_lsn ?r} = {last_of i (take k rs) |i. open_txns rs i \<noteq> None \<and> i \<noteq> rec_txn ?r} - {invalid_lsn}"
    by auto
  moreover have "pending rs k = {last_of i (take k rs) |i. open_txns rs i \<noteq> None \<and> i \<noteq> rec_txn ?r} - {invalid_lsn} \<union>
      ({rec_prev ?r} - {invalid_lsn})"
    using lo prev by (auto simp: pending_def loser_def)
  ultimately show "(if rec_prev ?r \<noteq> invalid_lsn then insert (rec_prev ?r) (pending rs (Suc k) - {rec_lsn ?r})
      else pending rs (Suc k) - {rec_lsn ?r}) = pending rs k" by auto
qed

text \<open>The write that undoes the write of a record, and those that undo the unfinished transactions among
  the first \<open>n\<close> records.\<close>

definition undo_op :: "log_record \<Rightarrow> kv_op list" where
  "undo_op r = (case rec_type r of INSERT_REC \<Rightarrow> [KDel (rec_key r)] | DELETE_REC \<Rightarrow> [KPut (rec_key r) (rec_key r)] | _ \<Rightarrow> [])"

definition undo_ops :: "log_record list \<Rightarrow> nat \<Rightarrow> kv_op list" where
  "undo_ops rs n = concat (map undo_op (rev (filter (loser rs) (take n rs))))"

lemma undo_ops_Suc:
  "k < length rs \<Longrightarrow> undo_ops rs (Suc k) = (if loser rs (rs ! k) then undo_op (rs ! k) @ undo_ops rs k else undo_ops rs k)"
  by (simp add: undo_ops_def take_Suc_snoc)

lemma undo_write_effect:
  assumes run: "log_run (set_next_lsn n1 (log_manager_new f0)) qs (rv_log st)" and alive: "log_alive (rv_log st)"
    and r: "record_ok r" "has_payload r" "unat (rec_size r) < log_buffer_size" and ty: "ty = INSERT_REC \<or> ty = DELETE_REC" and j: "5 \<le> j"
  shows "\<exists>st' q. undo_write j ty r st = Some st' \<and> record_ok q \<and> length (image_of q) = length (image_of r) \<and>
    rec_txn q = rec_txn r \<and> rec_type q = ty \<and> rec_key q = rec_key r \<and>
    log_run (set_next_lsn n1 (log_manager_new f0)) (qs @ [q]) (rv_log st') \<and> log_alive (rv_log st') \<and>
    rv_kv st' = rv_kv st \<and> rv_buf st' = rv_buf st \<and> rv_map st' = rv_map st \<and>
    dom (rv_active st') = insert (rec_txn r) (dom (rv_active st))"
proof -
  let ?prev = "case rv_active st (rec_txn r) of Some l \<Rightarrow> l | None \<Rightarrow> 0"
  define q where "q = record_data (rec_txn r) ?prev ty (rec_key_size r) (rec_key r) (rec_value_size r) (rec_value r)"
  have f: "rec_txn q = rec_txn r" "rec_type q = ty" "rec_key q = rec_key r" by (simp_all add: q_def record_data_def)
  have q: "record_ok q" "rec_size q = rec_size r"
    using r(1,2) ty payload_image(2,3) [OF r(1,2)] by (auto simp: q_def record_ok_def record_data_def has_payload_def)
  let ?q = "q\<lparr>rec_lsn := n1 + of_nat (length qs)\<rparr>"
  obtain log' where a: "append_call j q (rv_log st) = Some (log', n1 + of_nat (length qs))" "log_alive log'"
      "log_run (set_next_lsn n1 (log_manager_new f0)) (qs @ [?q]) log'"
    using append_call_five [OF run alive q(1) _ j] r(3) q(2) by auto
  have "record_ok ?q" using q(1) by simp
  then have "length (image_of ?q) = length (image_of r)" using length_image [of ?q] length_image [OF r(1)] q(2) by simp
  moreover have "undo_write j ty r st = Some (st\<lparr>rv_log := log', rv_active := (rv_active st)(rec_txn r \<mapsto> n1 + of_nat (length qs))\<rparr>)"
    using a(1) by (simp add: undo_write_def Let_def q_def)
  ultimately show ?thesis using a(2,3) q(1) f
    by (intro exI [of _ "st\<lparr>rv_log := log', rv_active := (rv_active st)(rec_txn r \<mapsto> n1 + of_nat (length qs))\<rparr>"] exI [of _ ?q]) simp
qed

text \<open>The record that is logged when the write of \<open>r\<close> is undone.\<close>

definition compensates :: "log_record \<Rightarrow> log_record \<Rightarrow> bool" where
  "compensates r q \<longleftrightarrow> record_ok q \<and> rec_txn q = rec_txn r \<and> rec_key q = rec_key r \<and>
     rec_type q = (if rec_type r = INSERT_REC then DELETE_REC else INSERT_REC)"

definition undo_at :: "(bytes \<Rightarrow> bytes) \<Rightarrow> log_record list \<Rightarrow> lsn \<Rightarrow> nat \<Rightarrow> log_record list \<Rightarrow> kv_abst \<Rightarrow> recovery \<Rightarrow> bool" where
  "undo_at snap rs n1 n qs a st \<longleftrightarrow> store_rep snap st a \<and>
     log_run (set_next_lsn n1 (log_manager_new (images rs))) qs (rv_log st) \<and> log_alive (rv_log st) \<and>
     length (rv_buf st) = log_buffer_size \<and> dom (rv_active st) = dom (open_txns rs) \<and>
     (\<forall>i < length rs. rv_map st (rec_lsn (rs ! i)) = Some (length (images (take i rs)), rec_size (rs ! i))) \<and>
     length (images qs) + length (images (take n rs)) \<le> length (images rs)"

lemma payload_type: "comes_back r \<Longrightarrow> \<not> has_payload r \<Longrightarrow> rec_type r \<in> {BEGIN_REC, COMMIT_REC, ABORT_REC}"
  by (auto simp: comes_back_def record_ok_def)

lemma undo_log_effect:
  assumes snap: "snappy_ok snap unsnap" and k: "k < length rs" and at: "undo_at snap rs n1 (Suc k) qs a st"
    and r: "comes_back (rs ! k)" "unat (rec_size (rs ! k)) < log_buffer_size" "loser rs (rs ! k)"
    and fit: "all_fit a (undo_op (rs ! k))" and j: "5 \<le> j"
  shows "\<exists>st' cs. undo_log snap unsnap draw j (rs ! k) st = Some st' \<and>
    undo_at snap rs n1 k (qs @ cs) (foldl kv_abs a (undo_op (rs ! k))) st' \<and>
    list_all2 compensates (filter has_payload [rs ! k]) cs"
proof -
  let ?r = "rs ! k"
  have len: "length (images (take (Suc k) rs)) = length (images (take k rs)) + length (image_of ?r)"
    by (simp add: take_Suc_snoc [OF k])
  show ?thesis
  proof (cases "has_payload ?r")
    case False
    then have "undo_log snap unsnap draw j ?r st = Some st" "undo_op ?r = []"
      using payload_type [OF r(1)] by (auto simp: undo_log_def undo_op_def)
    with at False len show ?thesis by (intro exI [of _ st] exI [of _ "[]"]) (simp add: undo_at_def)
  next
    case True
    note ok = comes_back_ok [OF r(1)]
    note kv = key_value_of(1) [OF ok True]
    obtain s where store: "rv_kv st = Some s" "kv_rep snap s a" using at by (auto simp: undo_at_def store_rep_def)
    let ?ty = "if rec_type ?r = INSERT_REC then DELETE_REC else INSERT_REC"
    have wr: "\<exists>kv'. kv_rep snap kv' (foldl kv_abs a (undo_op ?r)) \<and>
        undo_log snap unsnap draw j ?r st = undo_write j ?ty ?r (st\<lparr>rv_kv := Some kv'\<rparr>)"
    proof (cases "rec_type ?r = INSERT_REC")
      case True
      from kv_del_rep [OF snap store(2), of "draw (rec_lsn ?r)" "rec_key ?r"] show ?thesis
        using True kv store(1) by (auto simp: undo_log_def undo_op_def)
    next
      case False
      then have d: "rec_type ?r = DELETE_REC" using True by (simp add: has_payload_def)
      have "kv_rep snap s (fst a, snd a)" "kv_fits (fst a, snd a) (KPut (rec_key ?r) (rec_key ?r))"
        using store(2) fit d by (simp_all add: undo_op_def del: kv_fits.simps)
      from kv_put_rep [OF snap this, of "draw (rec_lsn ?r)"] show ?thesis
        using d kv store(1) by (auto simp: undo_log_def undo_op_def)
    qed
    then obtain kv' where w: "kv_rep snap kv' (foldl kv_abs a (undo_op ?r))"
        "undo_log snap unsnap draw j ?r st = undo_write j ?ty ?r (st\<lparr>rv_kv := Some kv'\<rparr>)" by blast
    let ?st = "st\<lparr>rv_kv := Some kv'\<rparr>"
    have log: "log_run (set_next_lsn n1 (log_manager_new (images rs))) qs (rv_log ?st)" "log_alive (rv_log ?st)"
      using at by (simp_all add: undo_at_def)
    have "?ty = INSERT_REC \<or> ?ty = DELETE_REC" by simp
    from undo_write_effect [OF log ok True r(2) this j] obtain st' q where
      q: "record_ok q" "rec_txn q = rec_txn ?r" "rec_type q = ?ty" "rec_key q = rec_key ?r"
      and s: "undo_write j ?ty ?r ?st = Some st'" "length (image_of q) = length (image_of ?r)"
        "log_run (set_next_lsn n1 (log_manager_new (images rs))) (qs @ [q]) (rv_log st')" "log_alive (rv_log st')"
        "rv_kv st' = rv_kv ?st" "rv_buf st' = rv_buf ?st" "rv_map st' = rv_map ?st"
        "dom (rv_active st') = insert (rec_txn ?r) (dom (rv_active ?st))"
      by blast
    have c: "compensates ?r q" using q unfolding compensates_def by blast
    have "insert (rec_txn ?r) (dom (rv_active st)) = dom (rv_active st)"
      using at r(3) by (auto simp: undo_at_def loser_def)
    then have "undo_at snap rs n1 k (qs @ [q]) (foldl kv_abs a (undo_op ?r)) st'"
      using at s(2-8) w(1) len by (simp add: undo_at_def store_rep_def)
    with w(2) s(1) c True show ?thesis by (intro exI [of _ st'] exI [of _ "[q]"]) simp
  qed
qed

lemma undo_loop_effect:
  assumes snap: "snappy_ok snap unsnap" and rs: "\<forall>r \<in> set rs. comes_back r \<and> unat (rec_size r) < log_buffer_size"
    and l: "lsns_from n0 rs" "unat n0 + length rs < 2 ^ 31" and ch: "chained rs" and len: "2 * length (images rs) < 2 ^ 31"
    and j: "5 \<le> j"
  shows "n \<le> length rs \<Longrightarrow> undo_at snap rs n1 n qs a st \<Longrightarrow> all_fit a (undo_ops rs n) \<Longrightarrow>
    \<exists>st' cs. undo_loop snap unsnap draw j True (pending rs n) st = Some st' \<and>
      undo_at snap rs n1 0 (qs @ cs) (foldl kv_abs a (undo_ops rs n)) st' \<and>
      list_all2 compensates (filter has_payload (rev (filter (loser rs) (take n rs)))) cs"
proof (induction n arbitrary: qs a st)
  case 0
  then show ?case by (intro exI [of _ st] exI [of _ "[]"]) (simp add: undo_loop.simps undo_ops_def)
next
  case (Suc k)
  then have k: "k < length rs" by simp
  let ?r = "rs ! k"
  have r: "comes_back ?r" "unat (rec_size ?r) < log_buffer_size" and ok: "\<forall>r \<in> set rs. comes_back r" using rs k by auto
  show ?case
  proof (cases "loser rs ?r")
    case False
    have "length (images (take k rs)) \<le> length (images (take (Suc k) rs))" by (simp add: take_Suc_snoc [OF k])
    then have "undo_at snap rs n1 k qs a st" using Suc.prems(2) by (simp add: undo_at_def)
    from Suc.IH [OF _ this] k False Suc.prems(3) show ?thesis
      by (simp add: pending_winner [OF k False] undo_ops_Suc [OF k]) (simp add: take_Suc_snoc [OF k])
  next
    case True
    note pend = pending_loser [OF l k True ch]
    have run: "log_run (set_next_lsn n1 (log_manager_new (images rs))) qs (rv_log st)" using Suc.prems(2) by (simp add: undo_at_def)
    obtain extra where f: "lg_file (rv_log st) = images rs @ extra" "length extra \<le> length (images qs)"
      using file_bound [OF run] by blast
    have buf: "length (rv_buf st) = log_buffer_size" and map: "rv_map st (rec_lsn ?r) = Some (length (images (take k rs)), rec_size ?r)"
      and sz: "length (images qs) \<le> length (images rs)"
      using Suc.prems(2) k by (simp_all add: undo_at_def)
    have "length (images rs @ extra) < 2 ^ 31" using len f(2) sz by simp
    from read_record [OF k ok _ this, of "rv_buf st"] r(2) buf obtain buf' where
      b: "read_into (lg_file (rv_log st)) (rec_size ?r) (length (images (take k rs))) (rv_buf st) = Some buf'"
        "length buf' = log_buffer_size" "deserialize True buf' 0 = Some ?r" by (auto simp: f(1))
    let ?st = "st\<lparr>rv_map := (rv_map st)(rec_lsn ?r \<mapsto> (length (images (take k rs)), rec_size ?r)), rv_buf := buf'\<rparr>"
    have same: "(rv_map st)(rec_lsn ?r \<mapsto> (length (images (take k rs)), rec_size ?r)) = rv_map st" using map by auto
    have at: "undo_at snap rs n1 (Suc k) qs a ?st" using Suc.prems(2) b(2) by (simp add: undo_at_def store_rep_def same)
    have fit: "all_fit a (undo_op ?r)" "all_fit (foldl kv_abs a (undo_op ?r)) (undo_ops rs k)"
      using Suc.prems(3) True by (simp_all add: undo_ops_Suc [OF k] all_fit_append)
    obtain st1 cs where s: "undo_log snap unsnap draw j ?r ?st = Some st1"
        "undo_at snap rs n1 k (qs @ cs) (foldl kv_abs a (undo_op ?r)) st1" "list_all2 compensates (filter has_payload [?r]) cs"
      using undo_log_effect [OF snap k at r True fit(1) j] by blast
    from Suc.IH [OF _ s(2) fit(2)] k obtain st2 ds where
      t: "undo_loop snap unsnap draw j True (pending rs k) st1 = Some st2"
        "undo_at snap rs n1 0 ((qs @ cs) @ ds) (foldl kv_abs (foldl kv_abs a (undo_op ?r)) (undo_ops rs k)) st2"
        "list_all2 compensates (filter has_payload (rev (filter (loser rs) (take k rs)))) ds" by auto
    have "undo_loop snap unsnap draw j True (pending rs (Suc k)) st = undo_loop snap unsnap draw j True (pending rs k) st1"
      using pend map b(1,3) s(1) by (subst undo_loop.simps) (simp add: Let_def)
    moreover have "list_all2 compensates (filter has_payload (rev (filter (loser rs) (take (Suc k) rs)))) (cs @ ds)"
      using list_all2_appendI [OF s(3) t(3)] True by (simp add: take_Suc_snoc [OF k] split: if_splits)
    ultimately show ?thesis using t(1,2) True by (intro exI [of _ st2] exI [of _ "cs @ ds"]) (simp add: undo_ops_Suc [OF k])
  qed
qed

lemma abort_all_effect:
  "log_run (set_next_lsn n1 (log_manager_new f0)) qs (rv_log st) \<Longrightarrow> log_alive (rv_log st) \<Longrightarrow> 5 \<le> j \<Longrightarrow>
   set order \<subseteq> dom (rv_active st) \<Longrightarrow>
   \<exists>st' as. abort_all j True order st = Some st' \<and> log_run (set_next_lsn n1 (log_manager_new f0)) (qs @ as) (rv_log st') \<and>
     map rec_txn as = order \<and> (\<forall>r \<in> set as. rec_type r = ABORT_REC) \<and> rv_kv st' = rv_kv st"
proof (induction order arbitrary: qs st)
  case Nil
  then show ?case by (intro exI [of _ st] exI [of _ "[]"]) simp
next
  case (Cons i order)
  obtain l where l: "rv_active st i = Some l" using Cons.prems(4) by auto
  obtain r where r: "record_control True i l ABORT_REC = Some r" "record_ok r" "rec_type r = ABORT_REC" "rec_txn r = i"
    using record_control_ok [of ABORT_REC True i l] by auto
  have "unat (rec_size r) < log_buffer_size" using r(2,3) by (simp add: record_ok_def has_payload_def log_buffer_size_def)
  from append_call_five [OF Cons.prems(1,2) r(2) this Cons.prems(3)] obtain log' where
    a: "append_call j r (rv_log st) = Some (log', n1 + of_nat (length qs))" "log_alive log'"
      "log_run (set_next_lsn n1 (log_manager_new f0)) (qs @ [r\<lparr>rec_lsn := n1 + of_nat (length qs)\<rparr>]) log'" by blast
  let ?st = "st\<lparr>rv_log := log'\<rparr>"
  have "log_run (set_next_lsn n1 (log_manager_new f0)) (qs @ [r\<lparr>rec_lsn := n1 + of_nat (length qs)\<rparr>]) (rv_log ?st)"
    "log_alive (rv_log ?st)" "set order \<subseteq> dom (rv_active ?st)" using a(2,3) Cons.prems(4) by simp_all
  from Cons.IH [OF this(1,2) Cons.prems(3) this(3)] obtain st' as where
    s: "abort_all j True order ?st = Some st'"
      "log_run (set_next_lsn n1 (log_manager_new f0)) ((qs @ [r\<lparr>rec_lsn := n1 + of_nat (length qs)\<rparr>]) @ as) (rv_log st')"
      "map rec_txn as = order" "\<forall>r \<in> set as. rec_type r = ABORT_REC" "rv_kv st' = rv_kv st" by auto
  with l r a(1) show ?case
    by (intro exI [of _ st'] exI [of _ "r\<lparr>rec_lsn := n1 + of_nat (length qs)\<rparr> # as"]) simp
qed


text \<open>Transaction 1 puts and commits; transaction 2 overwrites the pair and does not end. After recovery the
  committed value is gone, too.\<close>

definition crash_log :: "log_record list" where
  "crash_log =
     [record_default\<lparr>rec_size := 24, rec_lsn := 0, rec_txn := 1, rec_type := BEGIN_REC\<rparr>,
      (record_of_kv 1 0 INSERT_REC [5] [1])\<lparr>rec_lsn := 1\<rparr>,
      record_default\<lparr>rec_size := 24, rec_lsn := 2, rec_txn := 1, rec_prev := 1, rec_type := COMMIT_REC\<rparr>,
      record_default\<lparr>rec_size := 24, rec_lsn := 3, rec_txn := 2, rec_type := BEGIN_REC\<rparr>,
      (record_of_kv 2 3 INSERT_REC [5] [2])\<lparr>rec_lsn := 4\<rparr>]"

lemma crash_log_ok:
  "\<forall>r \<in> set crash_log. comes_back r" "\<forall>r \<in> set crash_log. unat (rec_size r) < log_buffer_size" "length (images crash_log) = 140"
  "lsns_from 0 crash_log" "chained crash_log" "dom (open_txns crash_log) = {2}"
  "ops_of crash_log @ undo_ops crash_log (length crash_log) = [KPut [5] [1], KPut [5] [2], KDel [5]]"
proof -
  have "record_ok (record_of_kv i l INSERT_REC [5] [v])" for i l v by (rule record_of_kv_ok) simp_all
  moreover have "record_ok (record_default\<lparr>rec_size := 24, rec_lsn := l, rec_txn := i, rec_prev := p, rec_type := ty\<rparr>)"
    if "ty \<in> {BEGIN_REC, COMMIT_REC, ABORT_REC}" for l i p ty
    using that by (auto simp: record_ok_def has_payload_def record_default_def)
  note c = this [where p = invalid_lsn and ty = BEGIN_REC] this [where ty = COMMIT_REC]
  have b: "record_default\<lparr>rec_size := 24, rec_lsn := l, rec_txn := i, rec_type := BEGIN_REC\<rparr> =
      record_default\<lparr>rec_size := 24, rec_lsn := l, rec_txn := i, rec_prev := invalid_lsn, rec_type := BEGIN_REC\<rparr>" for l i
    by (simp add: record_default_def)
  ultimately have ok: "\<forall>r \<in> set crash_log. record_ok r" using c by (simp add: crash_log_def b)
  then show "\<forall>r \<in> set crash_log. comes_back r"
    by (auto simp: comes_back_def crash_log_def record_of_kv_def record_data_def record_default_def)
  show sz: "\<forall>r \<in> set crash_log. unat (rec_size r) < log_buffer_size"
    by (simp add: crash_log_def record_of_kv_def record_data_def log_buffer_size_def)
  have "length (image_of r) = unat (rec_size r)" if "r \<in> set crash_log" for r using ok length_image that by blast
  then show "length (images crash_log) = 140" by (simp add: crash_log_def record_of_kv_def record_data_def)
  show "lsns_from 0 crash_log" by (simp add: lsns_from_def crash_log_def upt_rec)
  show "chained crash_log"
    by (simp add: chained_def crash_log_def record_of_kv_def record_data_def record_default_def last_of_def All_less_Suc numeral_eq_Suc)
  have o: "open_txns crash_log = [2 \<mapsto> 4]"
    by (rule ext) (simp add: open_txns_def crash_log_def record_of_kv_def record_data_def record_default_def ended_def)
  then show "dom (open_txns crash_log) = {2}" by simp
  have lo: "loser crash_log = (\<lambda>r. rec_txn r = 2)" by (auto simp: loser_def o fun_eq_iff)
  show "ops_of crash_log @ undo_ops crash_log (length crash_log) = [KPut [5] [1], KPut [5] [2], KDel [5]]"
    unfolding undo_ops_def lo by (simp add: op_of_def undo_op_def crash_log_def record_of_kv_def record_data_def record_default_def)
qed


end
