(* ===== verification/Timestamp.thy ===== *)
theory Timestamp
  imports Prelude
begin

text \<open>
  The timestamp oracle of the meta server (\<open>meta_server/timestamp.h\<close>) and the errors of \<open>meta_server/defs.h\<close>.

  A timestamp is a physical part in milliseconds, shifted by 18 bits, plus a logical part. All numbers are
  \<open>uint64_t\<close>, that is \<open>64 word\<close>; \<open>signed(x)\<close> cuts to an \<open>int\<close>. What \<open>GetPhysical\<close> reads from the system clock
  is an argument. Of the file system the oracle needs the data directory, which may be missing or not
  accessible, and the file with the saved timestamp.
\<close>

datatype meta_error =
  NO_DATABASE | NO_TABLE | PARTITION_KEY_NOT_TRUE | PARTITION_TYPE_NOT_TRUE | NO_PARTITION_OR_REPLICA | NO_META_DIR | UnixError

record meta_dir =
  md_is_dir :: bool
  md_chdir :: bool
  md_saved :: "64 word option"

record ts_oracle =
  or_last :: "64 word"
  or_physical :: "64 word"
  or_logical :: "64 word"

text \<open>The constructor sets \<open>lastTS\<close> only; \<open>p\<close> and \<open>l\<close> are what is in the memory of \<open>current_\<close>, up to the first \<open>syncTimestamp\<close>.\<close>

definition oracle_new :: "64 word \<Rightarrow> 64 word \<Rightarrow> ts_oracle" where
  "oracle_new p l = \<lparr>or_last = 0, or_physical = p, or_logical = l\<rparr>"

abbreviation physical_shift_bits :: nat where "physical_shift_bits \<equiv> 18"
abbreviation max_retry_count :: nat where "max_retry_count \<equiv> 100"
abbreviation update_timestamp_guard :: "64 word" where "update_timestamp_guard \<equiv> 1"
abbreviation save_timestamp_interval :: "64 word" where "save_timestamp_interval \<equiv> 1"

definition max_logical :: "64 word" where
  "max_logical = push_bit physical_shift_bits 1"

definition compose_ts :: "64 word \<Rightarrow> 64 word \<Rightarrow> 64 word" where
  "compose_ts physical logical = push_bit physical_shift_bits physical + logical"

definition extract_physical :: "64 word \<Rightarrow> 64 word" where
  "extract_physical ts = drop_bit physical_shift_bits ts"

definition enter_dir :: "meta_dir \<Rightarrow> meta_error + unit" where
  "enter_dir d = (if \<not> md_is_dir d then Inl NO_META_DIR else if \<not> md_chdir d then Inl UnixError else Inr ())"

text \<open>A missing file leaves \<open>lastTS\<close> as it is.\<close>

definition get_timestamp_from_path :: "meta_dir \<Rightarrow> ts_oracle \<Rightarrow> meta_error + ts_oracle" where
  "get_timestamp_from_path d s =
     (case enter_dir d of
        Inl e \<Rightarrow> Inl e
      | Inr _ \<Rightarrow> Inr (case md_saved d of Some ts \<Rightarrow> s\<lparr>or_last := ts\<rparr> | None \<Rightarrow> s))"

definition save_timestamp_to_path :: "64 word \<Rightarrow> meta_dir \<Rightarrow> meta_error + meta_dir" where
  "save_timestamp_to_path ts d = (case enter_dir d of Inl e \<Rightarrow> Inl e | Inr _ \<Rightarrow> Inr (d\<lparr>md_saved := Some ts\<rparr>))"

definition sync_timestamp :: "64 word \<Rightarrow> meta_dir \<times> ts_oracle \<Rightarrow> meta_error + meta_dir \<times> ts_oracle" where
  "sync_timestamp now st = (case st of (d, s) \<Rightarrow>
     (case get_timestamp_from_path d s of
        Inl e \<Rightarrow> Inl e
      | Inr s1 \<Rightarrow>
          (let next = (if now - or_last s1 < update_timestamp_guard then or_last s1 + update_timestamp_guard else now) in
           case save_timestamp_to_path (next + save_timestamp_interval) d of
             Inl e \<Rightarrow> Inl e
           | Inr d1 \<Rightarrow> Inr (d1, s1\<lparr>or_physical := next, or_logical := 0\<rparr>))))"

text \<open>\<open>signed(lastTS - next) <= signed(updateTimestampGuard)\<close>\<close>

definition must_save :: "64 word \<Rightarrow> 64 word \<Rightarrow> bool" where
  "must_save saved next \<longleftrightarrow> sint (ucast (saved - next) :: 32 word) \<le> sint (ucast update_timestamp_guard :: 32 word)"

definition set_physical :: "64 word \<Rightarrow> meta_dir \<times> ts_oracle \<Rightarrow> meta_error + meta_dir \<times> ts_oracle" where
  "set_physical next st = (case st of (d, s) \<Rightarrow>
     (if must_save (or_last s) next
      then (case save_timestamp_to_path (next + save_timestamp_interval) d of
              Inl e \<Rightarrow> Inl e
            | Inr d1 \<Rightarrow> Inr (d1, s\<lparr>or_physical := next, or_logical := 0\<rparr>))
      else Inr (d, s\<lparr>or_physical := next, or_logical := 0\<rparr>)))"

definition update_timestamp :: "64 word \<Rightarrow> meta_dir \<times> ts_oracle \<Rightarrow> meta_error + meta_dir \<times> ts_oracle" where
  "update_timestamp now st =
     (if sint (now - or_physical (snd st)) > sint (ucast update_timestamp_guard :: 32 word) then set_physical now st
      else if or_logical (snd st) > max_logical div 2 then set_physical (or_physical (snd st) + 1) st
      else Inr st)"

text \<open>One round of the loop of \<open>getTimeStamp\<close>. \<open>current_.physiacl\<close> is read under the mutex, and then again without it
  to see whether the oracle was synchronised: \<open>seen\<close> is what the second read gives, the same value or one
  that another thread has set meanwhile.\<close>

definition get_attempt :: "64 word \<Rightarrow> ts_oracle \<Rightarrow> ts_oracle \<times> 64 word option" where
  "get_attempt seen s =
     (let s1 = s\<lparr>or_logical := or_logical s + 1\<rparr> in
      if seen = 0 then (s1, None)
      else if or_logical s1 > max_logical then (s1, None)
      else (s1, Some (compose_ts (or_physical s) (or_logical s1))))"

text \<open>\<open>env i\<close> is what the other threads do to the oracle while round \<open>i\<close> sleeps, \<open>seen i\<close> what its second read sees.\<close>

fun get_timestamp_from :: "nat \<Rightarrow> (nat \<Rightarrow> 64 word) \<Rightarrow> (nat \<Rightarrow> ts_oracle \<Rightarrow> ts_oracle) \<Rightarrow> nat \<Rightarrow> ts_oracle \<Rightarrow> ts_oracle \<times> 64 word" where
  "get_timestamp_from 0 seen env i s = (s, 0)"
| "get_timestamp_from (Suc n) seen env i s =
     (case get_attempt (seen i) s of
        (s1, Some ts) \<Rightarrow> (s1, ts)
      | (s1, None) \<Rightarrow> get_timestamp_from n seen env (Suc i) (env i s1))"

definition get_timestamp :: "(nat \<Rightarrow> 64 word) \<Rightarrow> (nat \<Rightarrow> ts_oracle \<Rightarrow> ts_oracle) \<Rightarrow> ts_oracle \<Rightarrow> ts_oracle \<times> 64 word" where
  "get_timestamp seen env s = get_timestamp_from max_retry_count seen env 0 s"

section \<open>Runs\<close>

text \<open>The steps of any number of threads that ask for timestamps and of the thread that updates the oracle.\<close>

datatype oracle_event = Attempt "64 word" | Update "64 word"

fun oracle_run :: "oracle_event list \<Rightarrow> meta_dir \<times> ts_oracle \<Rightarrow> meta_error + (meta_dir \<times> ts_oracle) \<times> 64 word list" where
  "oracle_run [] st = Inr (st, [])"
| "oracle_run (Attempt seen # es) st =
     (case get_attempt seen (snd st) of (s1, t) \<Rightarrow>
        (case oracle_run es (fst st, s1) of
           Inl e \<Rightarrow> Inl e
         | Inr (st1, ts) \<Rightarrow> Inr (st1, (case t of Some x \<Rightarrow> x # ts | None \<Rightarrow> ts))))"
| "oracle_run (Update now # es) st =
     (case update_timestamp now st of Inl e \<Rightarrow> Inl e | Inr st1 \<Rightarrow> oracle_run es st1)"

section \<open>Timestamps grow\<close>

text \<open>No timestamp handed out so far is above this.\<close>

definition ceiling_of :: "ts_oracle \<Rightarrow> nat" where
  "ceiling_of s = unat (or_physical s) * 2 ^ 18 + min (unat (or_logical s)) (2 ^ 18)"

lemma unat_small64: "n < 2 ^ 64 \<Longrightarrow> unat (of_nat n :: 64 word) = n"
  by (simp add: unat_of_nat take_bit_nat_eq_self)

lemma unat_plus_small: "unat a + unat b < 2 ^ 64 \<Longrightarrow> unat (a + b :: 64 word) = unat a + unat b"
  using unat_small64 [of "unat a + unat b"] by simp

lemma unat_compose:
  assumes "unat p < 2 ^ 45" and "unat l \<le> 2 ^ 18"
  shows "unat (compose_ts p l) = unat p * 2 ^ 18 + unat l"
proof -
  have "compose_ts p l = of_nat (unat p * 2 ^ 18 + unat l)" by (simp add: compose_ts_def push_bit_eq_mult)
  moreover have "unat p * 2 ^ 18 + unat l < 2 ^ 64" using assms by simp
  ultimately show ?thesis using unat_small64 by (simp only:)
qed

lemma unat_max_logical: "unat max_logical = 2 ^ 18"
  by (simp add: max_logical_def push_bit_eq_mult)

lemma get_attempt_effect:
  assumes "get_attempt seen s = (s1, t)" and "unat (or_physical s) < 2 ^ 45" and "unat (or_logical s) < 2 ^ 63"
  shows "or_physical s1 = or_physical s" "unat (or_logical s1) = Suc (unat (or_logical s))" "or_last s1 = or_last s"
    "ceiling_of s \<le> ceiling_of s1" "t = Some ts \<Longrightarrow> unat ts = ceiling_of s1 \<and> ceiling_of s < ceiling_of s1"
proof -
  have s1: "s1 = s\<lparr>or_logical := or_logical s + 1\<rparr>" using assms(1) by (auto simp: get_attempt_def Let_def split: if_splits)
  have l: "unat (or_logical s + 1) = Suc (unat (or_logical s))" using unat_plus_small [of "or_logical s" 1] assms(3) by simp
  show "or_physical s1 = or_physical s" "unat (or_logical s1) = Suc (unat (or_logical s))" "or_last s1 = or_last s"
    using l by (simp_all add: s1)
  show "ceiling_of s \<le> ceiling_of s1" using l by (simp add: ceiling_of_def s1)
  assume "t = Some ts"
  then have ts: "ts = compose_ts (or_physical s) (or_logical s + 1)" "\<not> max_logical < or_logical s + 1"
    using assms(1) by (auto simp: get_attempt_def Let_def split: if_splits)
  then have le: "unat (or_logical s + 1) \<le> 2 ^ 18" by (simp add: word_less_nat_alt unat_max_logical)
  then show "unat ts = ceiling_of s1 \<and> ceiling_of s < ceiling_of s1"
    using unat_compose [OF assms(2) le] l by (simp add: ts(1) ceiling_of_def s1)
qed

lemma signed_difference:
  assumes "unat a < 2 ^ 45" and "unat b < 2 ^ 45"
  shows "sint (a - b :: 64 word) = int (unat a) - int (unat b)"
proof -
  have "a - b = word_of_int (int (unat a) - int (unat b))" by simp
  moreover have "signed_take_bit 63 (int (unat a) - int (unat b)) = int (unat a) - int (unat b)"
  proof (rule signed_take_bit_int_eq_self)
    have b: "unat a < 35184372088832" "unat b < 35184372088832" using assms by simp_all
    have e: "(2 :: int) ^ 63 = 9223372036854775808" by simp
    show "- (2 ^ 63) \<le> int (unat a) - int (unat b)" "int (unat a) - int (unat b) < 2 ^ 63" unfolding e using b by linarith+
  qed
  ultimately show ?thesis using signed_of_int [of "int (unat a) - int (unat b)", where 'a = int and 'b = 64] by simp
qed

lemma set_physical_oracle:
  "set_physical next (d, s) = Inr (d1, s1) \<Longrightarrow> s1 = s\<lparr>or_physical := next, or_logical := 0\<rparr>"
  by (auto simp: set_physical_def split: if_splits sum.splits)

lemma update_effect:
  assumes "update_timestamp now (d, s) = Inr (d1, s1)" and "unat now < 2 ^ 44" and "unat (or_physical s) < 2 ^ 44 + 2 ^ 44"
  shows "(d1, s1) = (d, s) \<or> set_physical (or_physical s1) (d, s) = Inr (d1, s1) \<and> unat (or_physical s) < unat (or_physical s1) \<and>
    unat (or_physical s1) \<le> max (unat now) (Suc (unat (or_physical s))) \<and> or_logical s1 = 0"
proof -
  have p: "unat now < 2 ^ 45" "unat (or_physical s) < 2 ^ 45" using assms(2,3) by simp_all
  have one: "unat (or_physical s + 1) = Suc (unat (or_physical s))" using unat_plus_small [of "or_physical s" 1] p by simp
  consider (late) "sint (now - or_physical s) > 1" | (full) "\<not> sint (now - or_physical s) > 1" "or_logical s > max_logical div 2"
    | (none) "\<not> sint (now - or_physical s) > 1" "\<not> or_logical s > max_logical div 2" by blast
  then show ?thesis
  proof cases
    case late
    then have "int (unat (or_physical s)) < int (unat now)" unfolding signed_difference [OF p] by linarith
    then have "unat (or_physical s) < unat now" by linarith
    moreover have "set_physical now (d, s) = Inr (d1, s1)" using assms(1) late by (simp add: update_timestamp_def)
    ultimately show ?thesis using set_physical_oracle by fastforce
  next
    case full
    then have "set_physical (or_physical s + 1) (d, s) = Inr (d1, s1)" using assms(1) by (simp add: update_timestamp_def)
    with one set_physical_oracle show ?thesis by fastforce
  next
    case none
    then show ?thesis using assms(1) by (simp add: update_timestamp_def)
  qed
qed

lemma ceiling_update: "unat (or_physical s) < unat (or_physical s1) \<Longrightarrow> or_logical s1 = 0 \<Longrightarrow> ceiling_of s \<le> ceiling_of s1"
proof -
  assume p: "unat (or_physical s) < unat (or_physical s1)" and "or_logical s1 = 0"
  have "ceiling_of s \<le> Suc (unat (or_physical s)) * 2 ^ 18" by (simp add: ceiling_of_def)
  also have "\<dots> \<le> unat (or_physical s1) * 2 ^ 18" using p by (intro mult_le_mono1) simp
  also have "\<dots> \<le> ceiling_of s1" by (simp add: ceiling_of_def)
  finally show ?thesis .
qed

lemma oracle_run_grows:
  assumes "oracle_run es (d, s) = Inr ((d1, s1), ts)" and "\<forall>n. Update n \<in> set es \<longrightarrow> unat n < 2 ^ 44"
    and "unat (or_physical s) + length es < 2 ^ 44 + 2 ^ 44" and "unat (or_logical s) + length es < 2 ^ 63" and "length es < 2 ^ 44"
  shows "sorted_wrt (<) (map unat ts) \<and> (\<forall>t \<in> set ts. ceiling_of s < unat t \<and> unat t \<le> ceiling_of s1) \<and> ceiling_of s \<le> ceiling_of s1"
  using assms
proof (induction es arbitrary: d s ts)
  case Nil
  then show ?case by simp
next
  case (Cons e es)
  show ?case
  proof (cases e)
    case (Attempt seen)
    obtain s2 t where a: "get_attempt seen s = (s2, t)" by (cases "get_attempt seen s")
    obtain ts' where r: "oracle_run es (d, s2) = Inr ((d1, s1), ts')" "ts = (case t of Some x \<Rightarrow> x # ts' | None \<Rightarrow> ts')"
      using Cons.prems(1) a Attempt by (auto split: sum.splits)
    have b: "unat (or_physical s) < 2 ^ 45" "unat (or_logical s) < 2 ^ 63" using Cons.prems(3,4) by simp_all
    note eff = get_attempt_effect [OF a b]
    have ih: "sorted_wrt (<) (map unat ts') \<and> (\<forall>t \<in> set ts'. ceiling_of s2 < unat t \<and> unat t \<le> ceiling_of s1) \<and> ceiling_of s2 \<le> ceiling_of s1"
      using Cons.IH [OF r(1)] Cons.prems(2-5) eff(1,2) by simp
    show ?thesis
    proof (cases t)
      case None
      then show ?thesis using ih eff(4) r(2) by (auto intro: order.strict_trans1)
    next
      case (Some x)
      then show ?thesis using ih eff(5) [OF Some] r(2) by auto
    qed
  next
    case (Update now)
    obtain d2 s2 where u: "update_timestamp now (d, s) = Inr (d2, s2)" and r: "oracle_run es (d2, s2) = Inr ((d1, s1), ts)"
      using Cons.prems(1) Update by (auto split: sum.splits)
    have n: "unat now < 2 ^ 44" using Cons.prems(2) Update by simp
    have p: "unat (or_physical s) < 2 ^ 44 + 2 ^ 44" using Cons.prems(3) by simp
    have "ceiling_of s \<le> ceiling_of s2 \<and> unat (or_physical s2) + length es < 2 ^ 44 + 2 ^ 44 \<and> unat (or_logical s2) + length es < 2 ^ 63"
      using update_effect [OF u n p] Cons.prems(3-5) n ceiling_update [of s s2] by auto
    with Cons.IH [OF r] Cons.prems(2,5) show ?thesis by (auto intro: order.strict_trans1)
  qed
qed

text \<open>The cut of \<open>lastTS - next\<close> to an \<open>int\<close> is harmless for 24 days after the start.\<close>

lemma must_save_near:
  assumes "unat l \<le> unat n" and "unat n < unat l + 2 ^ 31"
  shows "must_save l n"
proof -
  let ?k = "int (unat l) - int (unat n)"
  have "l - n = word_of_int ?k" by simp
  then have "(ucast (l - n) :: 32 word) = word_of_int (take_bit 64 ?k)"
    using unsigned_of_int [of ?k, where 'a = "32 word" and 'b = 64] by (simp only:) simp
  moreover have "signed_take_bit 31 (take_bit 64 ?k) = signed_take_bit 31 ?k" by (simp add: signed_take_bit_take_bit)
  moreover have "signed_take_bit 31 ?k = ?k"
  proof (rule signed_take_bit_int_eq_self)
    have e: "(2 :: int) ^ 31 = 2147483648" by simp
    have "unat n < unat l + 2147483648" using assms(2) by simp
    then show "- (2 ^ 31) \<le> ?k" "?k < 2 ^ 31" unfolding e using assms(1) by linarith+
  qed
  ultimately have "sint (ucast (l - n) :: 32 word) = ?k"
    using signed_of_int [of "take_bit 64 ?k", where 'a = int and 'b = 32] by simp
  moreover have "?k \<le> 1" using assms(1) by linarith
  ultimately show ?thesis by (simp add: must_save_def)
qed

lemma oracle_run_saves:
  assumes "oracle_run es (d, s) = Inr ((d1, s1), ts)" and "md_saved d = Some v" and "unat (or_physical s) < unat v"
    and "or_last s = l" and "unat l \<le> unat (or_physical s)" and "unat (or_physical s) + length es < unat l + 2 ^ 31" and "unat l < 2 ^ 43"
    and "\<forall>n. Update n \<in> set es \<longrightarrow> unat n + length es < unat l + 2 ^ 31" and "unat (or_logical s) + length es < 2 ^ 63"
  shows "\<exists>v1. md_saved d1 = Some v1 \<and> unat (or_physical s1) < unat v1"
  using assms(1-6,8,9)
proof (induction es arbitrary: d s ts v)
  case Nil
  then show ?case by simp
next
  case (Cons e es)
  show ?case
  proof (cases e)
    case (Attempt seen)
    obtain s2 t where a: "get_attempt seen s = (s2, t)" by (cases "get_attempt seen s")
    obtain ts' where r: "oracle_run es (d, s2) = Inr ((d1, s1), ts')" using Cons.prems(1) a Attempt by (auto split: sum.splits)
    have b: "unat (or_physical s) < 2 ^ 45" "unat (or_logical s) < 2 ^ 63" using Cons.prems(6,8) assms(7) by simp_all
    show ?thesis using Cons.IH [OF r] Cons.prems(2-8) get_attempt_effect(1-3) [OF a b] by force
  next
    case (Update now)
    obtain d2 s2 where u: "update_timestamp now (d, s) = Inr (d2, s2)" and r: "oracle_run es (d2, s2) = Inr ((d1, s1), ts)"
      using Cons.prems(1) Update by (auto split: sum.splits)
    have nb: "unat now + Suc (length es) < unat l + 2 ^ 31" using Cons.prems(7) Update by simp
    then have n: "unat now < 2 ^ 44" using assms(7) by simp
    have p: "unat (or_physical s) < 2 ^ 44 + 2 ^ 44" using Cons.prems(6) assms(7) by simp
    have nbs: "\<forall>n. Update n \<in> set es \<longrightarrow> unat n + length es < unat l + 2 ^ 31" using Cons.prems(7) by force
    from update_effect [OF u n p] show ?thesis
    proof
      assume "(d2, s2) = (d, s)"
      with Cons.IH [OF r] Cons.prems(2-8) nbs show ?thesis by force
    next
      assume eff: "set_physical (or_physical s2) (d, s) = Inr (d2, s2) \<and> unat (or_physical s) < unat (or_physical s2) \<and>
        unat (or_physical s2) \<le> max (unat now) (Suc (unat (or_physical s))) \<and> or_logical s2 = 0"
      then have near: "unat l \<le> unat (or_physical s2)" "unat (or_physical s2) + length es < unat l + 2 ^ 31"
        using Cons.prems(5,6) nb by auto
      then have "must_save (or_last s) (or_physical s2)" using must_save_near Cons.prems(4) by simp
      then have "md_saved d2 = Some (or_physical s2 + 1)"
        using eff by (auto simp: set_physical_def save_timestamp_to_path_def split: sum.splits)
      moreover have "or_last s2 = l"
        using arg_cong [OF set_physical_oracle, of "or_physical s2" d s d2 s2 or_last] eff Cons.prems(4) by simp
      moreover have "unat (or_physical s2 + 1) = Suc (unat (or_physical s2))"
        using unat_plus_small [of "or_physical s2" 1] near(2) assms(7) by simp
      moreover have "unat (or_logical s2) + length es < 2 ^ 63" using eff near(2) assms(7) by simp
      ultimately show ?thesis using Cons.IH [OF r] near nbs by simp
    qed
  qed
qed

lemma sync_effect:
  assumes "sync_timestamp now (d, s) = Inr (d1, s1)"
  shows "or_logical s1 = 0 \<and> or_last s1 = (case md_saved d of Some v \<Rightarrow> v | None \<Rightarrow> or_last s) \<and>
    or_physical s1 = (if now = or_last s1 then or_last s1 + 1 else now) \<and> md_saved d1 = Some (or_physical s1 + 1)"
proof -
  have z: "(now - x < 1) = (now = x)" for x :: "64 word" by (simp add: word_less_nat_alt unat_eq_0)
  show ?thesis using assms unfolding sync_timestamp_def get_timestamp_from_path_def save_timestamp_to_path_def
    by (auto simp: Let_def z split: sum.splits option.splits if_splits)
qed

lemmas oracle_eval = get_attempt_def compose_ts_def max_logical_def push_bit_eq_mult update_timestamp_def set_physical_def
  must_save_def save_timestamp_to_path_def get_timestamp_from_path_def enter_dir_def sync_timestamp_def Let_def

text \<open>A restart with a clock behind the saved timestamp hands out the same timestamps again: the unsigned
  comparison does not see that the clock went back.\<close>

lemma clock_behind_repeats:
  "\<exists>d1 s1 d2 s2 d3 s3 st. sync_timestamp 200 (\<lparr>md_is_dir = True, md_chdir = True, md_saved = None\<rparr>,
      \<lparr>or_last = 0, or_physical = 0, or_logical = 0\<rparr>) = Inr (d1, s1) \<and>
    oracle_run [Attempt 200] (d1, s1) = Inr ((d2, s2), [compose_ts 200 1]) \<and>
    sync_timestamp 200 (d2, \<lparr>or_last = 0, or_physical = 0, or_logical = 0\<rparr>) = Inr (d3, s3) \<and> md_saved d2 = Some 201 \<and>
    oracle_run [Attempt 200] (d3, s3) = Inr (st, [compose_ts 200 1])"
  by (simp add: oracle_eval)

lemma update_full: "update_timestamp now (d, s) = Inr (d1, s1) \<Longrightarrow> max_logical div 2 < or_logical s \<Longrightarrow> or_logical s1 = 0"
  by (auto simp: update_timestamp_def dest!: set_physical_oracle split: if_splits)

text \<open>The oracle before round \<open>i\<close> of a request all of whose rounds so far failed, and when a round fails.\<close>

fun round_state :: "(nat \<Rightarrow> 64 word) \<Rightarrow> (nat \<Rightarrow> ts_oracle \<Rightarrow> ts_oracle) \<Rightarrow> ts_oracle \<Rightarrow> nat \<Rightarrow> ts_oracle" where
  "round_state seen env s 0 = s"
| "round_state seen env s (Suc i) = env i (fst (get_attempt (seen i) (round_state seen env s i)))"

definition round_fails :: "(nat \<Rightarrow> 64 word) \<Rightarrow> (nat \<Rightarrow> ts_oracle \<Rightarrow> ts_oracle) \<Rightarrow> ts_oracle \<Rightarrow> nat \<Rightarrow> bool" where
  "round_fails seen env s i \<longleftrightarrow> seen i = 0 \<or> max_logical < or_logical (round_state seen env s i) + 1"

lemma get_timestamp_rounds:
  assumes "i \<le> n"
  shows "if \<forall>j. i \<le> j \<and> j < n \<longrightarrow> round_fails seen env s j
    then get_timestamp_from (n - i) seen env i (round_state seen env s i) = (round_state seen env s n, 0)
    else \<exists>k. i \<le> k \<and> k < n \<and> (\<forall>j. i \<le> j \<and> j < k \<longrightarrow> round_fails seen env s j) \<and> \<not> round_fails seen env s k \<and>
      snd (get_timestamp_from (n - i) seen env i (round_state seen env s i)) =
        compose_ts (or_physical (round_state seen env s k)) (or_logical (round_state seen env s k) + 1)"
  using assms
proof (induction "n - i" arbitrary: i)
  case 0
  then show ?case by auto
next
  case (Suc m)
  let ?st = "round_state seen env s i"
  have m: "n - i = Suc m" "n - Suc i = m" "Suc i \<le> n" "i < n" using Suc.hyps(2) by simp_all
  show ?case
  proof (cases "round_fails seen env s i")
    case False
    then have "get_attempt (seen i) ?st = (?st\<lparr>or_logical := or_logical ?st + 1\<rparr>, Some (compose_ts (or_physical ?st) (or_logical ?st + 1)))"
      by (simp add: get_attempt_def round_fails_def Let_def)
    then have "snd (get_timestamp_from (n - i) seen env i ?st) = compose_ts (or_physical ?st) (or_logical ?st + 1)"
      unfolding m(1) by (simp only: get_timestamp_from.simps prod.case option.case snd_conv)
    with False m(4) show ?thesis by auto
  next
    case True
    define s1 where "s1 = ?st\<lparr>or_logical := or_logical ?st + 1\<rparr>"
    have a: "get_attempt (seen i) ?st = (s1, None)" using True by (auto simp: get_attempt_def round_fails_def s1_def Let_def)
    have st: "get_timestamp_from (n - i) seen env i ?st = get_timestamp_from (n - Suc i) seen env (Suc i) (round_state seen env s (Suc i))"
      unfolding m(1,2) by (simp only: get_timestamp_from.simps round_state.simps a prod.case option.case fst_conv)
    have all: "(\<forall>j. i \<le> j \<and> j < N \<longrightarrow> round_fails seen env s j) \<longleftrightarrow> (\<forall>j. Suc i \<le> j \<and> j < N \<longrightarrow> round_fails seen env s j)" for N
    proof
      assume F: "\<forall>j. Suc i \<le> j \<and> j < N \<longrightarrow> round_fails seen env s j"
      show "\<forall>j. i \<le> j \<and> j < N \<longrightarrow> round_fails seen env s j"
      proof (intro allI impI)
        fix j
        assume "i \<le> j \<and> j < N"
        then show "round_fails seen env s j" using F True by (cases "j = i") auto
      qed
    qed simp
    show ?thesis
    proof (cases "\<forall>j. Suc i \<le> j \<and> j < n \<longrightarrow> round_fails seen env s j")
      case fails: True
      with Suc.hyps(1) [of "Suc i"] m have "get_timestamp_from (n - Suc i) seen env (Suc i) (round_state seen env s (Suc i)) =
        (round_state seen env s n, 0)" by simp
      with fails show ?thesis using all [of n] st by simp
    next
      case ex: False
      with Suc.hyps(1) [of "Suc i"] m obtain k where k: "Suc i \<le> k" "k < n" "\<forall>j. Suc i \<le> j \<and> j < k \<longrightarrow> round_fails seen env s j"
        "\<not> round_fails seen env s k" "snd (get_timestamp_from (n - Suc i) seen env (Suc i) (round_state seen env s (Suc i))) =
          compose_ts (or_physical (round_state seen env s k)) (or_logical (round_state seen env s k) + 1)" by auto
      have "i < k" using k(1) by simp
      then have "i \<le> k \<and> k < n \<and> (\<forall>j. i \<le> j \<and> j < k \<longrightarrow> round_fails seen env s j) \<and> \<not> round_fails seen env s k \<and>
          snd (get_timestamp_from (n - i) seen env i ?st) =
            compose_ts (or_physical (round_state seen env s k)) (or_logical (round_state seen env s k) + 1)"
        unfolding st all using k by simp
      with ex show ?thesis unfolding all by (simp only: if_False) blast
    qed
  qed
qed

section \<open>Properties\<close>

text \<open>C28. Uniqueness. Whatever the number of threads that ask, the order in which they get the mutex, what their second reads see, and the
  readings of the clock (even backwards) at the updates, the timestamps handed out are strictly increasing in the order in which the
  requests had the mutex.\<close>

theorem timestamps_increase:
  assumes "oracle_run es (d, s) = Inr ((d1, s1), ts)" and "\<forall>n. Update n \<in> set es \<longrightarrow> unat n < 2 ^ 44"
    and "unat (or_physical s) < 2 ^ 44" and "unat (or_logical s) < 2 ^ 44" and "length es < 2 ^ 44"
  shows "sorted_wrt (<) (map unat ts) \<and> (\<forall>t \<in> set ts. ceiling_of s < unat t \<and> unat t \<le> ceiling_of s1)"
  using oracle_run_grows [OF assms(1,2)] assms(3-5) by simp

theorem timestamps_increase_witness:
  "\<exists>st. oracle_run [Attempt 3, Update 5, Attempt 5, Attempt 5] (\<lparr>md_is_dir = True, md_chdir = True, md_saved = Some 3\<rparr>,
      \<lparr>or_last = 2, or_physical = 3, or_logical = 0\<rparr>) = Inr (st, [786433, 1310721, 1310722]) \<and>
    sorted_wrt (<) (map unat [786433, 1310721, 1310722 :: 64 word])"
proof -
  let ?d = "\<lparr>md_is_dir = True, md_chdir = True, md_saved = Some 3\<rparr>" and ?s = "\<lparr>or_last = 2, or_physical = 3, or_logical = 0\<rparr>"
  let ?es = "[Attempt 3, Update 5, Attempt 5, Attempt 5]"
  obtain d1 s1 where r: "oracle_run ?es (?d, ?s) = Inr ((d1, s1), [786433, 1310721, 1310722])"
    by (simp add: oracle_eval)
  have b: "\<forall>n. Update n \<in> set ?es \<longrightarrow> unat n < 2 ^ 44" "unat (or_physical ?s) < 2 ^ 44" "unat (or_logical ?s) < 2 ^ 44" "length ?es < 2 ^ 44"
    by simp_all
  from timestamps_increase [OF r b] r show ?thesis by blast
qed

text \<open>C29. Restart. Take an oracle that starts, hands out timestamps and updates itself, and starts again from its data directory.
  If the clock shows at least the saved timestamp at both starts, and from the first start on the clock and the oracle stay
  below the timestamp that was saved when it started plus \<open>2 ^ 31\<close> milliseconds (24 days; that is as long as an update is
  sure to save), then all timestamps are strictly increasing, those after the restart above all earlier ones. A clock
  that is behind the saved timestamp is not noticed (\<open>clock_behind_repeats\<close>), and without a saved timestamp or after
  a longer time nothing is promised.\<close>

theorem restart_keeps_order:
  assumes "sync_timestamp now (d, s) = Inr (d1, s1)" and "oracle_run es (d1, s1) = Inr ((d2, s2), ts)"
    and "unat (or_last s1) \<le> unat (or_physical s1)" and "unat (or_physical s1) + length es < unat (or_last s1) + 2 ^ 31"
    and "\<forall>n. Update n \<in> set es \<longrightarrow> unat n + length es < unat (or_last s1) + 2 ^ 31" and "unat (or_last s1) < 2 ^ 43"
    and "sync_timestamp now' (d2, s3) = Inr (d4, s4)" and "\<forall>v. md_saved d2 = Some v \<longrightarrow> unat v \<le> unat now'" and "unat now' < 2 ^ 43"
    and "oracle_run es' (d4, s4) = Inr ((d5, s5), ts')" and "\<forall>n. Update n \<in> set es' \<longrightarrow> unat n < 2 ^ 44" and "length es' < 2 ^ 44"
  shows "sorted_wrt (<) (map unat (ts @ ts'))"
proof -
  note y = sync_effect [OF assms(1)] and y' = sync_effect [OF assms(7)]
  have b: "length es < 2 ^ 31" "unat (or_physical s1) + length es < 2 ^ 44" using assms(3,4,6) by simp_all
  have nb: "\<forall>n. Update n \<in> set es \<longrightarrow> unat n < 2 ^ 44" using assms(5,6) by force
  have old: "sorted_wrt (<) (map unat ts) \<and> (\<forall>t \<in> set ts. ceiling_of s1 < unat t \<and> unat t \<le> ceiling_of s2)"
    using oracle_run_grows [OF assms(2) nb] b y by simp
  have "unat (or_physical s1 + 1) = Suc (unat (or_physical s1))" using unat_plus_small [of "or_physical s1" 1] b(2) by simp
  then obtain v where v: "md_saved d2 = Some v" "unat (or_physical s2) < unat v"
    using oracle_run_saves [OF assms(2), of "or_physical s1 + 1" "or_last s1"] y assms(3-6) b by auto
  then have le: "unat v \<le> unat now'" using assms(8) by blast
  have l4: "or_last s4 = v" using y' v(1) by simp
  have "unat (v + 1) = Suc (unat v)" using unat_plus_small [of v 1] le assms(9) by simp
  then have p4: "unat (or_physical s2) < unat (or_physical s4)" "unat (or_physical s4) < 2 ^ 44"
    using y' l4 le v(2) assms(9) by (auto split: if_splits)
  have new: "sorted_wrt (<) (map unat ts') \<and> (\<forall>t \<in> set ts'. ceiling_of s4 < unat t)"
    using oracle_run_grows [OF assms(10,11)] p4(2) assms(12) y' by simp
  have "ceiling_of s2 \<le> ceiling_of s4" using ceiling_update [OF p4(1)] y' by simp
  with old new show ?thesis by (force simp: sorted_wrt_append)
qed

theorem restart_keeps_order_witness:
  "\<exists>d1 s1 d2 s2 d3 s3 st. sync_timestamp 200 (\<lparr>md_is_dir = True, md_chdir = True, md_saved = Some 100\<rparr>,
      \<lparr>or_last = 0, or_physical = 0, or_logical = 0\<rparr>) = Inr (d1, s1) \<and>
    oracle_run [Attempt 200] (d1, s1) = Inr ((d2, s2), [compose_ts 200 1]) \<and>
    sync_timestamp 201 (d2, \<lparr>or_last = 0, or_physical = 0, or_logical = 0\<rparr>) = Inr (d3, s3) \<and>
    oracle_run [Attempt 200] (d3, s3) = Inr (st, [compose_ts 202 1]) \<and>
    sorted_wrt (<) (map unat ([compose_ts 200 1] @ [compose_ts 202 1]))"
proof -
  let ?d = "\<lparr>md_is_dir = True, md_chdir = True, md_saved = Some 100\<rparr>" and ?s = "\<lparr>or_last = 0, or_physical = 0, or_logical = 0\<rparr>"
  let ?d1 = "?d\<lparr>md_saved := Some 201\<rparr>" and ?s1 = "\<lparr>or_last = 100, or_physical = 200, or_logical = 0\<rparr>"
  let ?s4 = "\<lparr>or_last = 201, or_physical = 202, or_logical = 0\<rparr>"
  have r: "sync_timestamp 200 (?d, ?s) = Inr (?d1, ?s1)"
    "oracle_run [Attempt 200] (?d1, ?s1) = Inr ((?d1, ?s1\<lparr>or_logical := 1\<rparr>), [compose_ts 200 1])"
    "sync_timestamp 201 (?d1, ?s) = Inr (?d\<lparr>md_saved := Some 203\<rparr>, ?s4)"
    "oracle_run [Attempt 200] (?d\<lparr>md_saved := Some 203\<rparr>, ?s4) =
      Inr ((?d\<lparr>md_saved := Some 203\<rparr>, ?s4\<lparr>or_logical := 1\<rparr>), [compose_ts 202 1])"
    by (simp_all add: oracle_eval)
  have "sorted_wrt (<) (map unat ([compose_ts 200 1] @ [compose_ts 202 1]))"
    by (rule restart_keeps_order [OF r(1,2) _ _ _ _ r(3) _ _ r(4)]) simp_all
  with r show ?thesis by blast
qed

text \<open>C30. A request for a timestamp ends after at most 100 rounds, whatever the other threads do while it sleeps. A round fails if its
  second read sees an oracle that is not synchronised, or if the logical part is used up. The request gives the timestamp of the first
  round that does not fail, made of the physical part that this round read under the mutex and the next logical part,
  and 0 exactly if all 100 rounds fail (as long as the numbers of the oracle are in range).\<close>

theorem get_timestamp_returns:
  assumes "\<forall>i < 100. unat (or_physical (round_state seen env s i)) < 2 ^ 45 \<and> unat (or_logical (round_state seen env s i)) < 2 ^ 63"
  shows "(snd (get_timestamp seen env s) = 0 \<longleftrightarrow> (\<forall>i < 100. round_fails seen env s i)) \<and>
    (\<forall>i < 100. (\<forall>j < i. round_fails seen env s j) \<and> \<not> round_fails seen env s i \<longrightarrow>
      snd (get_timestamp seen env s) = compose_ts (or_physical (round_state seen env s i)) (or_logical (round_state seen env s i) + 1))"
proof -
  have rounds: "if \<forall>j < 100. round_fails seen env s j then snd (get_timestamp seen env s) = 0
    else \<exists>k < 100. (\<forall>j < k. round_fails seen env s j) \<and> \<not> round_fails seen env s k \<and> snd (get_timestamp seen env s) =
      compose_ts (or_physical (round_state seen env s k)) (or_logical (round_state seen env s k) + 1)"
    using get_timestamp_rounds [of 0 100 seen env s] by (auto simp: get_timestamp_def split: if_splits)
  show ?thesis
  proof (cases "\<forall>j < 100. round_fails seen env s j")
    case True
    with rounds show ?thesis by auto
  next
    case False
    with rounds obtain k where k: "k < 100" "\<forall>j < k. round_fails seen env s j" "\<not> round_fails seen env s k"
      "snd (get_timestamp seen env s) = compose_ts (or_physical (round_state seen env s k)) (or_logical (round_state seen env s k) + 1)"
      by auto
    let ?st = "round_state seen env s k"
    have l: "unat (or_logical ?st + 1) = Suc (unat (or_logical ?st))" "unat (or_physical ?st) < 2 ^ 45"
      using unat_plus_small [of "or_logical ?st" 1] assms k(1) by auto
    have "unat (or_logical ?st + 1) \<le> 2 ^ 18" using k(3) by (simp add: round_fails_def word_less_nat_alt unat_max_logical)
    from unat_compose [OF l(2) this] l(1) have "snd (get_timestamp seen env s) \<noteq> 0" by (auto simp: k(4))
    moreover have "i = k" if "\<forall>j < i. round_fails seen env s j" "\<not> round_fails seen env s i" for i
      using that k(2,3) by (cases i k rule: linorder_cases) auto
    ultimately show ?thesis using k(3,4) False by auto
  qed
qed

text \<open>A request to an oracle that is synchronised between its two reads gets a timestamp with the physical part 0.\<close>

theorem get_timestamp_returns_witness:
  "snd (get_timestamp (\<lambda>i. 7) (\<lambda>i t. t\<lparr>or_physical := 7, or_logical := 0\<rparr>) (oracle_new 0 0)) = compose_ts 0 1 \<and>
   snd (get_timestamp (\<lambda>i. 7) (\<lambda>i t. t\<lparr>or_physical := 7, or_logical := 0\<rparr>) (oracle_new 7 300000)) = compose_ts 7 1"
proof -
  let ?env = "\<lambda>i t. t\<lparr>or_physical := 7, or_logical := 0\<rparr>"
  have range: "unat (or_physical (round_state (\<lambda>i. 7) ?env (oracle_new p l) i)) < 2 ^ 45 \<and>
      unat (or_logical (round_state (\<lambda>i. 7) ?env (oracle_new p l) i)) < 2 ^ 63" if "p = 0 \<and> l = 0 \<or> p = 7 \<and> l = 300000" for p l i
    using that by (cases i) (auto simp: oracle_new_def)
  then have r0: "\<forall>i < 100. unat (or_physical (round_state (\<lambda>i. 7) ?env (oracle_new 0 0) i)) < 2 ^ 45 \<and>
      unat (or_logical (round_state (\<lambda>i. 7) ?env (oracle_new 0 0) i)) < 2 ^ 63"
    and r7: "\<forall>i < 100. unat (or_physical (round_state (\<lambda>i. 7) ?env (oracle_new 7 300000) i)) < 2 ^ 45 \<and>
      unat (or_logical (round_state (\<lambda>i. 7) ?env (oracle_new 7 300000) i)) < 2 ^ 63" by blast+
  have "\<not> round_fails (\<lambda>i. 7) ?env (oracle_new 0 0) 0" "round_fails (\<lambda>i. 7) ?env (oracle_new 7 300000) 0"
    "\<not> round_fails (\<lambda>i. 7) ?env (oracle_new 7 300000) 1"
    by (simp_all add: round_fails_def oracle_new_def max_logical_def push_bit_eq_mult)
  with conjunct2 [OF get_timestamp_returns [OF r0], rule_format, of 0] conjunct2 [OF get_timestamp_returns [OF r7], rule_format, of 1] show ?thesis
    by (auto simp: oracle_new_def)
qed

text \<open>If the thread that updates the oracle runs while the caller sleeps, a used up logical part is reset, so a synchronised
  oracle answers in the second round at the latest.\<close>

lemma updated_oracle_answers:
  assumes "unat (or_logical s) < 2 ^ 63" and "\<forall>i. seen i \<noteq> 0"
    and "update_timestamp now (d, fst (get_attempt (seen 0) s)) = Inr (d', round_state seen env s 1)"
  shows "\<not> round_fails seen env s 0 \<or> \<not> round_fails seen env s 1"
proof (cases "round_fails seen env s 0")
  case True
  then have full: "max_logical < or_logical s + 1" using assms(2) by (simp add: round_fails_def)
  have "or_logical (fst (get_attempt (seen 0) s)) = or_logical s + 1" by (simp add: get_attempt_def Let_def)
  then have "max_logical div 2 < or_logical (fst (get_attempt (seen 0) s))"
    using full by (simp add: word_less_nat_alt unat_div max_logical_def push_bit_eq_mult)
  from update_full [OF assms(3) this] show ?thesis
    using assms(2) by (simp add: round_fails_def max_logical_def push_bit_eq_mult)
qed simp

end
