(* ===== verification/MetaServer.thy ===== *)
theory MetaServer
  imports Timestamp
begin

text \<open>
  The meta server: where the partitions of each table are, and on which nodes their replicas are
  (\<open>meta_server/meta_server.h\<close>, \<open>meta_server.cpp\<close>, \<open>table_location.h\<close>, \<open>partition_location.h\<close>), and the
  handlers of its remote calls (\<open>meta_server_rpc.h\<close>, \<open>meta_server_rpc.cpp\<close>).

  A pointer in a map may be null, because \<open>operator[]\<close> of \<open>unordered_map\<close> inserts a null pointer under a
  missing key: a map to pointers is a map to options. Following a null or an uninitialised pointer is
  \<open>None\<close>; so is an index behind the end of a request's list, and a division by zero. An exception is
  \<open>Inl\<close>, with the state at that point. Each handler is one step: the model covers runs in which the handlers do
  not overlap. The code does not ensure this, because \<open>CreateDataBase\<close> and \<open>NodeRegister\<close> take no lock, and
  \<open>CreatePartitionTable\<close> releases that of the server before it reads the nodes. Where code iterates
  over an \<open>unordered_map\<close>, the order is an argument. \<open>std::hash\<close> is an argument, too. An enumeration that
  is cast from a number in a request is that number.
\<close>

section \<open>Data\<close>

type_synonym int32 = "32 word"
type_synonym col_type = int32

abbreviation TYPE_INT :: col_type where "TYPE_INT \<equiv> 0"
abbreviation TYPE_FLOAT :: col_type where "TYPE_FLOAT \<equiv> 1"
abbreviation TYPE_STRING :: col_type where "TYPE_STRING \<equiv> 2"

datatype partition_type = NONE_PARTITION | RANGE_PARTITION | HASH_PARTITION

datatype replica_role = INVALID_ROLE | Leader | Follower

datatype duplicate_type = NOT_DUPLICATE | DUPLICATE

record par_meta =
  pm_name :: bytes
  pm_id :: int32
  pm_min :: bytes
  pm_max :: bytes

record column_info =
  ci_names :: "bytes list"
  ci_types :: "col_type list"

record node =
  nd_ip :: bytes
  nd_port :: int32
  nd_active :: bool
  nd_leaders :: int32
  nd_followers :: int32

record replica =
  rl_ip :: bytes
  rl_port :: int32
  rl_role :: replica_role

record phy_partition =
  pp_table :: int32
  pp_id :: int32
  pp_count :: int32
  pp_replicas :: "replica list"

record phy_table =
  pt_table :: int32
  pt_duplicate :: duplicate_type
  pt_partitions :: "phy_partition list"

record tab_meta =
  tm_oid :: int32
  tm_name :: bytes
  tm_cols :: column_info
  tm_ptype :: partition_type
  tm_key_name :: bytes
  tm_key_type :: col_type
  tm_count :: int32
  tm_partitions :: "par_meta list"
  tm_location :: phy_table

record db_meta =
  dm_next_oid :: int32
  dm_name :: bytes
  dm_tables :: "bytes \<rightharpoonup> tab_meta option"

record meta_server =
  ms_dbs :: "bytes \<rightharpoonup> db_meta option"
  ms_nodes :: "bytes \<rightharpoonup> node"

datatype meta_exn = Meta meta_error | Std_exception

text \<open>A step of the server: no crash, then an exception or a result, and the state.\<close>

type_synonym 'a meta_step = "meta_server \<Rightarrow> ((meta_exn + 'a) \<times> meta_server) option"

definition meta_server_new :: meta_server where
  "meta_server_new = \<lparr>ms_dbs = Map.empty, ms_nodes = Map.empty\<rparr>"

definition db_meta_new :: "bytes \<Rightarrow> db_meta" where
  "db_meta_new name = \<lparr>dm_next_oid = 0, dm_name = name, dm_tables = Map.empty\<rparr>"

text \<open>\<open>new TabMetaServer()\<close> sets all members without a constructor to zero.\<close>

definition tab_meta_new :: tab_meta where
  "tab_meta_new = \<lparr>tm_oid = 0, tm_name = [], tm_cols = \<lparr>ci_names = [], ci_types = []\<rparr>, tm_ptype = NONE_PARTITION,
     tm_key_name = [], tm_key_type = 0, tm_count = 0, tm_partitions = [],
     tm_location = \<lparr>pt_table = 0, pt_duplicate = NOT_DUPLICATE, pt_partitions = []\<rparr>\<rparr>"

definition node_new :: "bytes \<Rightarrow> int32 \<Rightarrow> bool \<Rightarrow> node" where
  "node_new ip port act = \<lparr>nd_ip = ip, nd_port = port, nd_active = act, nd_leaders = 0, nd_followers = 0\<rparr>"

section \<open>Lookups\<close>

text \<open>\<open>db_map_[db_name]\<close> and \<open>gettablemap()[table_name]\<close>.\<close>

definition set_db :: "bytes \<Rightarrow> db_meta \<Rightarrow> meta_server \<Rightarrow> meta_server" where
  "set_db db d m = m\<lparr>ms_dbs := (ms_dbs m)(db \<mapsto> Some d)\<rparr>"

definition find_table :: "bytes \<Rightarrow> bytes \<Rightarrow> meta_server \<Rightarrow> (meta_exn + db_meta \<times> tab_meta) \<times> meta_server" where
  "find_table db tab m =
     (case ms_dbs m db of
        None \<Rightarrow> (Inl (Meta NO_DATABASE), m\<lparr>ms_dbs := (ms_dbs m)(db \<mapsto> None)\<rparr>)
      | Some None \<Rightarrow> (Inl (Meta NO_DATABASE), m)
      | Some (Some d) \<Rightarrow>
          (case dm_tables d tab of
             None \<Rightarrow> (Inl (Meta NO_TABLE), set_db db (d\<lparr>dm_tables := (dm_tables d)(tab \<mapsto> None)\<rparr>) m)
           | Some None \<Rightarrow> (Inl (Meta NO_TABLE), m)
           | Some (Some t) \<Rightarrow> (Inr (d, t), m)))"

definition get_partition_key :: "bytes \<Rightarrow> bytes \<Rightarrow> bytes meta_step" where
  "get_partition_key db tab m = Some
     (case find_table db tab m of (Inl e, m1) \<Rightarrow> (Inl e, m1) | (Inr (d, t), m1) \<Rightarrow> (Inr (tm_key_name t), m1))"

definition get_col_info :: "bytes \<Rightarrow> bytes \<Rightarrow> column_info meta_step" where
  "get_col_info db tab m = Some
     (case find_table db tab m of (Inl e, m1) \<Rightarrow> (Inl e, m1) | (Inr (d, t), m1) \<Rightarrow> (Inr (tm_cols t), m1))"

text \<open>\<open>PhyPartitionLocation::get_replica_location\<close> and \<open>PhyTableLocation::getReplicaLocation\<close>; a null
  pointer is \<open>None\<close>.\<close>

definition replica_with_role :: "replica_role \<Rightarrow> phy_partition \<Rightarrow> replica option" where
  "replica_with_role role p = find (\<lambda>r. rl_role r = role) (pp_replicas p)"

definition replica_location :: "int32 \<Rightarrow> phy_table \<Rightarrow> replica option" where
  "replica_location i loc =
     (case find (\<lambda>p. pp_id p = i) (pt_partitions loc) of None \<Rightarrow> None | Some p \<Rightarrow> replica_with_role Leader p)"

type_synonym locations = "int32 \<rightharpoonup> replica"

text \<open>The body of the loops over \<open>tms->partitions\<close>: the location of one partition goes into the result.\<close>

definition add_location :: "tab_meta \<Rightarrow> int32 \<Rightarrow> locations \<Rightarrow> meta_exn + locations" where
  "add_location t i res =
     (case replica_location i (tm_location t) of None \<Rightarrow> Inl (Meta NO_PARTITION_OR_REPLICA) | Some r \<Rightarrow> Inr (res(i \<mapsto> r)))"

fun locations_where :: "(par_meta \<Rightarrow> meta_exn + bool) \<Rightarrow> tab_meta \<Rightarrow> par_meta list \<Rightarrow> locations \<Rightarrow> meta_exn + locations" where
  "locations_where sel t [] res = Inr res"
| "locations_where sel t (p # ps) res =
     (case sel p of
        Inl e \<Rightarrow> Inl e
      | Inr False \<Rightarrow> locations_where sel t ps res
      | Inr True \<Rightarrow> (case add_location t (pm_id p) res of Inl e \<Rightarrow> Inl e | Inr res1 \<Rightarrow> locations_where sel t ps res1))"

text \<open>\<open>std::stoi\<close>: white space, a sign, digits; it throws without a digit and outside the range of \<open>int\<close>.\<close>

definition is_space :: "byte \<Rightarrow> bool" where
  "is_space c \<longleftrightarrow> c = 32 \<or> 9 \<le> c \<and> c \<le> 13"

definition is_digit :: "byte \<Rightarrow> bool" where
  "is_digit c \<longleftrightarrow> 48 \<le> c \<and> c \<le> 57"

definition digits_value :: "bytes \<Rightarrow> int" where
  "digits_value ds = foldl (\<lambda>n c. 10 * n + (int (unat c) - 48)) 0 ds"

definition scan_int :: "bytes \<Rightarrow> (int \<times> bytes) option" where
  "scan_int s =
     (let s1 = dropWhile is_space s;
          (neg, s2) = (case s1 of c # cs \<Rightarrow> if c = 45 then (True, cs) else if c = 43 then (False, cs) else (False, s1) | [] \<Rightarrow> (False, s1));
          ds = takeWhile is_digit s2;
          n = (if neg then - digits_value ds else digits_value ds)
      in if ds = [] \<or> n < - (2 ^ 31) \<or> 2 ^ 31 \<le> n then None else Some (n, dropWhile is_digit s2))"

definition stoi :: "bytes \<Rightarrow> meta_exn + int" where
  "stoi s = (case scan_int s of None \<Rightarrow> Inl Std_exception | Some (n, rest) \<Rightarrow> Inr n)"

definition stoi_le :: "bytes \<Rightarrow> bytes \<Rightarrow> meta_exn + bool" where
  "stoi_le a b = (case stoi a of Inl e \<Rightarrow> Inl e | Inr x \<Rightarrow> (case stoi b of Inl e \<Rightarrow> Inl e | Inr y \<Rightarrow> Inr (x \<le> y)))"

text \<open>The conditions of \<open>getReplicaLocationListByRange\<close>, with \<open>&&\<close> evaluated from the left.\<close>

definition int_overlap :: "bytes \<Rightarrow> bytes \<Rightarrow> par_meta \<Rightarrow> meta_exn + bool" where
  "int_overlap min_range max_range p =
     (case stoi_le (pm_min p) max_range of Inr True \<Rightarrow> stoi_le min_range (pm_max p) | r \<Rightarrow> r)"

definition string_overlap :: "bytes \<Rightarrow> bytes \<Rightarrow> par_meta \<Rightarrow> bool" where
  "string_overlap min_range max_range p \<longleftrightarrow> pm_min p \<le> max_range \<and> min_range \<le> pm_max p"

definition locations_by_range :: "tab_meta \<Rightarrow> bytes \<Rightarrow> bytes \<Rightarrow> meta_exn + locations" where
  "locations_by_range t min_range max_range =
     (if tm_key_type t = TYPE_INT \<or> tm_key_type t = TYPE_FLOAT
      then locations_where (int_overlap min_range max_range) t (tm_partitions t) Map.empty
      else if tm_key_type t = TYPE_STRING
      then locations_where (Inr \<circ> string_overlap min_range max_range) t (tm_partitions t) Map.empty
      else Inr Map.empty)"

text \<open>\<open>HashPartition\<close>: \<open>partition_cnt_\<close> is converted to \<open>size_t\<close>.\<close>

definition hash_partition :: "64 word \<Rightarrow> tab_meta \<Rightarrow> int32 option" where
  "hash_partition h t = (if tm_count t = 0 then None else Some (ucast (h mod scast (tm_count t))))"

definition locations_by_hash :: "(64 word \<Rightarrow> 64 word) \<Rightarrow> (bytes \<Rightarrow> 64 word) \<Rightarrow> tab_meta \<Rightarrow> bytes \<Rightarrow> bytes \<Rightarrow>
    (meta_exn + locations) option" where
  "locations_by_hash hash_int hash_string t min_range max_range =
     (if tm_key_type t = TYPE_INT \<or> tm_key_type t = TYPE_FLOAT
      then (case stoi min_range of
              Inl e \<Rightarrow> Some (Inl e)
            | Inr a \<Rightarrow> (case stoi max_range of
                Inl e \<Rightarrow> Some (Inl e)
              | Inr b \<Rightarrow>
                  if b = a then map_option (\<lambda>i. add_location t i Map.empty) (hash_partition (hash_int (word_of_int a)) t)
                  else Some (locations_where (\<lambda>_. Inr True) t (tm_partitions t) Map.empty)))
      else if tm_key_type t = TYPE_STRING
      then (if max_range = min_range
            then map_option (\<lambda>i. add_location t i Map.empty) (hash_partition (hash_string min_range) t)
            else Some (locations_where (\<lambda>_. Inr True) t (tm_partitions t) Map.empty))
      else Some (Inr Map.empty))"

definition replica_location_list :: "(64 word \<Rightarrow> 64 word) \<Rightarrow> (bytes \<Rightarrow> 64 word) \<Rightarrow> bytes \<Rightarrow> bytes \<Rightarrow> bytes \<Rightarrow> bytes \<Rightarrow> bytes \<Rightarrow>
    locations meta_step" where
  "replica_location_list hash_int hash_string db tab key min_range max_range m =
     (case find_table db tab m of
        (Inl e, m1) \<Rightarrow> Some (Inl e, m1)
      | (Inr (d, t), m1) \<Rightarrow>
          if key \<noteq> tm_key_name t then Some (Inl (Meta PARTITION_KEY_NOT_TRUE), m1)
          else map_option (\<lambda>r. (r, m1))
            (case tm_ptype t of
               RANGE_PARTITION \<Rightarrow> Some (locations_by_range t min_range max_range)
             | HASH_PARTITION \<Rightarrow> locations_by_hash hash_int hash_string t min_range max_range
             | NONE_PARTITION \<Rightarrow> Some (locations_where (\<lambda>_. Inr True) t (tm_partitions t) Map.empty)))"

text \<open>\<open>UpdatePartitionLeader\<close> changes the roles in a copy of the table's location.\<close>

definition set_leader :: "bytes \<Rightarrow> replica \<Rightarrow> replica" where
  "set_leader ip r = r\<lparr>rl_role := if rl_ip r = ip then Leader else Follower\<rparr>"

definition update_partition_leader :: "bytes \<Rightarrow> bytes \<Rightarrow> int32 \<Rightarrow> bytes \<Rightarrow> bool meta_step" where
  "update_partition_leader db tab p_id ip m = Some
     (case find_table db tab m of
        (Inl e, m1) \<Rightarrow> (Inl e, m1)
      | (Inr (d, t), m1) \<Rightarrow>
          (let tab_loc = tm_location t in
           if pt_duplicate tab_loc \<noteq> DUPLICATE then (Inr False, m1)
           else if find (\<lambda>p. pp_id p = p_id) (pt_partitions tab_loc) = None then (Inr False, m1)
           else (let copy = tab_loc\<lparr>pt_partitions :=
                   (let ps = pt_partitions tab_loc; i = length (takeWhile (\<lambda>p. pp_id p \<noteq> p_id) ps)
                    in ps[i := (ps ! i)\<lparr>pp_replicas := map (set_leader ip) (pp_replicas (ps ! i))\<rparr>])\<rparr>
                 in (Inr True, m1))))"

section \<open>Handlers of the remote calls\<close>

text \<open>\<open>CreateDataBase\<close>\<close>

definition rpc_create_database :: "bytes \<Rightarrow> bool meta_step" where
  "rpc_create_database db m = Some
     (if db \<in> dom (ms_dbs m) then (Inr False, m)
      else (Inr True, m\<lparr>ms_dbs := (ms_dbs m)(db \<mapsto> Some (db_meta_new db))\<rparr>))"

text \<open>The columns of a request: the names, and a type for each of them.\<close>

definition request_columns :: "bytes list \<Rightarrow> col_type list \<Rightarrow> column_info option" where
  "request_columns names types =
     (if length names \<le> length types then Some \<lparr>ci_names = names, ci_types = take (length names) types\<rparr> else None)"

text \<open>The checks at the begin of both handlers that create a table: the database, if all is well.\<close>

definition open_for_table :: "bytes \<Rightarrow> bytes \<Rightarrow> meta_server \<Rightarrow> db_meta option option" where
  "open_for_table db tab m =
     (case ms_dbs m db of
        None \<Rightarrow> Some None
      | Some None \<Rightarrow> None
      | Some (Some d) \<Rightarrow> Some (if tab \<in> dom (dm_tables d) then None else Some d))"

definition add_table :: "bytes \<Rightarrow> bytes \<Rightarrow> db_meta \<Rightarrow> tab_meta \<Rightarrow> meta_server \<Rightarrow> meta_server" where
  "add_table db tab d t m =
     set_db db (d\<lparr>dm_tables := (dm_tables d)(tab \<mapsto> Some t), dm_next_oid := tm_oid t + 1\<rparr>) m"

text \<open>\<open>CreateTable\<close>; the result is the new table identifier, if the call succeeds.\<close>

definition rpc_create_table :: "bytes \<Rightarrow> bytes \<Rightarrow> bytes list \<Rightarrow> col_type list \<Rightarrow> int32 option meta_step" where
  "rpc_create_table db tab names types m =
     (case open_for_table db tab m of
        None \<Rightarrow> None
      | Some None \<Rightarrow> Some (Inr None, m)
      | Some (Some d) \<Rightarrow> do {
          cols \<leftarrow> request_columns names types;
          let t = tab_meta_new\<lparr>tm_name := tab, tm_cols := cols, tm_oid := dm_next_oid d, tm_ptype := NONE_PARTITION\<rparr>;
          Some (Inr (Some (tm_oid t)), add_table db tab d t m) })"

record partition_request =
  pr_db :: bytes
  pr_tab :: bytes
  pr_ptype :: int32
  pr_key_name :: bytes
  pr_key_type :: int32
  pr_count :: int32
  pr_ranges :: "(bytes \<times> bytes) list"
  pr_has_replica :: bool
  pr_replicas :: int32
  pr_col_names :: "bytes list"
  pr_col_types :: "col_type list"

text \<open>The two \<open>switch\<close>es; both look at \<open>partition_key_type()\<close>.\<close>

definition switch_ptype :: "int32 \<Rightarrow> partition_type \<Rightarrow> partition_type" where
  "switch_ptype x old = (if x = 1 then RANGE_PARTITION else if x = 2 then HASH_PARTITION else old)"

definition switch_key_type :: "int32 \<Rightarrow> col_type \<Rightarrow> col_type" where
  "switch_key_type x old =
     (if x = 0 then TYPE_INT else if x = 2 then TYPE_STRING else if x = 1 then TYPE_FLOAT else old)"

definition ascii_bytes :: "string \<Rightarrow> bytes" where
  "ascii_bytes s = map (\<lambda>c. of_nat (of_char c)) s"

definition request_partition :: "(bytes \<times> bytes) list \<Rightarrow> nat \<Rightarrow> par_meta option" where
  "request_partition ranges i =
     (if i < length ranges
      then Some \<lparr>pm_name = ascii_bytes (''p'' @ dec_string i), pm_id = of_nat i, pm_min = fst (ranges ! i), pm_max = snd (ranges ! i)\<rparr>
      else None)"

fun request_partitions :: "(bytes \<times> bytes) list \<Rightarrow> nat \<Rightarrow> nat \<Rightarrow> par_meta list option" where
  "request_partitions ranges i 0 = Some []"
| "request_partitions ranges i (Suc n) = do {
     p \<leftarrow> request_partition ranges i;
     ps \<leftarrow> request_partitions ranges (Suc i) n;
     Some (p # ps) }"

subsection \<open>Placing the replicas\<close>

text \<open>The loop over the nodes: the first with the least counter below \<open>INT32_MAX\<close>; \<open>None\<close> if the pointer is
  never set.\<close>

fun least_node :: "(bytes \<rightharpoonup> node) \<Rightarrow> (node \<Rightarrow> bool) \<Rightarrow> (node \<Rightarrow> int32) \<Rightarrow> bytes list \<Rightarrow> int32 \<Rightarrow> bytes option \<Rightarrow> bytes option" where
  "least_node ns ok cnt [] min_cnt res = res"
| "least_node ns ok cnt (x # xs) min_cnt res =
     (case ns x of
        None \<Rightarrow> least_node ns ok cnt xs min_cnt res
      | Some n \<Rightarrow>
          if nd_active n \<and> ok n \<and> sint (cnt n) < sint min_cnt then least_node ns ok cnt xs (cnt n) (Some x)
          else least_node ns ok cnt xs min_cnt res)"

abbreviation int32_max :: int32 where "int32_max \<equiv> 0x7FFFFFFF"

definition place_leader :: "bytes list \<Rightarrow> (bytes \<rightharpoonup> node) \<Rightarrow> (replica \<times> (bytes \<rightharpoonup> node)) option" where
  "place_leader order ns = do {
     x \<leftarrow> least_node ns (\<lambda>n. True) nd_leaders order int32_max None;
     n \<leftarrow> ns x;
     Some (\<lparr>rl_ip = nd_ip n, rl_port = nd_port n, rl_role = Leader\<rparr>, ns(x \<mapsto> n\<lparr>nd_leaders := nd_leaders n + 1\<rparr>)) }"

definition place_follower :: "bytes list \<Rightarrow> bytes set \<Rightarrow> (bytes \<rightharpoonup> node) \<Rightarrow> (replica \<times> (bytes \<rightharpoonup> node)) option" where
  "place_follower order used ns = do {
     x \<leftarrow> least_node ns (\<lambda>n. nd_ip n \<notin> used) nd_followers order int32_max None;
     n \<leftarrow> ns x;
     Some (\<lparr>rl_ip = nd_ip n, rl_port = nd_port n, rl_role = Follower\<rparr>, ns(x \<mapsto> n\<lparr>nd_followers := nd_followers n + 1\<rparr>)) }"

fun place_followers :: "nat \<Rightarrow> bytes list \<Rightarrow> bytes set \<Rightarrow> (bytes \<rightharpoonup> node) \<Rightarrow> (replica list \<times> (bytes \<rightharpoonup> node)) option" where
  "place_followers 0 order used ns = Some ([], ns)"
| "place_followers (Suc j) order used ns = do {
     (r, ns1) \<leftarrow> place_follower order used ns;
     (rs, ns2) \<leftarrow> place_followers j order (insert (rl_ip r) used) ns1;
     Some (r # rs, ns2) }"

definition place_partition :: "bytes list \<Rightarrow> int32 \<Rightarrow> int32 \<Rightarrow> par_meta \<Rightarrow> (bytes \<rightharpoonup> node) \<Rightarrow> (phy_partition \<times> (bytes \<rightharpoonup> node)) option" where
  "place_partition order oid replicas p ns = do {
     (l, ns1) \<leftarrow> place_leader order ns;
     (fs, ns2) \<leftarrow> place_followers (nat (sint replicas - 1)) order {rl_ip l} ns1;
     Some (\<lparr>pp_table = oid, pp_id = pm_id p, pp_count = replicas, pp_replicas = l # fs\<rparr>, ns2) }"

fun place_partitions :: "bytes list \<Rightarrow> int32 \<Rightarrow> int32 \<Rightarrow> par_meta list \<Rightarrow> (bytes \<rightharpoonup> node) \<Rightarrow> (phy_partition list \<times> (bytes \<rightharpoonup> node)) option" where
  "place_partitions order oid replicas [] ns = Some ([], ns)"
| "place_partitions order oid replicas (p # ps) ns = do {
     (l, ns1) \<leftarrow> place_partition order oid replicas p ns;
     (ls, ns2) \<leftarrow> place_partitions order oid replicas ps ns1;
     Some (l # ls, ns2) }"

text \<open>\<open>CreatePartitionTable\<close>; \<open>size_t(request->replica_cnt())\<close> is compared with the number of nodes.\<close>

definition rpc_create_partition_table :: "bytes list \<Rightarrow> partition_request \<Rightarrow> int32 option meta_step" where
  "rpc_create_partition_table order req m =
     (case open_for_table (pr_db req) (pr_tab req) m of
        None \<Rightarrow> None
      | Some None \<Rightarrow> Some (Inr None, m)
      | Some (Some d) \<Rightarrow>
          if pr_ptype req = 0 then Some (Inr None, m)
          else if unat (scast (pr_replicas req) :: 64 word) < card (dom (ms_nodes m)) then Some (Inr None, m)
          else do {
            cols \<leftarrow> request_columns (pr_col_names req) (pr_col_types req);
            ps \<leftarrow> request_partitions (pr_ranges req) 0 (nat (sint (pr_count req)));
            (ls, ns) \<leftarrow> place_partitions order (dm_next_oid d) (pr_replicas req) ps (ms_nodes m);
            let t = tab_meta_new\<lparr>tm_name := pr_tab req, tm_cols := cols, tm_oid := dm_next_oid d,
                  tm_key_name := pr_key_name req, tm_count := pr_count req,
                  tm_ptype := switch_ptype (pr_key_type req) NONE_PARTITION,
                  tm_key_type := switch_key_type (pr_key_type req) 0, tm_partitions := ps,
                  tm_location := \<lparr>pt_table = dm_next_oid d,
                    pt_duplicate = (if pr_has_replica req then DUPLICATE else NOT_DUPLICATE), pt_partitions = ls\<rparr>\<rparr>;
            Some (Inr (Some (tm_oid t)), (add_table (pr_db req) (pr_tab req) d t m)\<lparr>ms_nodes := ns\<rparr>) })"

subsection \<open>The other handlers\<close>

definition rpc_node_register :: "bytes \<Rightarrow> int32 \<Rightarrow> bytes \<Rightarrow> bool meta_step" where
  "rpc_node_register name port remote_ip m = Some
     (Inr True, m\<lparr>ms_nodes := (ms_nodes m)(name \<mapsto>
        (case ms_nodes m name of Some n \<Rightarrow> n\<lparr>nd_active := True\<rparr> | None \<Rightarrow> node_new remote_ip port True))\<rparr>)"

definition rpc_update_leader :: "bytes \<Rightarrow> bytes \<Rightarrow> int32 \<Rightarrow> bytes \<Rightarrow> unit meta_step" where
  "rpc_update_leader db tab p_id remote_ip m = do {
     (r, m1) \<leftarrow> update_partition_leader db tab p_id remote_ip m;
     Some (case r of Inl e \<Rightarrow> Inl e | Inr b \<Rightarrow> Inr (), m1) }"

text \<open>\<open>GetPartitionLocation\<close>: the response maps each partition to address and port.\<close>

definition rpc_get_partition_location :: "(64 word \<Rightarrow> 64 word) \<Rightarrow> (bytes \<Rightarrow> 64 word) \<Rightarrow> bytes \<Rightarrow> bytes \<Rightarrow> bytes \<Rightarrow> bytes \<Rightarrow> bytes \<Rightarrow>
    (int32 \<rightharpoonup> bytes \<times> int32) meta_step" where
  "rpc_get_partition_location hash_int hash_string db tab key min_range max_range m = do {
     (r, m1) \<leftarrow> replica_location_list hash_int hash_string db tab key min_range max_range m;
     Some (case r of Inl e \<Rightarrow> Inl e | Inr res \<Rightarrow> Inr (\<lambda>i. map_option (\<lambda>l. (rl_ip l, rl_port l)) (res i)), m1) }"

text \<open>\<open>GetTableInfo\<close>: \<open>column_type\<close> is read at the indices of \<open>column_name\<close>.\<close>

definition rpc_get_table_info :: "bytes \<Rightarrow> bytes \<Rightarrow> (bytes list \<times> col_type list) meta_step" where
  "rpc_get_table_info db tab m = do {
     (r, m1) \<leftarrow> get_col_info db tab m;
     (case r of
        Inl e \<Rightarrow> Some (Inl e, m1)
      | Inr c \<Rightarrow>
          if length (ci_names c) \<le> length (ci_types c)
          then Some (Inr (ci_names c, take (length (ci_names c)) (ci_types c)), m1) else None) }"

text \<open>\<open>GetNewCoordinator\<close>: the node after the faulty one, in the order of the map; no answer if it is unknown.\<close>

fun next_node :: "(bytes \<rightharpoonup> node) \<Rightarrow> bytes \<Rightarrow> int32 \<Rightarrow> bytes \<Rightarrow> bytes list \<Rightarrow> bytes option" where
  "next_node ns ip port first [] = None"
| "next_node ns ip port first (x # xs) =
     (case ns x of
        None \<Rightarrow> next_node ns ip port first xs
      | Some n \<Rightarrow>
          if nd_ip n = ip \<and> nd_port n = port then Some (case xs of [] \<Rightarrow> first | y # ys \<Rightarrow> y)
          else next_node ns ip port first xs)"

definition rpc_new_coordinator :: "bytes list \<Rightarrow> bytes \<Rightarrow> int32 \<Rightarrow> (bytes \<times> int32) option meta_step" where
  "rpc_new_coordinator order ip port m = Some
     (Inr (do {
        x \<leftarrow> (case order of [] \<Rightarrow> None | first # _ \<Rightarrow> next_node (ms_nodes m) ip port first order);
        n \<leftarrow> ms_nodes m x;
        Some (nd_ip n, nd_port n) }), m)"

end
