(* ===== verification/MetaState.thy ===== *)
theory MetaState
  imports MetaServer
begin

text \<open>
  The reachable states of the meta server: the metadata is well formed in all of them, so a lookup finds exactly the
  partitions it shall find, with their leaders. Also here are the two calls whose effect on the state is not
  the intended one: \<open>UpdateLeader\<close>, and a lookup in an unknown database.
\<close>

section \<open>Well-formed metadata\<close>

text \<open>A partition has one leader, the first replica, and all replicas are at different addresses.\<close>

definition replicas_ok :: "replica list \<Rightarrow> bool" where
  "replicas_ok rs \<longleftrightarrow> rs \<noteq> [] \<and> rl_role (hd rs) = Leader \<and> (\<forall>r \<in> set (tl rs). rl_role r = Follower) \<and> distinct (map rl_ip rs)"

definition location_ok :: "int32 \<Rightarrow> par_meta \<Rightarrow> phy_partition \<Rightarrow> bool" where
  "location_ok oid p l \<longleftrightarrow> pp_id l = pm_id p \<and> pp_table l = oid \<and> replicas_ok (pp_replicas l)"

definition tab_ok :: "bytes \<Rightarrow> tab_meta \<Rightarrow> bool" where
  "tab_ok tab t \<longleftrightarrow> tm_name t = tab \<and> length (ci_names (tm_cols t)) = length (ci_types (tm_cols t)) \<and>
     map pm_id (tm_partitions t) = map of_nat [0..<length (tm_partitions t)] \<and>
     length (tm_partitions t) = nat (sint (tm_count t)) \<and>
     list_all2 (location_ok (tm_oid t)) (tm_partitions t) (pt_partitions (tm_location t)) \<and>
     (tm_ptype t = RANGE_PARTITION \<longrightarrow> tm_key_type t = TYPE_FLOAT) \<and> (tm_ptype t = HASH_PARTITION \<longrightarrow> tm_key_type t = TYPE_STRING)"

definition db_ok :: "bytes \<Rightarrow> db_meta \<Rightarrow> bool" where
  "db_ok db d \<longleftrightarrow> dm_name d = db \<and>
     (\<forall>tab t. dm_tables d tab = Some (Some t) \<longrightarrow> tab_ok tab t \<and> unat (tm_oid t) < unat (dm_next_oid d)) \<and>
     (\<forall>tab t tab' t'. dm_tables d tab = Some (Some t) \<longrightarrow> dm_tables d tab' = Some (Some t') \<longrightarrow> tm_oid t = tm_oid t' \<longrightarrow> tab = tab')"

definition meta_ok :: "meta_server \<Rightarrow> bool" where
  "meta_ok m \<longleftrightarrow> (\<forall>db d. ms_dbs m db = Some (Some d) \<longrightarrow> db_ok db d)"

lemma meta_ok_new: "meta_ok meta_server_new"
  by (simp add: meta_ok_def meta_server_new_def)

lemma meta_ok_nodes [simp]: "meta_ok (m\<lparr>ms_nodes := ns\<rparr>) \<longleftrightarrow> meta_ok m"
  by (simp add: meta_ok_def)

lemma meta_ok_set_db: "meta_ok m \<Longrightarrow> db_ok db d \<Longrightarrow> meta_ok (set_db db d m)"
  by (simp add: meta_ok_def set_db_def)

lemma find_table_cases:
  assumes "find_table db tab m = (r, m1)"
  obtains (no_db) "r = Inl (Meta NO_DATABASE)" "\<forall>d. ms_dbs m db \<noteq> Some (Some d)" "m1 = m\<lparr>ms_dbs := (ms_dbs m)(db \<mapsto> None)\<rparr>"
  | (no_table) d where "r = Inl (Meta NO_TABLE)" "ms_dbs m db = Some (Some d)" "\<forall>t. dm_tables d tab \<noteq> Some (Some t)"
      "m1 = set_db db (d\<lparr>dm_tables := (dm_tables d)(tab \<mapsto> None)\<rparr>) m"
  | (found) d t where "r = Inr (d, t)" "ms_dbs m db = Some (Some d)" "dm_tables d tab = Some (Some t)" "m1 = m"
proof (cases "ms_dbs m db")
  case None
  then show thesis using assms no_db by (simp add: find_table_def)
next
  case (Some x)
  show thesis
  proof (cases x)
    case None
    have e: "(ms_dbs m)(db \<mapsto> None) = ms_dbs m" using Some None by (intro fun_upd_idem) simp
    have rm: "r = Inl (Meta NO_DATABASE)" "m1 = m" using assms Some None by (simp_all add: find_table_def)
    show thesis by (rule no_db) (simp_all add: rm e Some None)
  next
    case d: (Some d)
    show thesis
    proof (cases "dm_tables d tab")
      case None
      then show thesis using assms no_table Some d by (simp add: find_table_def)
    next
      case t: (Some y)
      show thesis
      proof (cases y)
        case None
        then have e: "(dm_tables d)(tab \<mapsto> None) = dm_tables d" using t by (intro fun_upd_idem) simp
        have "(ms_dbs m)(db \<mapsto> Some d) = ms_dbs m" using Some d by (intro fun_upd_idem) simp
        then have "set_db db d m = m" by (simp add: set_db_def)
        then have st: "set_db db (d\<lparr>dm_tables := (dm_tables d)(tab \<mapsto> None)\<rparr>) m = m" by (simp add: e)
        have rm: "r = Inl (Meta NO_TABLE)" "m1 = m" using assms Some d t None by (simp_all add: find_table_def)
        show thesis by (rule no_table [of d]) (simp_all add: rm st Some d t None)
      next
        case (Some t')
        then show thesis using assms t d \<open>ms_dbs m db = Some x\<close> by (intro found [of d t']) (simp_all add: find_table_def)
      qed
    qed
  qed
qed

lemma find_table_ok: "meta_ok m \<Longrightarrow> find_table db tab m = (r, m1) \<Longrightarrow> meta_ok m1"
proof (erule find_table_cases)
  fix d
  assume ok: "meta_ok m" and d: "ms_dbs m db = Some (Some d)" "\<forall>t. dm_tables d tab \<noteq> Some (Some t)"
    and m1: "m1 = set_db db (d\<lparr>dm_tables := (dm_tables d)(tab \<mapsto> None)\<rparr>) m"
  have "db_ok db d" using ok d(1) by (simp add: meta_ok_def)
  then have "db_ok db (d\<lparr>dm_tables := (dm_tables d)(tab \<mapsto> None)\<rparr>)" by (auto simp: db_ok_def)
  then show "meta_ok m1" using ok m1 meta_ok_set_db by simp
qed (auto simp: meta_ok_def)

lemma open_for_table_Some:
  "open_for_table db tab m = Some (Some d) \<longleftrightarrow> ms_dbs m db = Some (Some d) \<and> tab \<notin> dom (dm_tables d)"
  by (auto simp: open_for_table_def split: option.splits)

lemma add_table_ok:
  assumes "meta_ok m" and d: "ms_dbs m db = Some (Some d)" and "unat (dm_next_oid d) + 1 < 2 ^ 32"
    and t: "tab_ok tab t" "tm_oid t = dm_next_oid d"
  shows "meta_ok (add_table db tab d t m)"
proof -
  have ok: "db_ok db d" using assms(1) d by (simp add: meta_ok_def)
  have oid: "unat (tm_oid t + 1) = Suc (unat (dm_next_oid d))"
    using assms(3) t(2) by (simp add: unat_word_ariths)
  have "db_ok db (d\<lparr>dm_tables := (dm_tables d)(tab \<mapsto> Some t), dm_next_oid := tm_oid t + 1\<rparr>)"
    using ok t oid by (fastforce simp: db_ok_def)
  then show ?thesis unfolding add_table_def by (rule meta_ok_set_db [OF assms(1)])
qed

lemma request_partitions_ids:
  "request_partitions ranges i n = Some ps \<Longrightarrow> map pm_id ps = map of_nat [i..<i + n] \<and> length ps = n"
proof (induction n arbitrary: i ps)
  case (Suc n)
  then obtain p qs where "request_partition ranges i = Some p" "request_partitions ranges (Suc i) n = Some qs" "ps = p # qs"
    by (auto split: Option.bind_splits)
  with Suc.IH [of "Suc i" qs] show ?case
    by (auto simp: request_partition_def upt_conv_Cons simp del: upt_Suc split: if_splits)
qed simp

lemma place_followers_ok:
  "place_followers j order used ns = Some (rs, ns1) \<Longrightarrow>
    length rs = j \<and> (\<forall>r \<in> set rs. rl_role r = Follower) \<and> distinct (map rl_ip rs) \<and> set (map rl_ip rs) \<inter> used = {}"
proof (induction j arbitrary: used ns rs)
  case (Suc j)
  then obtain r ns2 rs' where s: "place_follower order used ns = Some (r, ns2)"
      "place_followers j order (insert (rl_ip r) used) ns2 = Some (rs', ns1)" "rs = r # rs'" by (auto split: Option.bind_splits)
  from s(1) have "rl_role r = Follower \<and> rl_ip r \<notin> used"
  proof -
    have "least_node ns ok cnt xs mc res = Some x \<Longrightarrow> res \<noteq> Some x \<Longrightarrow> \<exists>n. ns x = Some n \<and> ok n" for ok cnt xs mc res x
      by (induction ns ok cnt xs mc res rule: least_node.induct) (auto split: option.splits if_splits)
    then show ?thesis using s(1) by (fastforce simp: place_follower_def split: Option.bind_splits)
  qed
  with Suc.IH [OF s(2)] s(3) show ?case by auto
qed simp

lemma place_partitions_ok:
  "place_partitions order oid k ps ns = Some (ls, ns1) \<Longrightarrow> list_all2 (location_ok oid) ps ls"
proof (induction ps arbitrary: ns ls)
  case (Cons p ps)
  then obtain l ns2 ls' where s: "place_partition order oid k p ns = Some (l, ns2)"
      "place_partitions order oid k ps ns2 = Some (ls', ns1)" "ls = l # ls'" by (auto split: Option.bind_splits)
  have "location_ok oid p l"
    using s(1) by (auto simp: place_partition_def place_leader_def location_ok_def replicas_ok_def
      dest!: place_followers_ok split: Option.bind_splits)
  with Cons.IH [OF s(2)] s(3) show ?case by simp
qed simp

text \<open>The states of a server that was started empty, after handlers that ran one after the other. The two conditions on \<open>dm_next_oid\<close> say that no
  database runs out of table identifiers.\<close>

inductive meta_reach :: "meta_server \<Rightarrow> bool" where
  mr_new: "meta_reach meta_server_new"
| mr_database: "meta_reach m \<Longrightarrow> rpc_create_database db m = Some (r, m1) \<Longrightarrow> meta_reach m1"
| mr_table: "meta_reach m \<Longrightarrow> rpc_create_table db tab names types m = Some (r, m1) \<Longrightarrow>
    \<forall>d. ms_dbs m db = Some (Some d) \<longrightarrow> unat (dm_next_oid d) + 1 < 2 ^ 32 \<Longrightarrow> meta_reach m1"
| mr_partition_table: "meta_reach m \<Longrightarrow> rpc_create_partition_table order req m = Some (r, m1) \<Longrightarrow>
    \<forall>d. ms_dbs m (pr_db req) = Some (Some d) \<longrightarrow> unat (dm_next_oid d) + 1 < 2 ^ 32 \<Longrightarrow> meta_reach m1"
| mr_register: "meta_reach m \<Longrightarrow> rpc_node_register name port ip m = Some (r, m1) \<Longrightarrow> meta_reach m1"
| mr_leader: "meta_reach m \<Longrightarrow> rpc_update_leader db tab p_id ip m = Some (r', m1) \<Longrightarrow> meta_reach m1"
| mr_location: "meta_reach m \<Longrightarrow> rpc_get_partition_location hi hs db tab key mn mx m = Some (r'', m1) \<Longrightarrow> meta_reach m1"
| mr_key: "meta_reach m \<Longrightarrow> get_partition_key db tab m = Some (k, m1) \<Longrightarrow> meta_reach m1"
| mr_info: "meta_reach m \<Longrightarrow> rpc_get_table_info db tab m = Some (c, m1) \<Longrightarrow> meta_reach m1"

lemma create_table_cases:
  assumes "rpc_create_table db tab names types m = Some (r, m1)"
  obtains (refused) "r = Inr None" "m1 = m"
  | (created) d cols where "r = Inr (Some (dm_next_oid d))" "ms_dbs m db = Some (Some d)" "tab \<notin> dom (dm_tables d)"
      "request_columns names types = Some cols"
      "m1 = add_table db tab d (tab_meta_new\<lparr>tm_name := tab, tm_cols := cols, tm_oid := dm_next_oid d, tm_ptype := NONE_PARTITION\<rparr>) m"
proof (cases "open_for_table db tab m")
  case None
  then show thesis using assms by (simp add: rpc_create_table_def)
next
  case o: (Some x)
  show thesis
  proof (cases x)
    case None
    then show thesis using assms o by (intro refused) (simp_all add: rpc_create_table_def)
  next
    case (Some d)
    then have d: "ms_dbs m db = Some (Some d)" "tab \<notin> dom (dm_tables d)" using o open_for_table_Some by simp_all
    show thesis
    proof (cases "request_columns names types")
      case None
      then show thesis using assms o Some by (simp add: rpc_create_table_def)
    next
      case c: (Some cols)
      show thesis by (rule created [OF _ d c]) (use assms o Some c in \<open>simp_all add: rpc_create_table_def Let_def\<close>)
    qed
  qed
qed

lemma table_step_ok:
  assumes "meta_ok m" and "rpc_create_table db tab names types m = Some (r, m1)"
    and "\<forall>d. ms_dbs m db = Some (Some d) \<longrightarrow> unat (dm_next_oid d) + 1 < 2 ^ 32"
  shows "meta_ok m1"
  using assms(2)
proof (cases rule: create_table_cases)
  case (created d cols)
  have "tab_ok tab (tab_meta_new\<lparr>tm_name := tab, tm_cols := cols, tm_oid := dm_next_oid d, tm_ptype := NONE_PARTITION\<rparr>)"
    using created(4) by (auto simp: tab_ok_def tab_meta_new_def request_columns_def split: if_splits)
  then show ?thesis unfolding created(5) using add_table_ok [OF assms(1) created(2)] assms(3) created(2) by simp
qed (use assms(1) in simp)

text \<open>What a successful \<open>CreatePartitionTable\<close> has done.\<close>

definition new_partition_table :: "partition_request \<Rightarrow> db_meta \<Rightarrow> column_info \<Rightarrow> par_meta list \<Rightarrow> phy_partition list \<Rightarrow> tab_meta" where
  "new_partition_table req d cols ps ls = tab_meta_new\<lparr>tm_name := pr_tab req, tm_cols := cols, tm_oid := dm_next_oid d,
     tm_key_name := pr_key_name req, tm_count := pr_count req, tm_ptype := switch_ptype (pr_key_type req) NONE_PARTITION,
     tm_key_type := switch_key_type (pr_key_type req) 0, tm_partitions := ps,
     tm_location := \<lparr>pt_table = dm_next_oid d, pt_duplicate = (if pr_has_replica req then DUPLICATE else NOT_DUPLICATE), pt_partitions = ls\<rparr>\<rparr>"

lemma partition_table_cases:
  assumes "rpc_create_partition_table order req m = Some (r, m1)"
  obtains (refused) "r = Inr None" "m1 = m"
  | (created) d cols ps ls ns where "r = Inr (Some (dm_next_oid d))" "ms_dbs m (pr_db req) = Some (Some d)"
      "card (dom (ms_nodes m)) \<le> unat (scast (pr_replicas req) :: 64 word)"
      "request_columns (pr_col_names req) (pr_col_types req) = Some cols"
      "request_partitions (pr_ranges req) 0 (nat (sint (pr_count req))) = Some ps"
      "place_partitions order (dm_next_oid d) (pr_replicas req) ps (ms_nodes m) = Some (ls, ns)"
      "m1 = (add_table (pr_db req) (pr_tab req) d (new_partition_table req d cols ps ls) m)\<lparr>ms_nodes := ns\<rparr>"
proof (cases "open_for_table (pr_db req) (pr_tab req) m")
  case None
  then show thesis using assms by (simp add: rpc_create_partition_table_def)
next
  case o: (Some x)
  show thesis
  proof (cases x)
    case None
    then show thesis using assms o by (intro refused) (simp_all add: rpc_create_partition_table_def)
  next
    case (Some d)
    then have d: "ms_dbs m (pr_db req) = Some (Some d)" using o open_for_table_Some by simp
    consider "pr_ptype req = 0 \<or> unat (scast (pr_replicas req) :: 64 word) < card (dom (ms_nodes m))"
      | (go) "pr_ptype req \<noteq> 0" "card (dom (ms_nodes m)) \<le> unat (scast (pr_replicas req) :: 64 word)" by linarith
    then show thesis
    proof cases
      case 1
      then show thesis using assms o Some by (intro refused) (auto simp: rpc_create_partition_table_def split: if_splits)
    next
      case go
      obtain cols where c: "request_columns (pr_col_names req) (pr_col_types req) = Some cols"
        using assms o Some go by (cases "request_columns (pr_col_names req) (pr_col_types req)") (simp_all add: rpc_create_partition_table_def)
      obtain ps where p: "request_partitions (pr_ranges req) 0 (nat (sint (pr_count req))) = Some ps"
        using assms o Some go c by (cases "request_partitions (pr_ranges req) 0 (nat (sint (pr_count req)))")
          (simp_all add: rpc_create_partition_table_def)
      obtain ls ns where l: "place_partitions order (dm_next_oid d) (pr_replicas req) ps (ms_nodes m) = Some (ls, ns)"
        using assms o Some go c p by (cases "place_partitions order (dm_next_oid d) (pr_replicas req) ps (ms_nodes m)")
          (auto simp: rpc_create_partition_table_def)
      show thesis by (rule created [OF _ d go(2) c p l])
        (use assms o Some go c p l in \<open>simp_all add: rpc_create_partition_table_def Let_def new_partition_table_def\<close>)
    qed
  qed
qed

lemma partition_table_step_ok:
  assumes "meta_ok m" and "rpc_create_partition_table order req m = Some (r, m1)"
    and "\<forall>d. ms_dbs m (pr_db req) = Some (Some d) \<longrightarrow> unat (dm_next_oid d) + 1 < 2 ^ 32"
  shows "meta_ok m1"
  using assms(2)
proof (cases rule: partition_table_cases)
  case (created d cols ps ls ns)
  have ids: "map pm_id ps = map of_nat [0..<length ps]" "length ps = nat (sint (pr_count req))"
    using request_partitions_ids [OF created(5)] by simp_all
  have "list_all2 (location_ok (dm_next_oid d)) ps ls" by (rule place_partitions_ok [OF created(6)])
  then have "tab_ok (pr_tab req) (new_partition_table req d cols ps ls)"
    using ids created(4)
    by (auto simp: tab_ok_def new_partition_table_def tab_meta_new_def request_columns_def switch_ptype_def switch_key_type_def split: if_splits)
  moreover have "tm_oid (new_partition_table req d cols ps ls) = dm_next_oid d" by (simp add: new_partition_table_def)
  ultimately show ?thesis unfolding created(7) using add_table_ok [OF assms(1) created(2)] assms(3) created(2) by simp
qed (use assms(1) in simp)

lemma reachable_ok: "meta_reach m \<Longrightarrow> meta_ok m"
proof (induction rule: meta_reach.induct)
  case (mr_database m db r m1)
  then show ?case by (auto simp: rpc_create_database_def meta_ok_def db_ok_def db_meta_new_def split: if_splits)
next
  case (mr_table m db tab names types r m1)
  then show ?case using table_step_ok by blast
next
  case (mr_partition_table m order req r m1)
  then show ?case using partition_table_step_ok by blast
next
  case (mr_register m name port ip r m1)
  then show ?case by (simp add: rpc_node_register_def split: option.splits) auto
next
  case (mr_leader m db tab p_id ip r' m1)
  obtain x m2 where f: "find_table db tab m = (x, m2)" by (cases "find_table db tab m")
  then have "m1 = m2" using mr_leader.hyps(2)
    by (auto simp: rpc_update_leader_def update_partition_leader_def Let_def split: sum.splits prod.splits if_splits)
  with find_table_ok [OF mr_leader.IH f] show ?case by simp
next
  case (mr_location m hi hs db tab key mn mx r'' m1)
  obtain x m2 where f: "find_table db tab m = (x, m2)" by (cases "find_table db tab m")
  then have "m1 = m2" using mr_location.hyps(2)
    by (auto simp: rpc_get_partition_location_def replica_location_list_def split: sum.splits prod.splits if_splits Option.bind_splits)
  with find_table_ok [OF mr_location.IH f] show ?case by simp
next
  case (mr_key m db tab k m1)
  obtain x m2 where f: "find_table db tab m = (x, m2)" by (cases "find_table db tab m")
  then have "m1 = m2" using mr_key.hyps(2) by (auto simp: get_partition_key_def split: sum.splits prod.splits)
  with find_table_ok [OF mr_key.IH f] show ?case by simp
next
  case (mr_info m db tab c m1)
  obtain x m2 where f: "find_table db tab m = (x, m2)" by (cases "find_table db tab m")
  then have "m1 = m2" using mr_info.hyps(2)
    by (auto simp: rpc_get_table_info_def get_col_info_def split: sum.splits prod.splits if_splits)
  with find_table_ok [OF mr_info.IH f] show ?case by simp
qed (rule meta_ok_new)

section \<open>Lookups in well-formed metadata\<close>

lemma location_of_partition:
  assumes t: "tab_ok tab t" and i: "i < length (tm_partitions t)"
  shows "pm_id (tm_partitions t ! i) = of_nat i" "replica_location (of_nat i) (tm_location t) =
    Some (hd (pp_replicas (pt_partitions (tm_location t) ! i)))"
    "unat (of_nat i :: int32) = i"
proof -
  let ?ps = "tm_partitions t" and ?ls = "pt_partitions (tm_location t)"
  have n: "length ?ps < 2 ^ 31"
  proof -
    have "sint (tm_count t) < 2 ^ 31" using sint_range_size [of "tm_count t"] by (simp add: word_size)
    with t show ?thesis by (simp add: tab_ok_def)
  qed
  then show u: "unat (of_nat i :: int32) = i" using i by (simp add: unat_of_nat take_bit_nat_eq_self)
  have ids: "pm_id (?ps ! j) = of_nat j" if "j < length ?ps" for j
    using t that nth_map [of j ?ps pm_id] by (simp add: tab_ok_def)
  then show "pm_id (?ps ! i) = of_nat i" using i by simp
  have l: "length ?ls = length ?ps" "\<And>j. j < length ?ps \<Longrightarrow> location_ok (tm_oid t) (?ps ! j) (?ls ! j)"
    using t by (auto simp: tab_ok_def list_all2_conv_all_nth)
  have lid: "pp_id (?ls ! j) = of_nat j" if "j < length ?ps" for j using l(2) [OF that] ids [OF that] by (simp add: location_ok_def)
  have "find (\<lambda>p. pp_id p = of_nat i) ?ls = Some (?ls ! i)"
    unfolding find_Some_iff
  proof (intro exI [of _ i] conjI allI impI)
    fix j assume j: "j < i"
    then have "unat (of_nat j :: int32) = j" using i n by (simp add: unat_of_nat take_bit_nat_eq_self)
    have "(of_nat j :: int32) \<noteq> of_nat i"
    proof
      assume "(of_nat j :: int32) = of_nat i"
      then have "unat (of_nat j :: int32) = unat (of_nat i :: int32)" by simp
      with u \<open>unat (of_nat j :: int32) = j\<close> j show False by simp
    qed
    then show "pp_id (?ls ! j) \<noteq> of_nat i" using lid j i by simp
  qed (use i l(1) lid in simp_all)
  moreover have "replicas_ok (pp_replicas (?ls ! i))" using l(2) [OF i] by (simp add: location_ok_def)
  then have "replica_with_role Leader (?ls ! i) = Some (hd (pp_replicas (?ls ! i)))"
    by (cases "pp_replicas (?ls ! i)") (simp_all add: replica_with_role_def replicas_ok_def)
  ultimately show "replica_location (of_nat i) (tm_location t) = Some (hd (pp_replicas (?ls ! i)))" by (simp add: replica_location_def)
qed

lemma locations_where_all:
  assumes "\<forall>p \<in> set ps. \<exists>b. sel p = Inr b" and "\<forall>p \<in> set ps. replica_location (pm_id p) (tm_location t) \<noteq> None"
  shows "locations_where sel t ps res = Inr (\<lambda>i. if i \<in> pm_id ` {p \<in> set ps. sel p = Inr True}
    then replica_location i (tm_location t) else res i)"
  using assms
proof (induction ps arbitrary: res)
  case (Cons p ps)
  obtain b where b: "sel p = Inr b" using Cons.prems(1) by auto
  obtain r where r: "replica_location (pm_id p) (tm_location t) = Some r" using Cons.prems(2) by auto
  have "{q \<in> set (p # ps). sel q = Inr True} = (if b then insert p {q \<in> set ps. sel q = Inr True} else {q \<in> set ps. sel q = Inr True})"
    using b by auto
  with b r Cons.IH Cons.prems show ?case by (cases b) (auto simp: add_location_def fun_eq_iff)
qed simp

text \<open>What a lookup shall find: of a range table the partitions that the range from \<open>mn\<close> to \<open>mx\<close> meets, of a hash
  table the one partition of a single value, and otherwise all.\<close>

definition bounds_readable :: "par_meta \<Rightarrow> bool" where
  "bounds_readable p \<longleftrightarrow> (case (stoi (pm_min p), stoi (pm_max p)) of (Inr a, Inr b) \<Rightarrow> True | _ \<Rightarrow> False)"

definition ranges_meet :: "bytes \<Rightarrow> bytes \<Rightarrow> par_meta \<Rightarrow> bool" where
  "ranges_meet mn mx p \<longleftrightarrow>
     (case (stoi mn, stoi mx, stoi (pm_min p), stoi (pm_max p)) of (Inr x, Inr y, Inr a, Inr b) \<Rightarrow> a \<le> y \<and> x \<le> b | _ \<Rightarrow> False)"

definition lookup_readable :: "tab_meta \<Rightarrow> bytes \<Rightarrow> bytes \<Rightarrow> bool" where
  "lookup_readable t mn mx \<longleftrightarrow>
     (case tm_ptype t of
        RANGE_PARTITION \<Rightarrow> \<not> isl (stoi mn) \<and> \<not> isl (stoi mx) \<and> list_all bounds_readable (tm_partitions t)
      | HASH_PARTITION \<Rightarrow> tm_partitions t \<noteq> []
      | NONE_PARTITION \<Rightarrow> True)"

definition wanted :: "(bytes \<Rightarrow> 64 word) \<Rightarrow> tab_meta \<Rightarrow> bytes \<Rightarrow> bytes \<Rightarrow> nat \<Rightarrow> bool" where
  "wanted hash_string t mn mx i \<longleftrightarrow> i < length (tm_partitions t) \<and>
     (case tm_ptype t of
        RANGE_PARTITION \<Rightarrow> ranges_meet mn mx (tm_partitions t ! i)
      | HASH_PARTITION \<Rightarrow> mn = mx \<longrightarrow> i = unat (hash_string mn) mod length (tm_partitions t)
      | NONE_PARTITION \<Rightarrow> True)"

definition leader_of :: "tab_meta \<Rightarrow> nat \<Rightarrow> replica" where
  "leader_of t i = hd (pp_replicas (pt_partitions (tm_location t) ! i))"

lemma unat_id_less:
  assumes "tab_ok tab t"
  shows "(\<exists>p \<in> set (tm_partitions t). pm_id p = i \<and> P p) \<longleftrightarrow>
    unat i < length (tm_partitions t) \<and> P (tm_partitions t ! unat i)"
proof
  assume "\<exists>p \<in> set (tm_partitions t). pm_id p = i \<and> P p"
  then obtain j where j: "j < length (tm_partitions t)" "pm_id (tm_partitions t ! j) = i" "P (tm_partitions t ! j)"
    by (auto simp: in_set_conv_nth)
  then have "unat i = j" using location_of_partition(1,3) [OF assms j(1)] by simp
  then show "unat i < length (tm_partitions t) \<and> P (tm_partitions t ! unat i)" using j by simp
next
  assume u: "unat i < length (tm_partitions t) \<and> P (tm_partitions t ! unat i)"
  then have "pm_id (tm_partitions t ! unat i) = i" using location_of_partition(1) [OF assms, of "unat i"] by simp
  then show "\<exists>p \<in> set (tm_partitions t). pm_id p = i \<and> P p" using u nth_mem by blast
qed

lemma locations_where_ok:
  assumes t: "tab_ok tab t" and sel: "\<forall>p \<in> set (tm_partitions t). sel p = Inr (P p)"
  shows "locations_where sel t (tm_partitions t) Map.empty = Inr (\<lambda>i.
    if unat i < length (tm_partitions t) \<and> P (tm_partitions t ! unat i) then Some (leader_of t (unat i)) else None)"
proof -
  have loc: "replica_location i (tm_location t) = Some (leader_of t (unat i))" if "unat i < length (tm_partitions t)" for i
    using location_of_partition(2) [OF t that] by (simp add: leader_of_def)
  have "\<forall>p \<in> set (tm_partitions t). replica_location (pm_id p) (tm_location t) \<noteq> None"
  proof
    fix p assume "p \<in> set (tm_partitions t)"
    then have "\<exists>q \<in> set (tm_partitions t). pm_id q = pm_id p \<and> True" by auto
    then have "unat (pm_id p) < length (tm_partitions t)" using unat_id_less [OF t, of "pm_id p" "\<lambda>_. True"] by simp
    then show "replica_location (pm_id p) (tm_location t) \<noteq> None" using loc by simp
  qed
  with sel have "locations_where sel t (tm_partitions t) Map.empty = Inr (\<lambda>i.
      if i \<in> pm_id ` {p \<in> set (tm_partitions t). sel p = Inr True} then replica_location i (tm_location t) else None)"
    by (subst locations_where_all) auto
  moreover have "i \<in> pm_id ` {p \<in> set (tm_partitions t). sel p = Inr True} \<longleftrightarrow>
      unat i < length (tm_partitions t) \<and> P (tm_partitions t ! unat i)" for i
    using unat_id_less [OF t, of i P] sel by (auto simp: image_iff)
  ultimately show ?thesis using loc by (auto simp: fun_eq_iff)
qed

lemma hash_partition_ok:
  assumes "tab_ok tab t" and "tm_partitions t \<noteq> []"
  shows "hash_partition h t = Some (of_nat (unat h mod length (tm_partitions t)))"
proof -
  let ?c = "tm_count t"
  have n: "length (tm_partitions t) = nat (sint ?c)" using assms(1) by (simp add: tab_ok_def)
  with assms(2) have pos: "0 < sint ?c" by (cases "0 < sint ?c") auto
  have lt: "sint ?c < 2 ^ 31" using sint_range_size [of ?c] by (simp add: word_size)
  have e: "(scast ?c :: 64 word) = word_of_int (sint ?c)" by simp
  have e64: "(2::int) ^ 64 = 18446744073709551616" and e31: "(2::int) ^ 31 = 2147483648" by simp_all
  have "uint (scast ?c :: 64 word) = sint ?c"
    unfolding e using pos lt unfolding e31 by (subst uint_word_of_int) (simp add: e64)
  then have u: "unat (scast ?c :: 64 word) = length (tm_partitions t)" by (simp add: n flip: nat_uint_eq)
  have "?c \<noteq> 0" using pos by auto
  moreover have "(ucast (h mod scast ?c) :: int32) = of_nat (unat (h mod scast ?c))" by simp
  ultimately show ?thesis by (simp add: hash_partition_def unat_mod_distrib u)
qed


lemma hash_location_ok:
  assumes "tab_ok tab t" and "tm_partitions t \<noteq> []"
  shows "map_option (\<lambda>i. add_location t i Map.empty) (hash_partition h t) = Some (Inr (\<lambda>i.
    if unat i < length (tm_partitions t) \<and> unat i = unat h mod length (tm_partitions t) then Some (leader_of t (unat i)) else None))"
proof -
  let ?n = "length (tm_partitions t)"
  let ?j = "unat h mod ?n"
  have j: "?j < ?n" using assms(2) by simp
  have "replica_location (of_nat ?j) (tm_location t) = Some (leader_of t ?j)" "unat (of_nat ?j :: int32) = ?j"
    using location_of_partition(2,3) [OF assms(1) j] by (simp_all add: leader_of_def)
  moreover have "i = of_nat ?j \<longleftrightarrow> unat i < ?n \<and> unat i = ?j" for i :: int32
    using j calculation(2) by (metis word_unat_eq_iff)
  ultimately show ?thesis
    using hash_partition_ok [OF assms, of h] by (auto simp: add_location_def fun_eq_iff)
qed

lemma int_overlap_meet:
  assumes "bounds_readable p" and "\<not> isl (stoi mn)" and "\<not> isl (stoi mx)"
  shows "int_overlap mn mx p = Inr (ranges_meet mn mx p)"
  using assms unfolding bounds_readable_def
  by (cases "stoi mn"; cases "stoi mx"; cases "stoi (pm_min p)"; cases "stoi (pm_max p)")
    (auto simp: int_overlap_def ranges_meet_def stoi_le_def split: bool.splits)

lemma replica_location_list_ok:
  assumes t: "tab_ok tab t" and "find_table db tab m = (Inr (d, t), m)" and r: "lookup_readable t mn mx"
  shows "replica_location_list hash_int hash_string db tab (tm_key_name t) mn mx m =
    Some (Inr (\<lambda>i. if wanted hash_string t mn mx (unat i) then Some (leader_of t (unat i)) else None), m)"
proof (cases "tm_ptype t")
  case NONE_PARTITION
  then show ?thesis using assms locations_where_ok [OF t, of "\<lambda>_. Inr True" "\<lambda>_. True"]
    by (simp add: replica_location_list_def wanted_def)
next
  case RANGE_PARTITION
  then have "tm_key_type t = TYPE_FLOAT" using t by (simp add: tab_ok_def)
  moreover have "\<forall>p \<in> set (tm_partitions t). int_overlap mn mx p = Inr (ranges_meet mn mx p)"
    using r RANGE_PARTITION int_overlap_meet by (simp add: lookup_readable_def list_all_iff)
  ultimately show ?thesis using assms RANGE_PARTITION locations_where_ok [OF t, of "int_overlap mn mx" "ranges_meet mn mx"]
    by (simp add: replica_location_list_def wanted_def locations_by_range_def)
next
  case HASH_PARTITION
  then have "tm_key_type t = TYPE_STRING" using t by (simp add: tab_ok_def)
  then show ?thesis using assms HASH_PARTITION hash_location_ok [OF t, of "hash_string mn"]
      locations_where_ok [OF t, of "\<lambda>_. Inr True" "\<lambda>_. True"]
    by (simp add: replica_location_list_def wanted_def locations_by_hash_def lookup_readable_def)
qed

lemma find_table_known:
  "ms_dbs m db = Some (Some d) \<Longrightarrow> dm_tables d tab = Some (Some t) \<Longrightarrow> find_table db tab m = (Inr (d, t), m)"
  by (simp add: find_table_def)

lemma reachable_tab_ok:
  "meta_reach m \<Longrightarrow> ms_dbs m db = Some (Some d) \<Longrightarrow> dm_tables d tab = Some (Some t) \<Longrightarrow> tab_ok tab t"
  using reachable_ok by (auto simp: meta_ok_def db_ok_def)

section \<open>A small server\<close>

text \<open>Two nodes, a database, and a table of two range partitions with two replicas each. The server takes the type
  of a table from the type of its key: 1 is \<open>RANGE_PARTITION\<close> and \<open>TYPE_FLOAT\<close>.\<close>

definition demo_request :: partition_request where
  "demo_request = \<lparr>pr_db = [1], pr_tab = [2], pr_ptype = 1, pr_key_name = [3], pr_key_type = 1, pr_count = 2,
     pr_ranges = [([48], [52]), ([53], [57])], pr_has_replica = True, pr_replicas = 2, pr_col_names = [[3]], pr_col_types = [1]\<rparr>"

definition demo_order :: "bytes list" where
  "demo_order = [[70], [71]]"

definition demo_empty :: meta_server where
  "demo_empty = \<lparr>ms_dbs = [[1] \<mapsto> Some (db_meta_new [1])],
     ms_nodes = [[70] \<mapsto> node_new [20] 8000 True, [71] \<mapsto> node_new [21] 8001 True]\<rparr>"

lemma demo_empty_reach: "meta_reach demo_empty"
proof -
  have "meta_reach \<lparr>ms_dbs = [[1] \<mapsto> Some (db_meta_new [1])], ms_nodes = Map.empty\<rparr>"
    by (rule mr_database [OF mr_new, of "[1]" "Inr True"]) (simp add: rpc_create_database_def meta_server_new_def)
  then have "meta_reach \<lparr>ms_dbs = [[1] \<mapsto> Some (db_meta_new [1])], ms_nodes = [[70] \<mapsto> node_new [20] 8000 True]\<rparr>"
    by (rule mr_register [of _ "[70]" 8000 "[20]" "Inr True"]) (simp add: rpc_node_register_def)
  then show ?thesis
    by (rule mr_register [of _ "[71]" 8001 "[21]" "Inr True"]) (simp add: rpc_node_register_def demo_empty_def)
qed

definition demo_partitions :: "par_meta list" where
  "demo_partitions = [\<lparr>pm_name = [112, 48], pm_id = 0, pm_min = [48], pm_max = [52]\<rparr>,
     \<lparr>pm_name = [112, 49], pm_id = 1, pm_min = [53], pm_max = [57]\<rparr>]"

definition demo_locations :: "phy_partition list" where
  "demo_locations =
     [\<lparr>pp_table = 0, pp_id = 0, pp_count = 2, pp_replicas = [\<lparr>rl_ip = [20], rl_port = 8000, rl_role = Leader\<rparr>, \<lparr>rl_ip = [21], rl_port = 8001, rl_role = Follower\<rparr>]\<rparr>,
      \<lparr>pp_table = 0, pp_id = 1, pp_count = 2, pp_replicas = [\<lparr>rl_ip = [21], rl_port = 8001, rl_role = Leader\<rparr>, \<lparr>rl_ip = [20], rl_port = 8000, rl_role = Follower\<rparr>]\<rparr>]"

definition demo_nodes :: "bytes \<rightharpoonup> node" where
  "demo_nodes = [[70] \<mapsto> \<lparr>nd_ip = [20], nd_port = 8000, nd_active = True, nd_leaders = 1, nd_followers = 1\<rparr>,
     [71] \<mapsto> \<lparr>nd_ip = [21], nd_port = 8001, nd_active = True, nd_leaders = 1, nd_followers = 1\<rparr>]"

lemma demo_request_parts:
  "request_columns (pr_col_names demo_request) (pr_col_types demo_request) = Some \<lparr>ci_names = [[3]], ci_types = [1]\<rparr>"
  "request_partitions (pr_ranges demo_request) 0 (nat (sint (pr_count demo_request))) = Some demo_partitions"
  by code_simp+

lemma demo_placed:
  "place_partitions demo_order 0 (pr_replicas demo_request) demo_partitions (ms_nodes demo_empty) = Some (demo_locations, demo_nodes)"
  by (simp add: demo_request_def demo_partitions_def demo_empty_def demo_order_def demo_locations_def demo_nodes_def
      place_partition_def place_leader_def place_follower_def node_new_def numeral_2_eq_2 fun_upd_twist)


definition demo_table :: tab_meta where
  "demo_table = new_partition_table demo_request (db_meta_new [1]) \<lparr>ci_names = [[3]], ci_types = [1]\<rparr> demo_partitions demo_locations"

definition demo_meta :: meta_server where
  "demo_meta = (add_table [1] [2] (db_meta_new [1]) demo_table demo_empty)\<lparr>ms_nodes := demo_nodes\<rparr>"

lemma demo_create:
  "rpc_create_partition_table demo_order demo_request demo_empty = Some (Inr (Some 0), demo_meta)"
proof -
  have o: "open_for_table (pr_db demo_request) (pr_tab demo_request) demo_empty = Some (Some (db_meta_new [1]))"
    by (simp add: open_for_table_def demo_request_def demo_empty_def db_meta_new_def)
  have g: "pr_ptype demo_request \<noteq> 0" "\<not> unat (scast (pr_replicas demo_request) :: 64 word) < card (dom (ms_nodes demo_empty))"
    by (simp_all add: demo_request_def demo_empty_def)
  have d: "dm_next_oid (db_meta_new [1]) = 0" "pr_db demo_request = [1]" "pr_tab demo_request = [2]"
    by (simp_all add: db_meta_new_def demo_request_def)
  show ?thesis
    using o g demo_request_parts demo_placed
    by (simp add: rpc_create_partition_table_def Let_def d demo_meta_def demo_table_def new_partition_table_def)
qed

lemma demo_reach: "meta_reach demo_meta"
  by (rule mr_partition_table [OF demo_empty_reach demo_create]) (simp add: demo_request_def demo_empty_def db_meta_new_def)

lemma demo_meta_known:
  "\<exists>d. ms_dbs demo_meta [1] = Some (Some d) \<and> dm_tables d [2] = Some (Some demo_table)"
  by (simp add: demo_meta_def add_table_def set_db_def)

section \<open>Properties of the meta server\<close>

text \<open>C31. In every reachable state the metadata is well formed: each database and each table is stored under its own
  name, a column has a type, the partitions are numbered from 0 and are as many as the table says, each has one
  location, with the leader first and all replicas at different addresses, and no two tables of a database have the
  same identifier.\<close>

theorem reachable_metadata_ok:
  assumes "meta_reach m"
  shows "meta_ok m"
  by (rule reachable_ok [OF assms])

theorem reachable_metadata_ok_witness: "meta_ok demo_meta"
  by (rule reachable_metadata_ok [OF demo_reach])

text \<open>C32. In every reachable state \<open>GetPartitionLocation\<close> answers with exactly the wanted partitions, each with the
  address of its leader, and changes nothing: of a range table the partitions that meet the range, of a hash
  table one partition for a single value, in all other cases all partitions.\<close>

theorem lookup_finds_wanted_partitions:
  assumes "meta_reach m" and "ms_dbs m db = Some (Some d)" and "dm_tables d tab = Some (Some t)" and "lookup_readable t mn mx"
  shows "rpc_get_partition_location hash_int hash_string db tab (tm_key_name t) mn mx m =
    Some (Inr (\<lambda>i. if wanted hash_string t mn mx (unat i) then Some (rl_ip (leader_of t (unat i)), rl_port (leader_of t (unat i))) else None), m)"
proof -
  have "tab_ok tab t" by (rule reachable_tab_ok [OF assms(1-3)])
  note l = replica_location_list_ok [OF this find_table_known [OF assms(2,3)] assms(4), of hash_int hash_string]
  show ?thesis unfolding rpc_get_partition_location_def l by (simp add: fun_eq_iff)
qed

lemma demo_wanted:
  "wanted h demo_table [50] [51] i \<longleftrightarrow> i = 0"
proof -
  have l: "length (tm_partitions demo_table) = 2" "tm_ptype demo_table = RANGE_PARTITION" by code_simp+
  have "ranges_meet [50] [51] (tm_partitions demo_table ! 0)" "\<not> ranges_meet [50] [51] (tm_partitions demo_table ! 1)" by code_simp+
  then show ?thesis by (auto simp: wanted_def l less_2_cases_iff)
qed

theorem lookup_finds_wanted_partitions_witness:
  "rpc_get_partition_location id (\<lambda>_. 0) [1] [2] [3] [50] [51] demo_meta = Some (Inr [0 \<mapsto> ([20], 8000)], demo_meta)"
proof -
  obtain d where d: "ms_dbs demo_meta [1] = Some (Some d)" "dm_tables d [2] = Some (Some demo_table)" using demo_meta_known by auto
  have k: "tm_key_name demo_table = [3]" "lookup_readable demo_table [50] [51]" by code_simp+
  have l: "rl_ip (leader_of demo_table 0) = [20]" "rl_port (leader_of demo_table 0) = 8000" by code_simp+
  have z: "unat i = 0 \<longleftrightarrow> i = 0" for i :: int32 by (simp add: unat_eq_zero)
  show ?thesis
    using lookup_finds_wanted_partitions [OF demo_reach d k(2), of id "\<lambda>_. 0"]
    by (simp add: k(1) demo_wanted l z fun_eq_iff)
qed

text \<open>A failed lookup only adds null pointers, which the next lookup reads like missing keys.\<close>

definition known_table :: "bytes \<Rightarrow> bytes \<Rightarrow> meta_server \<Rightarrow> meta_exn + tab_meta" where
  "known_table db tab m = map_sum id snd (fst (find_table db tab m))"

lemma find_table_stable:
  assumes "find_table db tab m = (r, m1)"
  shows "known_table db' tab' m1 = known_table db' tab' m"
  using assms
proof (cases rule: find_table_cases)
  case no_db
  then show ?thesis by (auto simp: known_table_def find_table_def split: option.splits)
next
  case (no_table d)
  then have "known_table db' tab' m1 = known_table db' tab' m" if "db' \<noteq> db"
    using that by (simp add: known_table_def find_table_def set_db_def split: option.splits)
  moreover have "known_table db tab' m1 = known_table db tab' m" if "tab' = tab"
    using no_table that by (simp add: known_table_def find_table_def set_db_def split: option.splits)
  moreover have "known_table db tab' m1 = known_table db tab' m" if "tab' \<noteq> tab"
    using no_table that by (simp add: known_table_def find_table_def set_db_def split: option.splits)
  ultimately show ?thesis by blast
qed simp

lemma lookup_of_known_table:
  assumes "known_table db tab m1 = known_table db tab m"
  shows "map_option fst (rpc_get_partition_location hi hs db tab key mn mx m1) = map_option fst (rpc_get_partition_location hi hs db tab key mn mx m)"
proof -
  obtain r m2 where f: "find_table db tab m = (r, m2)" by (cases "find_table db tab m")
  obtain r1 m3 where f1: "find_table db tab m1 = (r1, m3)" by (cases "find_table db tab m1")
  have e: "map_sum id snd r1 = map_sum id snd r" using assms f f1 by (simp add: known_table_def)
  show ?thesis
  proof (cases r)
    case (Inl x)
    then have "r1 = Inl x" using e by (cases r1) simp_all
    then show ?thesis by (simp add: rpc_get_partition_location_def replica_location_list_def f f1 Inl)
  next
    case (Inr x)
    then obtain d t where "r = Inr (d, t)" by (cases x) simp
    moreover from this obtain d1 where "r1 = Inr (d1, t)" using e by (cases r1) auto
    moreover have "map_option fst (do { (r, m) \<leftarrow> map_option (\<lambda>r. (r, m3)) x; Some (f r, m) }) =
        map_option fst (do { (r, m) \<leftarrow> map_option (\<lambda>r. (r, m2)) x; Some (f r, m) })" for x :: "(meta_exn + locations) option"
        and f :: "meta_exn + locations \<Rightarrow> meta_exn + (int32 \<rightharpoonup> bytes \<times> int32)"
      by (cases x) simp_all
    ultimately show ?thesis
      by (simp add: rpc_get_partition_location_def replica_location_list_def f f1)
  qed
qed

lemma update_leader_eq:
  "rpc_update_leader db tab p_id ip m = Some (map_sum id (\<lambda>_. ()) (fst (find_table db tab m)), snd (find_table db tab m))"
proof -
  obtain r m1 where f: "find_table db tab m = (r, m1)" by (cases "find_table db tab m")
  show ?thesis
  proof (cases r)
    case (Inl e)
    then show ?thesis by (simp add: rpc_update_leader_def update_partition_leader_def f)
  next
    case (Inr x)
    then obtain d t where x: "r = Inr (d, t)" by (cases x) simp
    have "\<exists>b. update_partition_leader db tab p_id ip m = Some (Inr b, m1)"
      unfolding update_partition_leader_def f x Let_def by auto
    then show ?thesis by (auto simp: rpc_update_leader_def f x)
  qed
qed

text \<open>\<open>UpdateLeader\<close> has no effect: \<open>UpdatePartitionLeader\<close> changes the roles in a copy of the table's location, so
  no lookup, of whatever table, gives another answer after it.\<close>

theorem update_leader_has_no_effect:
  assumes "rpc_update_leader db tab p_id ip m = Some (r, m1)"
  shows "map_option fst (rpc_get_partition_location hash_int hash_string db' tab' key mn mx m1) =
    map_option fst (rpc_get_partition_location hash_int hash_string db' tab' key mn mx m)"
proof -
  obtain x m2 where f: "find_table db tab m = (x, m2)" by (cases "find_table db tab m")
  with assms have "m1 = m2" by (simp add: update_leader_eq)
  show ?thesis unfolding \<open>m1 = m2\<close> by (rule lookup_of_known_table [OF find_table_stable [OF f]])
qed

theorem update_leader_has_no_effect_witness:
  "\<exists>r m1. rpc_update_leader [1] [2] 0 [21] demo_meta = Some (r, m1) \<and>
    map_option fst (rpc_get_partition_location id (\<lambda>_. 0) [1] [2] [3] [50] [51] m1) =
    map_option fst (rpc_get_partition_location id (\<lambda>_. 0) [1] [2] [3] [50] [51] demo_meta)"
proof (intro exI conjI)
  show u: "rpc_update_leader [1] [2] 0 [21] demo_meta =
      Some (map_sum id (\<lambda>_. ()) (fst (find_table [1] [2] demo_meta)), snd (find_table [1] [2] demo_meta))"
    by (rule update_leader_eq)
  show "map_option fst (rpc_get_partition_location id (\<lambda>_. 0) [1] [2] [3] [50] [51] (snd (find_table [1] [2] demo_meta))) =
      map_option fst (rpc_get_partition_location id (\<lambda>_. 0) [1] [2] [3] [50] [51] demo_meta)"
    by (rule update_leader_has_no_effect [OF u])
qed

text \<open>C35. A lookup in an unknown database makes the server lose that name: \<open>operator[]\<close> leaves a null pointer under
  it, so \<open>CreateDataBase\<close> refuses to create the database, and a \<open>CreateTable\<close> in it follows the null pointer.\<close>

theorem failed_lookup_poisons_database:
  assumes "ms_dbs m db = None" and "rpc_get_partition_location hash_int hash_string db tab key mn mx m = Some (r, m1)"
  shows "r = Inl (Meta NO_DATABASE) \<and> rpc_create_database db m1 = Some (Inr False, m1) \<and> rpc_create_table db tab' names types m1 = None"
  using assms
  by (auto simp: rpc_get_partition_location_def replica_location_list_def find_table_def rpc_create_database_def
      rpc_create_table_def open_for_table_def)

theorem failed_lookup_poisons_database_witness:
  "rpc_create_database [7] (snd (the (rpc_get_partition_location id (\<lambda>_. 0) [7] [2] [3] [50] [51] demo_meta))) =
    Some (Inr False, snd (the (rpc_get_partition_location id (\<lambda>_. 0) [7] [2] [3] [50] [51] demo_meta)))"
proof -
  have n: "ms_dbs demo_meta [7] = None" by (simp add: demo_meta_def add_table_def set_db_def demo_empty_def)
  then obtain r m1 where "rpc_get_partition_location id (\<lambda>_. 0) [7] [2] [3] [50] [51] demo_meta = Some (r, m1)"
    by (simp add: rpc_get_partition_location_def replica_location_list_def find_table_def)
  with failed_lookup_poisons_database [OF n this] show ?thesis by simp
qed

end
