(* ===== verification/MetaPlacement.thy ===== *)
theory MetaPlacement
  imports MetaState
begin

text \<open>
  The placement of replicas in \<open>CreatePartitionTable\<close>: which numbers of replicas it can serve, and the balance of
  the leaders.
\<close>

section \<open>Placement\<close>

text \<open>The addresses of the active nodes, which the counters do not change.\<close>

definition active_ips :: "(bytes \<rightharpoonup> node) \<Rightarrow> bytes set" where
  "active_ips ns = nd_ip ` {n \<in> ran ns. nd_active n}"

lemma least_node_found:
  "least_node ns ok cnt xs mc res = Some x \<Longrightarrow> res \<noteq> Some x \<Longrightarrow> \<exists>n. ns x = Some n \<and> nd_active n \<and> ok n"
  by (induction ns ok cnt xs mc res rule: least_node.induct) (auto split: option.splits if_splits)

lemma active_ips_iff: "ip \<in> active_ips ns \<longleftrightarrow> (\<exists>x n. ns x = Some n \<and> nd_active n \<and> nd_ip n = ip)"
  by (auto simp: active_ips_def ran_def)

lemma active_ips_upd:
  assumes "ns x = Some n" and "nd_ip n' = nd_ip n" and "nd_active n' = nd_active n"
  shows "active_ips (ns(x \<mapsto> n')) = active_ips ns"
proof (intro set_eqI iffI)
  fix ip assume "ip \<in> active_ips (ns(x \<mapsto> n'))"
  then obtain y k where "(ns(x \<mapsto> n')) y = Some k" "nd_active k" "nd_ip k = ip" unfolding active_ips_iff by blast
  then show "ip \<in> active_ips ns" unfolding active_ips_iff using assms by (cases "y = x") auto
next
  fix ip assume "ip \<in> active_ips ns"
  then obtain y k where "ns y = Some k" "nd_active k" "nd_ip k = ip" unfolding active_ips_iff by blast
  then have "(ns(x \<mapsto> n')) y = Some (if y = x then n' else k) \<and> nd_active (if y = x then n' else k) \<and> nd_ip (if y = x then n' else k) = ip"
    using assms by auto
  then show "ip \<in> active_ips (ns(x \<mapsto> n'))" unfolding active_ips_iff by blast
qed

lemma place_leader_ips:
  assumes "place_leader order ns = Some (r, ns1)"
  shows "rl_ip r \<in> active_ips ns \<and> active_ips ns1 = active_ips ns"
proof -
  obtain x n where x: "least_node ns (\<lambda>n. True) nd_leaders order int32_max None = Some x" "ns x = Some n"
    "rl_ip r = nd_ip n" "ns1 = ns(x \<mapsto> n\<lparr>nd_leaders := nd_leaders n + 1\<rparr>)"
    using assms by (auto simp: place_leader_def split: Option.bind_splits)
  have "nd_active n" using least_node_found [OF x(1)] x(2) by simp
  then show ?thesis using x active_ips_upd [where ns = ns and x = x and n = n and n' = "n\<lparr>nd_leaders := nd_leaders n + 1\<rparr>"] by (auto simp: active_ips_iff)
qed

lemma place_follower_ips:
  assumes "place_follower order used ns = Some (r, ns1)"
  shows "rl_ip r \<in> active_ips ns \<and> active_ips ns1 = active_ips ns"
proof -
  obtain x n where x: "least_node ns (\<lambda>n. nd_ip n \<notin> used) nd_followers order int32_max None = Some x" "ns x = Some n"
    "rl_ip r = nd_ip n" "ns1 = ns(x \<mapsto> n\<lparr>nd_followers := nd_followers n + 1\<rparr>)"
    using assms by (auto simp: place_follower_def split: Option.bind_splits)
  have "nd_active n" using least_node_found [OF x(1)] x(2) by simp
  then show ?thesis using x active_ips_upd [where ns = ns and x = x and n = n and n' = "n\<lparr>nd_followers := nd_followers n + 1\<rparr>"] by (auto simp: active_ips_iff)
qed

lemma place_followers_ips:
  "place_followers j order used ns = Some (rs, ns1) \<Longrightarrow> rl_ip ` set rs \<subseteq> active_ips ns \<and> active_ips ns1 = active_ips ns"
proof (induction j arbitrary: used ns rs)
  case (Suc j)
  then obtain r ns2 rs' where s: "place_follower order used ns = Some (r, ns2)"
      "place_followers j order (insert (rl_ip r) used) ns2 = Some (rs', ns1)" "rs = r # rs'" by (auto split: Option.bind_splits)
  from place_follower_ips [OF s(1)] Suc.IH [OF s(2)] s(3) show ?case by auto
qed simp

lemma place_partition_ips:
  assumes "place_partition order oid k p ns = Some (l, ns1)" and "0 < sint k"
  shows "rl_ip ` set (pp_replicas l) \<subseteq> active_ips ns \<and> card (rl_ip ` set (pp_replicas l)) = nat (sint k) \<and> active_ips ns1 = active_ips ns"
proof -
  obtain r ns2 rs where s: "place_leader order ns = Some (r, ns2)"
      "place_followers (nat (sint k - 1)) order {rl_ip r} ns2 = Some (rs, ns1)" "pp_replicas l = r # rs"
    using assms(1) by (auto simp: place_partition_def split: Option.bind_splits)
  note f = place_followers_ok [OF s(2)]
  have "card (rl_ip ` set rs) = length rs" using f distinct_card [of "map rl_ip rs"] by simp
  then have "card (insert (rl_ip r) (rl_ip ` set rs)) = Suc (nat (sint k - 1))" using f by (subst card_insert_disjoint) auto
  moreover have "Suc (nat (sint k - 1)) = nat (sint k)" using assms(2) by simp
  ultimately show ?thesis using place_leader_ips [OF s(1)] place_followers_ips [OF s(2)] s(3) by simp
qed

lemma place_leader_dom: "place_leader order ns = Some (r, ns1) \<Longrightarrow> dom ns1 = dom ns"
  by (clarsimp simp: place_leader_def insert_absorb domI split: Option.bind_splits)

lemma place_followers_dom: "place_followers j order used ns = Some (rs, ns1) \<Longrightarrow> dom ns1 = dom ns"
proof (induction j arbitrary: used ns rs)
  case (Suc j)
  then obtain r ns2 rs' where s: "place_follower order used ns = Some (r, ns2)"
      "place_followers j order (insert (rl_ip r) used) ns2 = Some (rs', ns1)" by (auto split: Option.bind_splits)
  have "dom ns2 = dom ns" using s(1)
    by (clarsimp simp: place_follower_def insert_absorb domI split: Option.bind_splits)
  with Suc.IH [OF s(2)] show ?case by simp
qed simp

lemma place_partitions_dom: "place_partitions order oid k ps ns = Some (ls, ns1) \<Longrightarrow> dom ns1 = dom ns"
proof (induction ps arbitrary: ns ls)
  case (Cons p ps)
  then obtain l ns2 ls' where s: "place_partition order oid k p ns = Some (l, ns2)"
      "place_partitions order oid k ps ns2 = Some (ls', ns1)" by (auto split: Option.bind_splits)
  obtain r ns3 rs where "place_leader order ns = Some (r, ns3)"
      "place_followers (nat (sint k - 1)) order {rl_ip r} ns3 = Some (rs, ns2)"
    using s(1) by (auto simp: place_partition_def split: Option.bind_splits)
  then have "dom ns2 = dom ns" using place_leader_dom place_followers_dom by metis
  with Cons.IH [OF s(2)] show ?case by simp
qed simp

lemma find_table_nodes: "find_table db tab m = (r, m1) \<Longrightarrow> ms_nodes m1 = ms_nodes m"
  by (erule find_table_cases) (simp_all add: set_db_def)

lemma reachable_finite_nodes: "meta_reach m \<Longrightarrow> finite (dom (ms_nodes m))"
proof (induction rule: meta_reach.induct)
  case mr_new
  then show ?case by (simp add: meta_server_new_def)
next
  case (mr_database m db r m1)
  then show ?case by (auto simp: rpc_create_database_def split: if_splits)
next
  case (mr_table m db tab names types r m1)
  from mr_table.hyps(2) show ?case by (cases rule: create_table_cases) (use mr_table.IH in \<open>simp_all add: add_table_def set_db_def\<close>)
next
  case (mr_partition_table m order req r m1)
  from mr_partition_table.hyps(2) show ?case
    by (cases rule: partition_table_cases) (use mr_partition_table.IH place_partitions_dom in simp_all)
next
  case (mr_register m name port ip r m1)
  then have "m1 = m\<lparr>ms_nodes := (ms_nodes m)(name \<mapsto> (case ms_nodes m name of Some n \<Rightarrow> n\<lparr>nd_active := True\<rparr> | None \<Rightarrow> node_new ip port True))\<rparr>"
    by (simp add: rpc_node_register_def)
  then show ?case using mr_register.IH by (simp del: fun_upd_apply)
next
  case (mr_leader m db tab p_id ip r' m1)
  then show ?case using find_table_nodes [of db tab m] by (cases "find_table db tab m") (auto simp: update_leader_eq)
next
  case (mr_location m hi hs db tab key mn mx r'' m1)
  obtain x m2 where f: "find_table db tab m = (x, m2)" by (cases "find_table db tab m")
  then have "m1 = m2" using mr_location.hyps(2)
    by (auto simp: rpc_get_partition_location_def replica_location_list_def split: sum.splits prod.splits if_splits Option.bind_splits)
  then show ?case using find_table_nodes [OF f] mr_location.IH by simp
next
  case (mr_key m db tab k m1)
  then show ?case using find_table_nodes [of db tab m] by (auto simp: get_partition_key_def split: sum.splits prod.splits)
next
  case (mr_info m db tab c m1)
  obtain x m2 where f: "find_table db tab m = (x, m2)" by (cases "find_table db tab m")
  then have "m1 = m2" using mr_info.hyps(2)
    by (auto simp: rpc_get_table_info_def get_col_info_def split: sum.splits prod.splits if_splits)
  then show ?case using find_table_nodes [OF f] mr_info.IH by simp
qed

lemma unat_scast_pos:
  fixes k :: int32
  assumes "0 < sint k"
  shows "unat (scast k :: 64 word) = nat (sint k)"
proof -
  have e: "(scast k :: 64 word) = word_of_int (sint k)" by simp
  have e64: "(2::int) ^ 64 = 18446744073709551616" and e31: "(2::int) ^ 31 = 2147483648" by simp_all
  have "sint k < 2 ^ 31" using sint_range_size [of k] by (simp add: word_size)
  then have "uint (scast k :: 64 word) = sint k"
    unfolding e using assms unfolding e31 by (subst uint_word_of_int) (simp add: e64)
  then show ?thesis by (simp flip: nat_uint_eq)
qed

text \<open>With a positive number of replicas the nodes must be exactly as many, and all active.\<close>

lemma all_nodes_needed:
  assumes "place_partition order oid k p ns = Some (l, ns1)" and "0 < sint k" and "finite (dom ns)"
    and "\<not> unat (scast k :: 64 word) < card (dom ns)"
  shows "sint k = int (card (dom ns)) \<and> (\<forall>n \<in> ran ns. nd_active n)"
proof -
  note l = place_partition_ips [OF assms(1,2)]
  define A where "A = {x. \<exists>n. ns x = Some n \<and> nd_active n}"
  have A: "A \<subseteq> dom ns" by (auto simp: A_def)
  then have finA: "finite A" using assms(3) by (rule finite_subset)
  have ips: "active_ips ns = (\<lambda>x. nd_ip (the (ns x))) ` A"
    unfolding A_def by (force simp: active_ips_iff image_iff)
  have "finite (active_ips ns)" using finA by (simp add: ips)
  then have "nat (sint k) \<le> card (active_ips ns)" using l card_mono [of "active_ips ns" "rl_ip ` set (pp_replicas l)"] by simp
  moreover have "card (active_ips ns) \<le> card A" unfolding ips using finA by (rule card_image_le)
  moreover have "card A \<le> card (dom ns)" using assms(3) A by (rule card_mono)
  ultimately have up: "nat (sint k) \<le> card A" "card A \<le> card (dom ns)" by linarith+
  have "unat (scast k :: 64 word) = nat (sint k)" by (rule unat_scast_pos [OF assms(2)])
  with assms(4) have "card (dom ns) \<le> nat (sint k)" by simp
  with up have e: "card A = card (dom ns)" "nat (sint k) = card (dom ns)" by linarith+
  then have A: "A = dom ns" using A assms(3) by (simp add: card_subset_eq)
  have "nd_active n" if "n \<in> ran ns" for n
  proof -
    from that obtain x where x: "ns x = Some n" by (auto simp: ran_def)
    then have "x \<in> A" using A by auto
    then show ?thesis using x by (simp add: A_def)
  qed
  then show ?thesis using e(2) assms(2) by simp
qed

lemma no_active_no_leader: "place_leader order ns = Some (r, ns1) \<Longrightarrow> \<exists>n \<in> ran ns. nd_active n"
  using place_leader_ips [of order ns r ns1] by (auto simp: active_ips_def)

text \<open>C33. The check of the number of replicas is the wrong way around. The comment asks that replicas are not more
  than nodes; the code refuses fewer, and with more the search for another node finds none. A negative number passes,
  because the cast to \<open>size_t\<close> makes it large, and then no follower is placed. So a table with at least one
  partition is created only with exactly as many replicas as there are nodes, all of them active, or with a negative
  number of replicas and some active node.\<close>

theorem partition_table_needs_all_nodes:
  assumes "meta_reach m" and "rpc_create_partition_table order req m = Some (Inr (Some oid), m1)"
    and "0 < sint (pr_count req)"
  shows "sint (pr_replicas req) = int (card (dom (ms_nodes m))) \<and> (\<forall>n \<in> ran (ms_nodes m). nd_active n) \<or>
    sint (pr_replicas req) < 0 \<and> (\<exists>n \<in> ran (ms_nodes m). nd_active n)"
  using assms(2)
proof (cases rule: partition_table_cases)
  case (created d cols ps ls ns)
  let ?k = "pr_replicas req" and ?ns = "ms_nodes m"
  have "ps \<noteq> []" using request_partitions_ids [OF created(5)] assms(3) by auto
  then obtain p qs where "ps = p # qs" by (cases ps) simp_all
  then obtain l ns1 where pl: "place_partition order (dm_next_oid d) ?k p ?ns = Some (l, ns1)"
    using created(6) by (auto split: Option.bind_splits)
  have act: "\<exists>n \<in> ran ?ns. nd_active n"
    using pl no_active_no_leader by (auto simp: place_partition_def split: Option.bind_splits)
  have fin: "finite (dom ?ns)" by (rule reachable_finite_nodes [OF assms(1)])
  show ?thesis
  proof (cases "0 < sint ?k")
    case True
    have "sint ?k = int (card (dom ?ns)) \<and> (\<forall>n \<in> ran ?ns. nd_active n)"
      by (rule all_nodes_needed [OF pl True fin]) (use created(3) in simp)
    then show ?thesis ..
  next
    case False
    have "sint ?k \<noteq> 0"
    proof
      assume z: "sint ?k = 0"
      have "word_of_int (sint ?k) = ?k" by simp
      then have "?k = 0" unfolding z by simp
      then have "dom ?ns = {}" using created(3) fin by simp
      then show False using act by (auto simp: ran_def)
    qed
    with False act show ?thesis by simp
  qed
qed simp

theorem partition_table_needs_all_nodes_witness:
  "sint (pr_replicas demo_request) = int (card (dom (ms_nodes demo_empty))) \<or> sint (pr_replicas demo_request) < 0"
  using partition_table_needs_all_nodes [OF demo_empty_reach demo_create] by (auto simp: demo_request_def)

text \<open>With \<open>replica_cnt = -1\<close> the two nodes of the example are one too many for one replica and too few for three,
  but the table is created, with one replica of each partition.\<close>

lemma negative_replicas_accepted:
  "\<exists>m1. rpc_create_partition_table demo_order (demo_request\<lparr>pr_replicas := - 1\<rparr>) demo_empty = Some (Inr (Some 0), m1)"
proof -
  have o: "open_for_table (pr_db demo_request) (pr_tab demo_request) demo_empty = Some (Some (db_meta_new [1]))"
    by (simp add: open_for_table_def demo_request_def demo_empty_def db_meta_new_def)
  have g: "pr_ptype demo_request \<noteq> 0" "\<not> unat (scast (- 1 :: int32) :: 64 word) < card (dom (ms_nodes demo_empty))"
    by (simp_all add: demo_request_def demo_empty_def unsigned_minus_1_eq_mask mask_eq_exp_minus_1)
  have "\<exists>ls ns. place_partitions demo_order 0 (- 1) demo_partitions (ms_nodes demo_empty) = Some (ls, ns)"
    by (simp add: demo_partitions_def demo_empty_def demo_order_def place_partition_def place_leader_def node_new_def)
  then obtain ls ns where "place_partitions demo_order 0 (- 1) demo_partitions (ms_nodes demo_empty) = Some (ls, ns)" by blast
  with o g demo_request_parts show ?thesis
    by (simp add: rpc_create_partition_table_def tab_meta_new_def db_meta_new_def)
qed

subsection \<open>Balance\<close>

text \<open>The loop finds a node with the least counter.\<close>

lemma least_node_least:
  assumes "least_node ns ok cnt xs mc res = Some x" and "\<forall>y. res = Some y \<longrightarrow> (\<exists>n. ns y = Some n \<and> cnt n = mc)" and "ns x = Some n"
  shows "sint (cnt n) \<le> sint mc \<and> (\<forall>y \<in> set xs. \<forall>k. ns y = Some k \<longrightarrow> nd_active k \<longrightarrow> ok k \<longrightarrow> sint (cnt n) \<le> sint (cnt k))"
  using assms
proof (induction xs arbitrary: mc res)
  case (Cons y ys)
  show ?case
  proof (cases "\<exists>k. ns y = Some k \<and> nd_active k \<and> ok k \<and> sint (cnt k) < sint mc")
    case True
    then obtain k where k: "ns y = Some k" "nd_active k" "ok k" "sint (cnt k) < sint mc" by blast
    then have "least_node ns ok cnt ys (cnt k) (Some y) = Some x" using Cons.prems(1) by simp
    from Cons.IH [OF this _ Cons.prems(3)] k show ?thesis by auto
  next
    case False
    then have "least_node ns ok cnt ys mc res = Some x" using Cons.prems(1) by (auto split: option.splits if_splits)
    from Cons.IH [OF this Cons.prems(2,3)] False show ?thesis by force
  qed
qed auto

text \<open>The numbers of leaders differ by at most one.\<close>

definition balanced :: "(bytes \<rightharpoonup> node) \<Rightarrow> bool" where
  "balanced ns \<longleftrightarrow> (\<forall>x \<in> dom ns. \<forall>y \<in> dom ns. sint (nd_leaders (the (ns x))) \<le> sint (nd_leaders (the (ns y))) + 1)"

definition leaders_below :: "int \<Rightarrow> (bytes \<rightharpoonup> node) \<Rightarrow> bool" where
  "leaders_below b ns \<longleftrightarrow> (\<forall>x n. ns x = Some n \<longrightarrow> nd_active n \<and> sint (nd_leaders n) < b)"

lemma sint_inc: 
  fixes w :: int32
  assumes "sint w < 2 ^ 31 - 1"
  shows "sint (w + 1) = sint w + 1"
proof -
  have e: "(2::int) ^ 31 = 2147483648" by simp
  have "- (2 ^ 31) \<le> sint w" using sint_range_size [of w] by (simp add: word_size)
  then show ?thesis using assms unfolding e
    by (subst sint_word_ariths) (simp add: signed_take_bit_int_eq_self)
qed

lemma place_leader_balanced:
  assumes "place_leader order ns = Some (r, ns1)" and "set order = dom ns" and "balanced ns" and "leaders_below b ns" and "b < 2 ^ 31"
  shows "balanced ns1 \<and> leaders_below (b + 1) ns1"
proof -
  obtain x n where x: "least_node ns (\<lambda>n. True) nd_leaders order int32_max None = Some x" "ns x = Some n"
    "ns1 = ns(x \<mapsto> n\<lparr>nd_leaders := nd_leaders n + 1\<rparr>)"
    using assms(1) by (auto simp: place_leader_def split: Option.bind_splits)
  have b: "\<And>y k. ns y = Some k \<Longrightarrow> nd_active k \<and> sint (nd_leaders k) < b" using assms(4) by (simp add: leaders_below_def)
  have least: "sint (nd_leaders n) \<le> sint (nd_leaders k)" if "ns y = Some k" for y k
    using least_node_least [OF x(1) _ x(2)] that b [OF that] assms(2) by auto
  have inc: "sint (nd_leaders n + 1) = sint (nd_leaders n) + 1"
    by (rule sint_inc) (use b [OF x(2)] assms(5) in linarith)
  have near: "sint (nd_leaders k) \<le> sint (nd_leaders k') + 1" if "ns y = Some k" "ns y' = Some k'" for y k y' k'
    using assms(3) that unfolding balanced_def by (metis domI option.sel)
  have "balanced ns1"
    unfolding balanced_def
  proof (intro ballI)
    fix y z assume yz: "y \<in> dom ns1" "z \<in> dom ns1"
    obtain k k' where k: "ns y = Some k" "ns z = Some k'" using yz x by (auto split: if_splits)
    show "sint (nd_leaders (the (ns1 y))) \<le> sint (nd_leaders (the (ns1 z))) + 1"
      using near [OF k] least [OF k(1)] least [OF k(2)] near [OF k(1) x(2)] k inc x by auto
  qed
  moreover have "leaders_below (b + 1) ns1"
    unfolding leaders_below_def
  proof (intro allI impI)
    fix y k assume "ns1 y = Some k"
    then show "nd_active k \<and> sint (nd_leaders k) < b + 1"
      using b [OF x(2)] b [of y k] inc x(3) by (auto split: if_splits)
  qed
  ultimately show ?thesis by blast
qed

lemma place_followers_leaders:
  assumes "place_followers j order used ns = Some (rs, ns1)"
  shows "map_option (\<lambda>n. (nd_active n, nd_leaders n)) \<circ> ns1 = map_option (\<lambda>n. (nd_active n, nd_leaders n)) \<circ> ns"
  using assms
proof (induction j arbitrary: used ns rs)
  case (Suc j)
  then obtain r ns2 rs' where s: "place_follower order used ns = Some (r, ns2)"
      "place_followers j order (insert (rl_ip r) used) ns2 = Some (rs', ns1)" by (auto split: Option.bind_splits)
  have "map_option (\<lambda>n. (nd_active n, nd_leaders n)) \<circ> ns2 = map_option (\<lambda>n. (nd_active n, nd_leaders n)) \<circ> ns"
    using s(1) by (clarsimp simp: place_follower_def split: Option.bind_splits) (simp add: fun_eq_iff)
  with Suc.IH [OF s(2)] show ?case by simp
qed simp

text \<open>Which node leads a partition: the address and the port of the first replica.\<close>

definition node_address :: "node \<Rightarrow> bytes \<times> int32" where
  "node_address n = (nd_ip n, nd_port n)"

definition different_addresses :: "(bytes \<rightharpoonup> node) \<Rightarrow> bool" where
  "different_addresses ns \<longleftrightarrow> (\<forall>x y n k. ns x = Some n \<longrightarrow> ns y = Some k \<longrightarrow> node_address n = node_address k \<longrightarrow> x = y)"

definition led_by :: "node \<Rightarrow> phy_partition list \<Rightarrow> nat" where
  "led_by n ls = length [l \<leftarrow> ls. (rl_ip (hd (pp_replicas l)), rl_port (hd (pp_replicas l))) = node_address n \<and>
     rl_role (hd (pp_replicas l)) = Leader]"

lemma led_by_cong: "node_address n = node_address k \<Longrightarrow> led_by n ls = led_by k ls"
  by (simp add: led_by_def)

lemma different_addresses_cong:
  assumes "\<And>y. map_option node_address (ns2 y) = map_option node_address (ns y)"
  shows "different_addresses ns2 = different_addresses ns"
proof -
  have "different_addresses ns \<longleftrightarrow> (\<forall>x \<in> dom ns. \<forall>y. map_option node_address (ns x) = map_option node_address (ns y) \<longrightarrow> x = y)" for ns
    unfolding different_addresses_def dom_def by (simp add: map_option_case split: option.splits) metis
  moreover have "dom ns2 = dom ns"
  proof -
    have "ns2 y = None \<longleftrightarrow> ns y = None" for y using assms [of y] by (cases "ns2 y"; cases "ns y") simp_all
    then show ?thesis by (simp add: dom_def)
  qed
  ultimately show ?thesis by (simp only: assms)
qed

lemma place_followers_addresses:
  assumes "place_followers j order used ns = Some (rs, ns1)"
  shows "map_option (\<lambda>n. (node_address n, sint (nd_leaders n))) (ns1 y) = map_option (\<lambda>n. (node_address n, sint (nd_leaders n))) (ns y)"
  using assms
proof (induction j arbitrary: used ns rs)
  case (Suc j)
  then obtain r ns2 rs' where s: "place_follower order used ns = Some (r, ns2)"
      "place_followers j order (insert (rl_ip r) used) ns2 = Some (rs', ns1)" by (auto split: Option.bind_splits)
  have "map_option (\<lambda>n. (node_address n, sint (nd_leaders n))) (ns2 y) = map_option (\<lambda>n. (node_address n, sint (nd_leaders n))) (ns y)"
    using s(1) by (clarsimp simp: place_follower_def node_address_def split: Option.bind_splits)
  with Suc.IH [OF s(2)] show ?case by simp
qed simp

lemma same_leaders:
  assumes "map_option (\<lambda>n. (nd_active n, nd_leaders n)) \<circ> ns1 = map_option (\<lambda>n. (nd_active n, nd_leaders n)) \<circ> ns"
  shows "balanced ns1 = balanced ns" and "leaders_below b ns1 = leaders_below b ns" and "dom ns1 = dom ns"
proof -
  have e: "map_option (\<lambda>n. (nd_active n, nd_leaders n)) (ns1 x) = map_option (\<lambda>n. (nd_active n, nd_leaders n)) (ns x)" for x
    using fun_cong [OF assms, of x] by simp
  have "ns1 x = None \<longleftrightarrow> ns x = None" for x using e [of x] by (cases "ns1 x"; cases "ns x") simp_all
  then show d: "dom ns1 = dom ns" by (simp add: dom_def)
  have l: "nd_leaders (the (ns1 x)) = nd_leaders (the (ns x))" if "x \<in> dom ns" for x
    using e [of x] that d by auto
  then show "balanced ns1 = balanced ns" by (simp add: balanced_def d)
  have "leaders_below b ns \<longleftrightarrow> (\<forall>x z. map_option (\<lambda>n. (nd_active n, nd_leaders n)) (ns x) = Some z \<longrightarrow> fst z \<and> sint (snd z) < b)" for ns
    by (auto simp: leaders_below_def)
  then show "leaders_below b ns1 = leaders_below b ns" by (simp only: e)
qed

lemma place_partition_balanced:
  assumes "place_partition order oid k p ns = Some (l, ns2)" and "set order = dom ns" and "balanced ns" and "leaders_below b ns" and "b < 2 ^ 31"
  shows "balanced ns2 \<and> leaders_below (b + 1) ns2 \<and> dom ns2 = dom ns"
proof -
  obtain r ns3 rs where f: "place_leader order ns = Some (r, ns3)"
      "place_followers (nat (sint k - 1)) order {rl_ip r} ns3 = Some (rs, ns2)"
    using assms(1) by (auto simp: place_partition_def split: Option.bind_splits)
  note e = same_leaders [OF place_followers_leaders [OF f(2)]]
  show ?thesis using place_leader_balanced [OF f(1) assms(2-5)] e place_leader_dom [OF f(1)] by simp
qed

text \<open>The nodes after a partition is placed: one of them leads it and has counted it, the others have as many leaders
  as before.\<close>

lemma place_partition_counts:
  assumes "place_partition order oid k p ns = Some (l, ns2)" and "leaders_below b ns" and "b < 2 ^ 31"
  shows "\<exists>x n. ns x = Some n \<and> rl_ip (hd (pp_replicas l)) = nd_ip n \<and> rl_port (hd (pp_replicas l)) = nd_port n \<and>
    rl_role (hd (pp_replicas l)) = Leader \<and>
    (\<forall>y. map_option (\<lambda>n. (node_address n, sint (nd_leaders n))) (ns2 y) =
      map_option (\<lambda>n. (node_address n, sint (nd_leaders n) + (if y = x then 1 else 0))) (ns y))"
proof -
  obtain r ns3 rs where f: "place_leader order ns = Some (r, ns3)"
      "place_followers (nat (sint k - 1)) order {rl_ip r} ns3 = Some (rs, ns2)" "pp_replicas l = r # rs"
    using assms(1) by (auto simp: place_partition_def split: Option.bind_splits)
  obtain x n where x: "ns x = Some n" "r = \<lparr>rl_ip = nd_ip n, rl_port = nd_port n, rl_role = Leader\<rparr>"
    "ns3 = ns(x \<mapsto> n\<lparr>nd_leaders := nd_leaders n + 1\<rparr>)"
    using f(1) by (auto simp: place_leader_def split: Option.bind_splits)
  have "sint (nd_leaders n) < 2 ^ 31 - 1" using assms(2,3) x(1) unfolding leaders_below_def by (smt (verit))
  note inc = sint_inc [OF this]
  have "map_option (\<lambda>n. (node_address n, sint (nd_leaders n))) (ns2 y) =
      map_option (\<lambda>n. (node_address n, sint (nd_leaders n) + (if y = x then 1 else 0))) (ns y)" for y
    using place_followers_addresses [OF f(2)] x inc by (simp add: node_address_def)
  with x f(3) show ?thesis by auto
qed

text \<open>C34. The placement is balanced: if all nodes are active, have different addresses, and the numbers of their
  leaders differ by at most one, they do so after the partitions of a new table are placed, as long as no counter
  overflows; and the counter of each node has grown by exactly the number of partitions whose leader was placed on
  it.\<close>

theorem placement_keeps_leaders_balanced:
  assumes "place_partitions order oid k ps ns = Some (ls, ns1)" and "set order = dom ns" and "balanced ns"
    and "leaders_below b ns" and "b + int (length ps) \<le> 2 ^ 31" and "different_addresses ns"
  shows "balanced ns1 \<and> (\<forall>x \<in> dom ns. sint (nd_leaders (the (ns1 x))) = sint (nd_leaders (the (ns x))) + int (led_by (the (ns x)) ls))"
  using assms
proof (induction ps arbitrary: ns ls b)
  case (Cons p ps)
  then obtain l ns2 ls' where s: "place_partition order oid k p ns = Some (l, ns2)"
      "place_partitions order oid k ps ns2 = Some (ls', ns1)" "ls = l # ls'" by (auto split: Option.bind_splits)
  have b: "b < 2 ^ 31" using Cons.prems(5) by simp
  note bal = place_partition_balanced [OF s(1) Cons.prems(2-4) b]
  obtain x n where x: "ns x = Some n" "rl_ip (hd (pp_replicas l)) = nd_ip n" "rl_port (hd (pp_replicas l)) = nd_port n"
    "rl_role (hd (pp_replicas l)) = Leader"
    and c: "\<And>y. map_option (\<lambda>n. (node_address n, sint (nd_leaders n))) (ns2 y) =
      map_option (\<lambda>n. (node_address n, sint (nd_leaders n) + (if y = x then 1 else 0))) (ns y)"
    using place_partition_counts [OF s(1) Cons.prems(4) b] by blast
  have a: "map_option node_address (ns2 y) = map_option node_address (ns y)" for y
    using arg_cong [where f = "map_option fst", OF c [of y]] by (simp add: option.map_comp comp_def)
  note ih = Cons.IH [OF s(2), of "b + 1"]
  have ih: "balanced ns1" "\<forall>y \<in> dom ns. sint (nd_leaders (the (ns1 y))) = sint (nd_leaders (the (ns2 y))) + int (led_by (the (ns2 y)) ls')"
    using ih bal Cons.prems(2,5) different_addresses_cong [OF a] Cons.prems(6) by auto
  have "sint (nd_leaders (the (ns1 y))) = sint (nd_leaders (the (ns y))) + int (led_by (the (ns y)) ls)" if y: "y \<in> dom ns" for y
  proof -
    from y obtain k' where k: "ns y = Some k'" by auto
    then obtain k2 where k2: "ns2 y = Some k2" "node_address k2 = node_address k'"
        "sint (nd_leaders k2) = sint (nd_leaders k') + (if y = x then 1 else 0)" using c [of y] by auto
    have "node_address k' = node_address n \<longleftrightarrow> y = x" using Cons.prems(6) k x(1) by (auto simp: different_addresses_def)
    then have "led_by k' ls = (if y = x then 1 else 0) + led_by k' ls'" using s(3) x by (auto simp: led_by_def node_address_def)
    moreover have "led_by k2 ls' = led_by k' ls'" by (rule led_by_cong [OF k2(2)])
    ultimately show ?thesis using ih(2) y k k2 by simp
  qed
  with ih(1) show ?case by blast
qed (simp add: led_by_def)

theorem placement_keeps_leaders_balanced_witness:
  "balanced demo_nodes \<and> led_by (the (ms_nodes demo_empty [70])) demo_locations = 1"
proof -
  note b = placement_keeps_leaders_balanced [OF demo_placed, of 1]
  have "set demo_order = dom (ms_nodes demo_empty)" by (auto simp: demo_order_def demo_empty_def)
  moreover have "balanced (ms_nodes demo_empty)" by (simp add: balanced_def demo_empty_def node_new_def)
  moreover have "leaders_below 1 (ms_nodes demo_empty)" by (simp add: leaders_below_def demo_empty_def node_new_def)
  moreover have "1 + int (length demo_partitions) \<le> 2 ^ 31" by (simp add: demo_partitions_def)
  moreover have "different_addresses (ms_nodes demo_empty)" by (simp add: different_addresses_def demo_empty_def node_new_def node_address_def)
  ultimately have "balanced demo_nodes \<and> (\<forall>x \<in> dom (ms_nodes demo_empty). sint (nd_leaders (the (demo_nodes x))) =
      sint (nd_leaders (the (ms_nodes demo_empty x))) + int (led_by (the (ms_nodes demo_empty x)) demo_locations))" by (rule b)
  then have "balanced demo_nodes" "sint (nd_leaders (the (demo_nodes [70]))) =
      sint (nd_leaders (the (ms_nodes demo_empty [70]))) + int (led_by (the (ms_nodes demo_empty [70])) demo_locations)"
    by (auto simp: demo_empty_def)
  moreover have "sint (nd_leaders (the (demo_nodes [70]))) = 1" "sint (nd_leaders (the (ms_nodes demo_empty [70]))) = 0"
    by (simp_all add: demo_empty_def demo_nodes_def node_new_def)
  ultimately show ?thesis by linarith
qed

end
