(* ===== verification/MetaCodec.thy ===== *)
theory MetaCodec
  imports MetaState
begin

text \<open>
  The file of the metadata: the operators \<open><<\<close> and \<open>>>\<close> of \<open>meta_server.h\<close>, \<open>table_location.h\<close> and
  \<open>partition_location.h\<close>, and \<open>close_meta_server\<close> and \<open>open_meta_server\<close> that write and read the file.

  A writer gives the bytes it appends; \<open>None\<close> is a null pointer that is followed, or a type that is missing for a
  column. A reader takes what is left of the file and gives its value and the rest; \<open>None\<close> is a stream that
  has failed, or a number that is no value of its enumeration. What the code makes of a failed stream
  is not modelled: it goes on with counters that were never set. The order in which a writer goes through
  an \<open>unordered_map\<close> is an argument.
\<close>

section \<open>Tokens\<close>

definition dec_nat :: "nat \<Rightarrow> bytes" where
  "dec_nat n = ascii_bytes (dec_string n)"

definition dec_int :: "int \<Rightarrow> bytes" where
  "dec_int n = (if n < 0 then 45 # dec_nat (nat (- n)) else dec_nat (nat n))"

definition put_int :: "int32 \<Rightarrow> bytes" where
  "put_int w = dec_int (sint w)"

text \<open>\<open>is >> s\<close> for a string.\<close>

definition read_token :: "bytes \<Rightarrow> (bytes \<times> bytes) option" where
  "read_token s =
     (let s1 = dropWhile is_space s; t = takeWhile (\<lambda>c. \<not> is_space c) s1
      in if t = [] then None else Some (t, dropWhile (\<lambda>c. \<not> is_space c) s1))"

text \<open>\<open>is >> n\<close> for an \<open>int\<close> and for a \<open>size_t\<close>; a negative number is reduced modulo \<open>2 ^ 64\<close>.\<close>

definition read_int :: "bytes \<Rightarrow> (int32 \<times> bytes) option" where
  "read_int s = map_option (\<lambda>(n, rest). (word_of_int n, rest)) (scan_int s)"

definition read_size :: "bytes \<Rightarrow> (nat \<times> bytes) option" where
  "read_size s =
     (let s1 = dropWhile is_space s;
          (neg, s2) = (case s1 of c # cs \<Rightarrow> if c = 45 then (True, cs) else if c = 43 then (False, cs) else (False, s1) | [] \<Rightarrow> (False, s1));
          ds = takeWhile is_digit s2;
          n = digits_value ds
      in if ds = [] \<or> 2 ^ 64 \<le> n then None
         else Some (nat (if neg then (- n) mod 2 ^ 64 else n), dropWhile is_digit s2))"

fun read_list :: "(bytes \<Rightarrow> ('a \<times> bytes) option) \<Rightarrow> nat \<Rightarrow> bytes \<Rightarrow> ('a list \<times> bytes) option" where
  "read_list rd 0 s = Some ([], s)"
| "read_list rd (Suc n) s = do { (x, s1) \<leftarrow> rd s; (xs, s2) \<leftarrow> read_list rd n s1; Some (x # xs, s2) }"

text \<open>The templates for enumerations.\<close>

fun role_code :: "replica_role \<Rightarrow> int32" where
  "role_code INVALID_ROLE = 0" | "role_code Leader = 1" | "role_code Follower = 2"

fun ptype_code :: "partition_type \<Rightarrow> int32" where
  "ptype_code NONE_PARTITION = 0" | "ptype_code RANGE_PARTITION = 1" | "ptype_code HASH_PARTITION = 2"

fun duplicate_code :: "duplicate_type \<Rightarrow> int32" where
  "duplicate_code NOT_DUPLICATE = 0" | "duplicate_code DUPLICATE = 1"

definition read_enum :: "('a \<Rightarrow> int32) \<Rightarrow> 'a list \<Rightarrow> bytes \<Rightarrow> ('a \<times> bytes) option" where
  "read_enum code vals s = do { (n, s1) \<leftarrow> read_int s; x \<leftarrow> find (\<lambda>x. code x = n) vals; Some (x, s1) }"

section \<open>Writers and readers\<close>

definition put_par :: "par_meta \<Rightarrow> bytes" where
  "put_par p = pm_name p @ 32 # put_int (pm_id p) @ 32 # pm_min p @ 32 # pm_max p @ [10]"

definition get_par :: "bytes \<Rightarrow> (par_meta \<times> bytes) option" where
  "get_par s = do {
     (name, s) \<leftarrow> read_token s;
     (i, s) \<leftarrow> read_int s;
     (mn, s) \<leftarrow> read_token s;
     (mx, s) \<leftarrow> read_token s;
     Some (\<lparr>pm_name = name, pm_id = i, pm_min = mn, pm_max = mx\<rparr>, s) }"

definition put_col :: "bytes \<times> col_type \<Rightarrow> bytes" where
  "put_col c = (case c of (n, t) \<Rightarrow> n @ 32 # put_int t @ [10])"

definition get_col :: "bytes \<Rightarrow> ((bytes \<times> col_type) \<times> bytes) option" where
  "get_col s = do { (name, s) \<leftarrow> read_token s; (t, s) \<leftarrow> read_int s; Some ((name, t), s) }"

text \<open>After the number of columns comes no separator.\<close>

definition put_cols :: "column_info \<Rightarrow> bytes option" where
  "put_cols c =
     (if length (ci_names c) \<le> length (ci_types c)
      then Some (dec_nat (length (ci_names c)) @ concat (map put_col (zip (ci_names c) (ci_types c))))
      else None)"

definition get_cols :: "bytes \<Rightarrow> (column_info \<times> bytes) option" where
  "get_cols s = do {
     (n, s) \<leftarrow> read_int s;
     (cs, s) \<leftarrow> read_list get_col (nat (sint n)) s;
     Some (\<lparr>ci_names = map fst cs, ci_types = map snd cs\<rparr>, s) }"

definition put_replica :: "replica \<Rightarrow> bytes" where
  "put_replica r = rl_ip r @ 32 # put_int (rl_port r) @ 32 # put_int (role_code (rl_role r)) @ [10]"

definition get_replica :: "bytes \<Rightarrow> (replica \<times> bytes) option" where
  "get_replica s = do {
     (ip, s) \<leftarrow> read_token s;
     (port, s) \<leftarrow> read_int s;
     (role, s) \<leftarrow> read_enum role_code [INVALID_ROLE, Leader, Follower] s;
     Some (\<lparr>rl_ip = ip, rl_port = port, rl_role = role\<rparr>, s) }"

definition put_phy :: "phy_partition \<Rightarrow> bytes" where
  "put_phy p = put_int (pp_table p) @ 32 # put_int (pp_id p) @ 32 # put_int (pp_count p) @ 32 # dec_nat (length (pp_replicas p)) @ 10 #
     concat (map put_replica (pp_replicas p))"

definition get_phy :: "bytes \<Rightarrow> (phy_partition \<times> bytes) option" where
  "get_phy s = do {
     (t, s) \<leftarrow> read_int s;
     (i, s) \<leftarrow> read_int s;
     (c, s) \<leftarrow> read_int s;
     (n, s) \<leftarrow> read_size s;
     (rs, s) \<leftarrow> read_list get_replica n s;
     Some (\<lparr>pp_table = t, pp_id = i, pp_count = c, pp_replicas = rs\<rparr>, s) }"

definition put_location :: "phy_table \<Rightarrow> bytes" where
  "put_location l = put_int (pt_table l) @ 32 # put_int (duplicate_code (pt_duplicate l)) @ 32 # dec_nat (length (pt_partitions l)) @ 10 #
     concat (map put_phy (pt_partitions l))"

definition get_location :: "bytes \<Rightarrow> (phy_table \<times> bytes) option" where
  "get_location s = do {
     (t, s) \<leftarrow> read_int s;
     (d, s) \<leftarrow> read_enum duplicate_code [NOT_DUPLICATE, DUPLICATE] s;
     (n, s) \<leftarrow> read_size s;
     (ps, s) \<leftarrow> read_list get_phy n s;
     Some (\<lparr>pt_table = t, pt_duplicate = d, pt_partitions = ps\<rparr>, s) }"

definition put_tab :: "tab_meta \<Rightarrow> bytes option" where
  "put_tab t = do {
     cols \<leftarrow> put_cols (tm_cols t);
     Some (put_int (tm_oid t) @ 32 # tm_name t @ 32 # put_int (ptype_code (tm_ptype t)) @ 32 # tm_key_name t @ 32 #
       put_int (tm_key_type t) @ 32 # put_int (tm_count t) @ 32 # dec_nat (length (tm_partitions t)) @ 10 #
       cols @ concat (map put_par (tm_partitions t)) @ put_location (tm_location t)) }"

definition get_tab :: "bytes \<Rightarrow> (tab_meta \<times> bytes) option" where
  "get_tab s = do {
     (oid, s) \<leftarrow> read_int s;
     (name, s) \<leftarrow> read_token s;
     (pt, s) \<leftarrow> read_enum ptype_code [NONE_PARTITION, RANGE_PARTITION, HASH_PARTITION] s;
     (key, s) \<leftarrow> read_token s;
     (kt, s) \<leftarrow> read_int s;
     (cnt, s) \<leftarrow> read_int s;
     (n, s) \<leftarrow> read_size s;
     (cols, s) \<leftarrow> get_cols s;
     (ps, s) \<leftarrow> read_list get_par n s;
     (loc, s) \<leftarrow> get_location s;
     Some (\<lparr>tm_oid = oid, tm_name = name, tm_cols = cols, tm_ptype = pt, tm_key_name = key, tm_key_type = kt, tm_count = cnt,
       tm_partitions = ps, tm_location = loc\<rparr>, s) }"

text \<open>A map of pointers is written in the given order of its keys; null pointers are followed.\<close>

fun put_entries :: "('a \<Rightarrow> bytes option) \<Rightarrow> ('k \<rightharpoonup> 'a option) \<Rightarrow> 'k list \<Rightarrow> bytes option" where
  "put_entries put mp [] = Some []"
| "put_entries put mp (k # ks) = do {
     p \<leftarrow> mp k;
     x \<leftarrow> p;
     b \<leftarrow> put x;
     bs \<leftarrow> put_entries put mp ks;
     Some (b @ 10 # bs) }"

definition put_db :: "bytes list \<Rightarrow> db_meta \<Rightarrow> bytes option" where
  "put_db order d = do {
     tabs \<leftarrow> put_entries put_tab (dm_tables d) order;
     Some (put_int (dm_next_oid d) @ 32 # dm_name d @ 32 # dec_nat (card (dom (dm_tables d))) @ 10 # tabs) }"

definition get_db :: "bytes \<Rightarrow> (db_meta \<times> bytes) option" where
  "get_db s = do {
     (oid, s) \<leftarrow> read_int s;
     (name, s) \<leftarrow> read_token s;
     (n, s) \<leftarrow> read_size s;
     (tabs, s) \<leftarrow> read_list get_tab n s;
     Some (\<lparr>dm_next_oid = oid, dm_name = name, dm_tables = fold (\<lambda>t m. m(tm_name t \<mapsto> Some t)) tabs Map.empty\<rparr>, s) }"

text \<open>A node that is read is not active.\<close>

definition put_node :: "bytes \<times> node \<Rightarrow> bytes" where
  "put_node x = (case x of (name, n) \<Rightarrow>
     name @ 32 # nd_ip n @ 32 # put_int (nd_port n) @ 32 # put_int (nd_leaders n) @ 32 # put_int (nd_followers n) @ [10])"

definition get_node :: "bytes \<Rightarrow> ((bytes \<times> node) \<times> bytes) option" where
  "get_node s = do {
     (name, s) \<leftarrow> read_token s;
     (ip, s) \<leftarrow> read_token s;
     (port, s) \<leftarrow> read_int s;
     (l, s) \<leftarrow> read_int s;
     (f, s) \<leftarrow> read_int s;
     Some ((name, \<lparr>nd_ip = ip, nd_port = port, nd_active = False, nd_leaders = l, nd_followers = f\<rparr>), s) }"

record map_orders =
  mo_dbs :: "bytes list"
  mo_tables :: "bytes \<Rightarrow> bytes list"
  mo_nodes :: "bytes list"

definition put_meta :: "map_orders \<Rightarrow> meta_server \<Rightarrow> bytes option" where
  "put_meta mo m = do {
     dbs \<leftarrow> put_entries (\<lambda>d. put_db (mo_tables mo (dm_name d)) d) (ms_dbs m) (mo_dbs mo);
     nodes \<leftarrow> put_entries (\<lambda>x. Some (put_node x)) (\<lambda>k. map_option (\<lambda>n. Some (k, n)) (ms_nodes m k)) (mo_nodes mo);
     Some (dec_nat (card (dom (ms_dbs m))) @ 10 # dbs @ dec_nat (card (dom (ms_nodes m))) @ 10 # nodes) }"

text \<open>\<open>>>\<close> reads into a server that may have entries already.\<close>

definition get_meta :: "meta_server \<Rightarrow> bytes \<Rightarrow> (meta_server \<times> bytes) option" where
  "get_meta m s = do {
     (n, s) \<leftarrow> read_size s;
     (dbs, s) \<leftarrow> read_list get_db n s;
     (k, s) \<leftarrow> read_size s;
     (nodes, s) \<leftarrow> read_list get_node k s;
     Some (\<lparr>ms_dbs = fold (\<lambda>d f. f(dm_name d \<mapsto> Some d)) dbs (ms_dbs m),
       ms_nodes = fold (\<lambda>(name, n) f. f(name \<mapsto> n)) nodes (ms_nodes m)\<rparr>, s) }"


text \<open>The directory of the meta server with the file of the metadata.\<close>

record meta_files = meta_dir +
  mf_meta :: "bytes option"

definition close_meta_server :: "map_orders \<Rightarrow> meta_server \<Rightarrow> meta_files \<Rightarrow> ((meta_error + unit) \<times> meta_files) option" where
  "close_meta_server mo m dir =
     (case enter_dir (meta_dir.truncate dir) of
        Inl e \<Rightarrow> Some (Inl e, dir)
      | Inr _ \<Rightarrow> map_option (\<lambda>b. (Inr (), dir\<lparr>mf_meta := Some b\<rparr>)) (put_meta mo m))"

definition open_meta_server :: "meta_files \<Rightarrow> meta_server \<Rightarrow> (meta_error + meta_server) option" where
  "open_meta_server dir m =
     (case enter_dir (meta_dir.truncate dir) of
        Inl e \<Rightarrow> Some (Inl e)
      | Inr _ \<Rightarrow> do { b \<leftarrow> mf_meta dir; (m1, rest) \<leftarrow> get_meta m b; Some (Inr m1) })"

section \<open>Tokens are read back\<close>

lemma byte_of_digit: "n < 10 \<Longrightarrow> is_digit (of_nat (48 + n))" "n < 10 \<Longrightarrow> int (unat (of_nat (48 + n) :: byte)) = 48 + int n"
proof -
  have u: "unat (of_nat (48 + n) :: byte) = 48 + n" if "n < 10" unfolding unat_of_nat using that by (simp add: take_bit_nat_eq_self)
  show "n < 10 \<Longrightarrow> int (unat (of_nat (48 + n) :: byte)) = 48 + int n" by (simp only: u)
  show "n < 10 \<Longrightarrow> is_digit (of_nat (48 + n))" using u by (simp add: is_digit_def word_le_nat_alt)
qed

lemma dec_nat_unfold: "dec_nat n = (if n < 10 then [of_nat (48 + n)] else dec_nat (n div 10) @ [of_nat (48 + n mod 10)])"
proof -
  have c: "of_nat (of_char (char_of (48 + k) :: char) :: nat) = (of_nat (48 + k) :: byte)" if "k < 10" for k :: nat
    using that by (simp add: of_char_of)
  show ?thesis
    unfolding dec_nat_def by (subst dec_string.simps) (simp add: ascii_bytes_def c)
qed

lemma dec_nat_digits: "dec_nat n \<noteq> [] \<and> list_all is_digit (dec_nat n) \<and> digits_value (dec_nat n) = int n"
proof (induction n rule: dec_string.induct)
  case (1 n)
  show ?case
  proof (cases "n < 10")
    case True
    then show ?thesis using byte_of_digit [of n] by (subst (1 2 3) dec_nat_unfold) (simp add: digits_value_def)
  next
    case False
    have m: "n mod 10 < 10" by simp
    have "digits_value (ds @ [d]) = 10 * digits_value ds + (int (unat d) - 48)" for ds d by (simp add: digits_value_def)
    then have "digits_value (dec_nat (n div 10) @ [of_nat (48 + n mod 10)]) = 10 * int (n div 10) + int (n mod 10)"
      using 1 False byte_of_digit(2) [OF m] by simp
    also have "\<dots> = int (10 * (n div 10) + n mod 10)" by (simp only: of_nat_add of_nat_mult of_nat_numeral)
    also have "\<dots> = int n" by simp
    finally show ?thesis using 1 False byte_of_digit(1) [OF m] by (subst (1 2 3) dec_nat_unfold) simp
  qed
qed

lemma digit_char: "is_digit c \<Longrightarrow> \<not> is_space c \<and> c \<noteq> 45 \<and> c \<noteq> 43"
  by (auto simp: is_digit_def is_space_def word_le_nat_alt)

lemma dec_nat_first: "\<exists>d ds. dec_nat n = d # ds \<and> \<not> is_space d \<and> d \<noteq> 45 \<and> d \<noteq> 43"
  using dec_nat_digits [of n] digit_char by (cases "dec_nat n") auto

lemma take_digits:
  assumes "s = [] \<or> \<not> is_digit (hd s)"
  shows "takeWhile is_digit (dec_nat n @ s) = dec_nat n" "dropWhile is_digit (dec_nat n @ s) = s"
  using dec_nat_digits [of n] assms by (cases s; simp add: list_all_iff takeWhile_append2 dropWhile_append2)+

definition not_digit :: "bytes \<Rightarrow> bool" where
  "not_digit s \<longleftrightarrow> s = [] \<or> \<not> is_digit (hd s)"

lemma scan_dec_int:
  assumes "not_digit s" and "- (2 ^ 31) \<le> k" and "k < 2 ^ 31"
  shows "scan_int (dec_int k @ s) = Some (k, s)"
proof (cases "k < 0")
  case True
  have "dropWhile is_space (dec_int k @ s) = dec_int k @ s" using True by (simp add: dec_int_def is_space_def)
  then show ?thesis
    using True assms take_digits [of s "nat (- k)"] dec_nat_digits [of "nat (- k)"]
    by (simp add: scan_int_def Let_def dec_int_def not_digit_def)
next
  case False
  obtain d ds where d: "dec_nat (nat k) = d # ds" "\<not> is_space d" "d \<noteq> 45" "d \<noteq> 43" using dec_nat_first by blast
  then have w: "dropWhile is_space (dec_int k @ s) = dec_int k @ s" using False by (simp add: dec_int_def)
  have "(case dec_int k @ s of c # cs \<Rightarrow> if c = 45 then (True, cs) else if c = 43 then (False, cs) else (False, dec_int k @ s) | [] \<Rightarrow> (False, dec_int k @ s))
      = (False, dec_nat (nat k) @ s)"
    using False d by (simp add: dec_int_def)
  then show ?thesis
    using False assms take_digits [of s "nat k"] dec_nat_digits [of "nat k"] w
    by (simp add: scan_int_def Let_def not_digit_def)
qed

lemma read_put_int [simp]: "not_digit s \<Longrightarrow> read_int (put_int w @ s) = Some (w, s)"
proof -
  have "- (2 ^ 31) \<le> sint w" "sint w < 2 ^ 31" using sint_range_size [of w] by (simp_all add: word_size)
  then show "not_digit s \<Longrightarrow> ?thesis" using scan_dec_int [of s "sint w"] by (simp add: read_int_def put_int_def)
qed

lemma read_size_nat [simp]:
  assumes "not_digit s" and "n < 2 ^ 64"
  shows "read_size (dec_nat n @ s) = Some (n, s)"
proof -
  obtain d ds where d: "dec_nat n = d # ds" "\<not> is_space d" "d \<noteq> 45" "d \<noteq> 43" using dec_nat_first by blast
  then have w: "dropWhile is_space (dec_nat n @ s) = dec_nat n @ s" by simp
  have c: "(case dec_nat n @ s of c # cs \<Rightarrow> if c = 45 then (True, cs) else if c = 43 then (False, cs) else (False, dec_nat n @ s) | [] \<Rightarrow> (False, dec_nat n @ s))
      = (False, dec_nat n @ s)" using d by simp
  have "int n < 2 ^ 64" using assms(2) by (metis of_nat_less_iff of_nat_numeral of_nat_power)
  then show ?thesis
    using assms(1) take_digits [of s n] dec_nat_digits [of n] by (simp add: read_size_def Let_def w c not_digit_def)
qed

definition token :: "bytes \<Rightarrow> bool" where
  "token t \<longleftrightarrow> t \<noteq> [] \<and> list_all (\<lambda>c. \<not> is_space c) t"

lemma read_put_token [simp]:
  assumes "token t" and "is_space c"
  shows "read_token (t @ c # s) = Some (t, c # s)"
proof -
  have all: "\<forall>x \<in> set t. \<not> is_space x" "t \<noteq> []" using assms(1) by (simp_all add: token_def list_all_iff)
  then have "dropWhile is_space (t @ c # s) = t @ c # s" by (cases t) simp_all
  moreover have "takeWhile (\<lambda>c. \<not> is_space c) (t @ c # s) = t" "dropWhile (\<lambda>c. \<not> is_space c) (t @ c # s) = c # s"
    using all assms(2) by (simp_all add: takeWhile_append2 dropWhile_append2)
  ultimately show ?thesis using all by (simp add: read_token_def Let_def)
qed

lemma skip_space [simp]:
  "is_space c \<Longrightarrow> read_token (c # s) = read_token s"
  "is_space c \<Longrightarrow> read_int (c # s) = read_int s"
  "is_space c \<Longrightarrow> read_size (c # s) = read_size s"
  "is_space c \<Longrightarrow> read_enum code vals (c # s) = read_enum code vals s"
  by (simp_all add: read_token_def read_int_def scan_int_def read_size_def read_enum_def)

lemma spaces [simp]: "is_space 32" "is_space 10" "not_digit (32 # s)" "not_digit (10 # s)"
  by (simp_all add: is_space_def not_digit_def is_digit_def)

lemma read_roles [simp]: "not_digit s \<Longrightarrow> read_enum role_code [INVALID_ROLE, Leader, Follower] (put_int (role_code r) @ s) = Some (r, s)"
  by (cases r) (simp_all add: read_enum_def)

lemma read_ptypes [simp]:
  "not_digit s \<Longrightarrow> read_enum ptype_code [NONE_PARTITION, RANGE_PARTITION, HASH_PARTITION] (put_int (ptype_code r) @ s) = Some (r, s)"
  by (cases r) (simp_all add: read_enum_def)

lemma read_duplicates [simp]:
  "not_digit s \<Longrightarrow> read_enum duplicate_code [NOT_DUPLICATE, DUPLICATE] (put_int (duplicate_code r) @ s) = Some (r, s)"
  by (cases r) (simp_all add: read_enum_def)


section \<open>Codecs\<close>

text \<open>A reader gives back what its writer wrote, up to white space in front of the rest, and passes over white space.\<close>

definition blank :: "bytes \<Rightarrow> bool" where
  "blank ws \<longleftrightarrow> list_all is_space ws"

locale codec =
  fixes put :: "'a \<Rightarrow> bytes" and get :: "bytes \<Rightarrow> ('a \<times> bytes) option" and good :: "'a \<Rightarrow> bool"
  assumes reads: "good x \<Longrightarrow> \<exists>ws. blank ws \<and> get (put x @ s) = Some (x, ws @ s)"
    and skip: "is_space c \<Longrightarrow> get (c # s) = get s"
begin

lemma skips: "blank ws \<Longrightarrow> get (ws @ s) = get s"
  by (induction ws) (simp_all add: blank_def skip)

lemma reads_blank: "good x \<Longrightarrow> blank ws \<Longrightarrow> \<exists>ws1. blank ws1 \<and> get (ws @ put x @ s) = Some (x, ws1 @ s)"
  using reads [of x s] by (simp add: skips)

lemma reads_list:
  "list_all good xs \<Longrightarrow> blank ws \<Longrightarrow> \<exists>ws1. blank ws1 \<and> read_list get (length xs) (ws @ concat (map put xs) @ s) = Some (xs, ws1 @ s)"
proof (induction xs arbitrary: ws)
  case (Cons x xs)
  obtain ws1 where w1: "blank ws1" "get (ws @ put x @ concat (map put xs) @ s) = Some (x, ws1 @ concat (map put xs) @ s)"
    using reads_blank Cons.prems by force
  obtain ws2 where "blank ws2" "read_list get (length xs) (ws1 @ concat (map put xs) @ s) = Some (xs, ws2 @ s)"
    using Cons.IH [OF _ w1(1)] Cons.prems(1) by auto
  with w1 show ?case by auto
qed simp

text \<open>A line end after each value.\<close>

lemma newline: "codec (\<lambda>x. put x @ [10]) get good"
proof
  fix x s assume "good x"
  from reads [OF this, of "10 # s"] obtain ws where "blank ws" "get (put x @ 10 # s) = Some (x, (ws @ [10]) @ s)" by auto
  then show "\<exists>ws. blank ws \<and> get ((put x @ [10]) @ s) = Some (x, ws @ s)"
    by (intro exI [of _ "ws @ [10]"]) (simp add: blank_def is_space_def)
qed (rule skip)

end

lemma blank_one [simp]: "blank []" "blank [10]" "blank (10 # ws) = blank ws"
  by (simp_all add: blank_def)

lemma leaves_newline: "rd s0 = Some (x, 10 # s) \<Longrightarrow> \<exists>ws. blank ws \<and> rd s0 = Some (x, ws @ s)"
  by (rule exI [of _ "[10]"]) simp

interpretation column: codec put_col get_col "token \<circ> fst"
  by unfold_locales (auto simp: put_col_def get_col_def intro!: leaves_newline)

definition good_par :: "par_meta \<Rightarrow> bool" where
  "good_par p \<longleftrightarrow> token (pm_name p) \<and> token (pm_min p) \<and> token (pm_max p)"

interpretation par: codec put_par get_par good_par
  by unfold_locales (auto simp: put_par_def get_par_def good_par_def intro!: leaves_newline)

interpretation replica: codec put_replica get_replica "token \<circ> rl_ip"
  by unfold_locales (auto simp: put_replica_def get_replica_def intro!: leaves_newline)

definition good_phy :: "phy_partition \<Rightarrow> bool" where
  "good_phy p \<longleftrightarrow> list_all (token \<circ> rl_ip) (pp_replicas p) \<and> length (pp_replicas p) < 2 ^ 64"

interpretation phy: codec put_phy get_phy good_phy
proof
  fix p s assume g: "good_phy p"
  then obtain ws where "blank ws" "read_list get_replica (length (pp_replicas p)) ([10] @ concat (map put_replica (pp_replicas p)) @ s) = Some (pp_replicas p, ws @ s)"
    using replica.reads_list [of "pp_replicas p" "[10]" s] by (auto simp: good_phy_def)
  then show "\<exists>ws. blank ws \<and> get_phy (put_phy p @ s) = Some (p, ws @ s)"
    using g by (auto simp: put_phy_def get_phy_def good_phy_def)
qed (simp add: get_phy_def)

definition good_location :: "phy_table \<Rightarrow> bool" where
  "good_location l \<longleftrightarrow> list_all good_phy (pt_partitions l) \<and> length (pt_partitions l) < 2 ^ 64"

interpretation location: codec put_location get_location good_location
proof
  fix l s assume g: "good_location l"
  then obtain ws where "blank ws" "read_list get_phy (length (pt_partitions l)) ([10] @ concat (map put_phy (pt_partitions l)) @ s) = Some (pt_partitions l, ws @ s)"
    using phy.reads_list [of "pt_partitions l" "[10]" s] by (auto simp: good_location_def)
  then show "\<exists>ws. blank ws \<and> get_location (put_location l @ s) = Some (l, ws @ s)"
    using g by (auto simp: put_location_def get_location_def good_location_def)
qed (simp add: get_location_def)


section \<open>Tables and databases\<close>

definition good_cols :: "column_info \<Rightarrow> bool" where
  "good_cols c \<longleftrightarrow> length (ci_names c) = length (ci_types c) \<and> ci_names c \<noteq> [] \<and> list_all token (ci_names c) \<and>
     \<not> is_digit (hd (hd (ci_names c))) \<and> length (ci_names c) < 2 ^ 31"

lemma read_int_nat: "not_digit s \<Longrightarrow> n < 2 ^ 31 \<Longrightarrow> read_int (dec_nat n @ s) = Some (of_nat n, s)"
proof -
  assume s: "not_digit s" and n: "n < 2 ^ 31"
  then have "int n < 2 ^ 31" by (metis of_nat_less_iff of_nat_numeral of_nat_power)
  then have "scan_int (dec_int (int n) @ s) = Some (int n, s)" using s by (intro scan_dec_int) simp_all
  then show ?thesis by (simp add: read_int_def dec_int_def)
qed

interpretation cols: codec "\<lambda>c. the (put_cols c)" get_cols good_cols
proof
  fix c s assume g: "good_cols c"
  let ?n = "length (ci_names c)" and ?cs = "zip (ci_names c) (ci_types c)"
  have len: "length ?cs = ?n" using g by (simp add: good_cols_def)
  have tok: "list_all (token \<circ> fst) ?cs" using g by (auto simp: good_cols_def list_all_iff dest: set_zip_leftD)
  obtain ws where ws: "blank ws" "read_list get_col ?n (concat (map put_col ?cs) @ s) = Some (?cs, ws @ s)"
    using column.reads_list [OF tok, of "[]" s] len by auto
  obtain n0 ns t0 ts where first: "ci_names c = n0 # ns" "ci_types c = t0 # ts" "n0 \<noteq> []"
    using g by (cases "ci_names c"; cases "ci_types c") (auto simp: good_cols_def token_def)
  then have nd: "not_digit (concat (map put_col ?cs) @ s)"
    using g by (cases n0) (simp_all add: not_digit_def put_col_def good_cols_def)
  have nat: "nat (sint (of_nat ?n :: int32)) = ?n"
  proof -
    have n: "?n < 2 ^ 31" using g by (simp add: good_cols_def)
    then have "sint (of_nat ?n :: int32) = int ?n"
      by (subst signed_of_nat [where 'a = int and 'b = 32]) (simp add: signed_take_bit_int_eq_self)
    then show ?thesis by simp
  qed
  have "get_cols (the (put_cols c) @ s) = Some (c, ws @ s)"
    using g ws(2) read_int_nat [OF nd, of ?n] nat by (simp add: put_cols_def get_cols_def good_cols_def)
  with ws(1) show "\<exists>ws. blank ws \<and> get_cols (the (put_cols c) @ s) = Some (c, ws @ s)" by blast
qed (simp add: get_cols_def)

definition good_tab :: "tab_meta \<Rightarrow> bool" where
  "good_tab t \<longleftrightarrow> token (tm_name t) \<and> token (tm_key_name t) \<and> good_cols (tm_cols t) \<and> list_all good_par (tm_partitions t) \<and>
     length (tm_partitions t) < 2 ^ 64 \<and> good_location (tm_location t)"

lemma good_tab_put: "good_tab t \<Longrightarrow> put_tab t \<noteq> None"
  by (simp add: good_tab_def good_cols_def put_tab_def put_cols_def)

interpretation tab: codec "\<lambda>t. the (put_tab t)" get_tab good_tab
proof
  fix t s assume g: "good_tab t"
  let ?ps = "tm_partitions t"
  have gt: "good_cols (tm_cols t)" "list_all good_par ?ps" "good_location (tm_location t)" using g by (simp_all add: good_tab_def)
  obtain pc where c: "put_cols (tm_cols t) = Some pc" using gt(1) by (simp add: good_cols_def put_cols_def)
  obtain w1 where w1: "blank w1" "get_cols (10 # pc @ concat (map put_par ?ps) @ put_location (tm_location t) @ s) =
      Some (tm_cols t, w1 @ concat (map put_par ?ps) @ put_location (tm_location t) @ s)"
    using cols.reads_blank [OF gt(1), of "[10]" "concat (map put_par ?ps) @ put_location (tm_location t) @ s"] by (auto simp: c)
  obtain w2 where w2: "blank w2" "read_list get_par (length ?ps) (w1 @ concat (map put_par ?ps) @ put_location (tm_location t) @ s) =
      Some (?ps, w2 @ put_location (tm_location t) @ s)"
    using par.reads_list [OF gt(2) w1(1), of "put_location (tm_location t) @ s"] by blast
  obtain w3 where w3: "blank w3" "get_location (w2 @ put_location (tm_location t) @ s) = Some (tm_location t, w3 @ s)"
    using location.reads_blank [OF gt(3) w2(1), of s] by blast
  have "get_tab (the (put_tab t) @ s) = Some (t, w3 @ s)"
    using g w1(2) w2(2) w3(2) by (simp add: put_tab_def c get_tab_def good_tab_def)
  with w3(1) show "\<exists>ws. blank ws \<and> get_tab (the (put_tab t) @ s) = Some (t, ws @ s)" by blast
qed (simp add: get_tab_def)

text \<open>Maps that are written in the order of a list of all their keys.\<close>

definition entries :: "('k \<rightharpoonup> 'a option) \<Rightarrow> 'k list \<Rightarrow> 'a list" where
  "entries mp ks = map (\<lambda>k. the (the (mp k))) ks"

lemma put_entries_all:
  assumes "\<forall>k \<in> set ks. \<exists>x. mp k = Some (Some x) \<and> put x \<noteq> None"
  shows "put_entries put mp ks = Some (concat (map (\<lambda>x. the (put x) @ [10]) (entries mp ks)))"
  using assms by (induction ks) (auto simp: entries_def)

lemma fold_map_upd:
  assumes "\<forall>x \<in> set xs. mp (key x) = Some (val x)"
  shows "fold (\<lambda>x f. f(key x \<mapsto> val x)) xs f = (\<lambda>k. if k \<in> key ` set xs then mp k else f k)"
  using assms by (induction xs arbitrary: f) (auto simp: fun_eq_iff)

definition good_db :: "bytes list \<Rightarrow> db_meta \<Rightarrow> bool" where
  "good_db order d \<longleftrightarrow> token (dm_name d) \<and> set order = dom (dm_tables d) \<and> distinct order \<and> length order < 2 ^ 64 \<and>
     list_all (\<lambda>k. case dm_tables d k of Some (Some t) \<Rightarrow> tm_name t = k \<and> good_tab t | _ \<Rightarrow> False) order"

lemma good_db_tables:
  assumes "good_db order d"
  shows "\<forall>k \<in> set order. \<exists>t. dm_tables d k = Some (Some t) \<and> put_tab t \<noteq> None" "list_all good_tab (entries (dm_tables d) order)"
    "card (dom (dm_tables d)) = length order" "put_db order d \<noteq> None"
    "fold (\<lambda>t m. m(tm_name t \<mapsto> Some t)) (entries (dm_tables d) order) Map.empty = dm_tables d"
proof -
  have e: "\<exists>t. dm_tables d k = Some (Some t) \<and> tm_name t = k \<and> good_tab t" if "k \<in> set order" for k
  proof -
    have "case dm_tables d k of Some (Some t) \<Rightarrow> tm_name t = k \<and> good_tab t | _ \<Rightarrow> False"
      using assms that by (simp add: good_db_def list_all_iff)
    then show ?thesis by (cases "dm_tables d k"; cases "the (dm_tables d k)") simp_all
  qed
  show all: "\<forall>k \<in> set order. \<exists>t. dm_tables d k = Some (Some t) \<and> put_tab t \<noteq> None" using e good_tab_put by blast
  have the: "\<exists>t. the (the (dm_tables d k)) = t \<and> dm_tables d k = Some (Some t) \<and> tm_name t = k \<and> good_tab t" if "k \<in> set order" for k
    using e [OF that] by auto
  show "list_all good_tab (entries (dm_tables d) order)" using the unfolding entries_def list_all_iff by auto
  have "set order = dom (dm_tables d)" "distinct order" using assms by (simp_all add: good_db_def)
  then show "card (dom (dm_tables d)) = length order" using distinct_card by metis
  show "put_db order d \<noteq> None" by (simp add: put_db_def put_entries_all [OF all])
  have m: "\<forall>t \<in> set (entries (dm_tables d) order). dm_tables d (tm_name t) = Some (Some t)" using the unfolding entries_def by auto
  have "tm_name (the (the (dm_tables d k))) = k" if "k \<in> set order" for k using the [OF that] by auto
  then have "tm_name ` set (entries (dm_tables d) order) = set order" by (auto simp: entries_def image_iff)
  then have n: "tm_name ` set (entries (dm_tables d) order) = dom (dm_tables d)" using assms by (simp add: good_db_def)
  show "fold (\<lambda>t m. m(tm_name t \<mapsto> Some t)) (entries (dm_tables d) order) Map.empty = dm_tables d"
    unfolding fold_map_upd [where key = tm_name and val = Some and mp = "dm_tables d", OF m] n by (auto simp: fun_eq_iff dom_def)
qed


lemma db_codec: "codec (\<lambda>d. the (put_db (ord (dm_name d)) d)) get_db (\<lambda>d. good_db (ord (dm_name d)) d)"
proof
  fix d s assume g: "good_db (ord (dm_name d)) d"
  let ?o = "ord (dm_name d)" and ?b = "concat (map (\<lambda>t. the (put_tab t) @ [10]) (entries (dm_tables d) (ord (dm_name d))))"
  note t = good_db_tables [OF g]
  have n: "length (entries (dm_tables d) ?o) = length ?o" by (simp add: entries_def)
  obtain ws where ws: "blank ws" "read_list get_tab (length ?o) ([10] @ ?b @ s) = Some (entries (dm_tables d) ?o, ws @ s)"
    using codec.reads_list [OF tab.newline t(2), of "[10]" s] unfolding n by auto
  have "put_db ?o d = Some (put_int (dm_next_oid d) @ 32 # dm_name d @ 32 # dec_nat (length ?o) @ 10 # ?b)"
    using put_entries_all [OF t(1)] t(3) by (simp add: put_db_def)
  then have "get_db (the (put_db ?o d) @ s) = Some (d, ws @ s)"
    using g ws(2) t(5) by (simp add: get_db_def good_db_def)
  with ws(1) show "\<exists>ws. blank ws \<and> get_db (the (put_db ?o d) @ s) = Some (d, ws @ s)" by blast
qed (simp add: get_db_def)

section \<open>The whole file\<close>

definition good_node :: "bytes \<times> node \<Rightarrow> bool" where
  "good_node x \<longleftrightarrow> token (fst x) \<and> token (nd_ip (snd x)) \<and> \<not> nd_active (snd x)"

interpretation node: codec put_node get_node good_node
  by unfold_locales (auto simp: put_node_def get_node_def good_node_def intro!: leaves_newline)

definition deactivate :: "node \<Rightarrow> node" where
  "deactivate n = n\<lparr>nd_active := False\<rparr>"

text \<open>What can be saved and read back: all pointers lead to a database or table of that name, names are tokens, and a table has
  columns, the name of the first of which does not begin with a digit.\<close>

definition good_meta :: "map_orders \<Rightarrow> meta_server \<Rightarrow> bool" where
  "good_meta mo m \<longleftrightarrow>
     set (mo_dbs mo) = dom (ms_dbs m) \<and> distinct (mo_dbs mo) \<and> length (mo_dbs mo) < 2 ^ 64 \<and>
     list_all (\<lambda>k. case ms_dbs m k of Some (Some d) \<Rightarrow> dm_name d = k \<and> good_db (mo_tables mo k) d | _ \<Rightarrow> False) (mo_dbs mo) \<and>
     set (mo_nodes mo) = dom (ms_nodes m) \<and> distinct (mo_nodes mo) \<and> length (mo_nodes mo) < 2 ^ 64 \<and>
     list_all (\<lambda>k. case ms_nodes m k of Some n \<Rightarrow> token k \<and> token (nd_ip n) | None \<Rightarrow> False) (mo_nodes mo)"

lemma good_meta_dbs:
  assumes "good_meta mo m"
  shows "put_entries (\<lambda>d. put_db (mo_tables mo (dm_name d)) d) (ms_dbs m) (mo_dbs mo) =
      Some (concat (map (\<lambda>d. the (put_db (mo_tables mo (dm_name d)) d) @ [10]) (entries (ms_dbs m) (mo_dbs mo))))"
    and "list_all (\<lambda>d. good_db (mo_tables mo (dm_name d)) d) (entries (ms_dbs m) (mo_dbs mo))"
    and "card (dom (ms_dbs m)) = length (mo_dbs mo)"
    and "fold (\<lambda>d f. f(dm_name d \<mapsto> Some d)) (entries (ms_dbs m) (mo_dbs mo)) Map.empty = ms_dbs m"
proof -
  have e: "\<exists>d. the (the (ms_dbs m k)) = d \<and> ms_dbs m k = Some (Some d) \<and> dm_name d = k \<and> good_db (mo_tables mo k) d"
    if "k \<in> set (mo_dbs mo)" for k
  proof -
    have "case ms_dbs m k of Some (Some d) \<Rightarrow> dm_name d = k \<and> good_db (mo_tables mo k) d | _ \<Rightarrow> False"
      using assms that unfolding good_meta_def list_all_iff by blast
    then show ?thesis by (cases "ms_dbs m k"; cases "the (ms_dbs m k)") simp_all
  qed
  show "put_entries (\<lambda>d. put_db (mo_tables mo (dm_name d)) d) (ms_dbs m) (mo_dbs mo) =
      Some (concat (map (\<lambda>d. the (put_db (mo_tables mo (dm_name d)) d) @ [10]) (entries (ms_dbs m) (mo_dbs mo))))"
    by (rule put_entries_all) (use e good_db_tables(4) in fastforce)
  show "list_all (\<lambda>d. good_db (mo_tables mo (dm_name d)) d) (entries (ms_dbs m) (mo_dbs mo))"
    using e unfolding entries_def list_all_iff by auto
  have s: "set (mo_dbs mo) = dom (ms_dbs m)" "distinct (mo_dbs mo)" using assms by (simp_all add: good_meta_def)
  then show "card (dom (ms_dbs m)) = length (mo_dbs mo)" using distinct_card by metis
  have up: "\<forall>d \<in> set (entries (ms_dbs m) (mo_dbs mo)). ms_dbs m (dm_name d) = Some (Some d)" using e unfolding entries_def by auto
  have "dm_name (the (the (ms_dbs m k))) = k" if "k \<in> set (mo_dbs mo)" for k using e [OF that] by auto
  then have "dm_name ` set (entries (ms_dbs m) (mo_dbs mo)) = set (mo_dbs mo)" by (auto simp: entries_def image_iff)
  then have n: "dm_name ` set (entries (ms_dbs m) (mo_dbs mo)) = dom (ms_dbs m)" using s(1) by simp
  show "fold (\<lambda>d f. f(dm_name d \<mapsto> Some d)) (entries (ms_dbs m) (mo_dbs mo)) Map.empty = ms_dbs m"
    unfolding fold_map_upd [where key = dm_name and val = Some and mp = "ms_dbs m", OF up] n by (auto simp: fun_eq_iff dom_def)
qed

lemma put_node_active: "put_node (k, deactivate n) = put_node (k, n)"
  by (simp add: put_node_def deactivate_def)

lemma good_meta_nodes:
  assumes "good_meta mo m"
  defines "ns \<equiv> map (\<lambda>k. (k, deactivate (the (ms_nodes m k)))) (mo_nodes mo)"
  shows "put_entries (\<lambda>x. Some (put_node x)) (\<lambda>k. map_option (\<lambda>n. Some (k, n)) (ms_nodes m k)) (mo_nodes mo) =
      Some (concat (map (\<lambda>x. put_node x @ [10]) ns))"
    and "list_all good_node ns" and "card (dom (ms_nodes m)) = length (mo_nodes mo)"
    and "fold (\<lambda>(name, n) f. f(name \<mapsto> n)) ns Map.empty = map_option deactivate \<circ> ms_nodes m"
proof -
  have e: "\<exists>n. ms_nodes m k = Some n \<and> token k \<and> token (nd_ip n)" if "k \<in> set (mo_nodes mo)" for k
  proof -
    have "case ms_nodes m k of Some n \<Rightarrow> token k \<and> token (nd_ip n) | None \<Rightarrow> False"
      using assms(1) that unfolding good_meta_def list_all_iff by blast
    then show ?thesis by (cases "ms_nodes m k") simp_all
  qed
  have "put_entries (\<lambda>x. Some (put_node x)) (\<lambda>k. map_option (\<lambda>n. Some (k, n)) (ms_nodes m k)) ks =
      Some (concat (map (\<lambda>k. put_node (k, deactivate (the (ms_nodes m k))) @ [10]) ks))" if "set ks \<subseteq> set (mo_nodes mo)" for ks
    using that e by (induction ks) (fastforce simp: put_node_active)+
  then show "put_entries (\<lambda>x. Some (put_node x)) (\<lambda>k. map_option (\<lambda>n. Some (k, n)) (ms_nodes m k)) (mo_nodes mo) =
      Some (concat (map (\<lambda>x. put_node x @ [10]) ns))" by (simp add: ns_def comp_def)
  show "list_all good_node ns" using e by (fastforce simp: ns_def list_all_iff good_node_def deactivate_def)
  have s: "set (mo_nodes mo) = dom (ms_nodes m)" "distinct (mo_nodes mo)" using assms(1) by (simp_all add: good_meta_def)
  then show "card (dom (ms_nodes m)) = length (mo_nodes mo)" using distinct_card by metis
  have "fold (\<lambda>(name, n) f. f(name \<mapsto> n)) (map (\<lambda>k. (k, deactivate (the (ms_nodes m k)))) ks) f =
      (\<lambda>k. if k \<in> set ks then Some (deactivate (the (ms_nodes m k))) else f k)" for ks f
    by (induction ks arbitrary: f) (auto simp: fun_eq_iff)
  then show "fold (\<lambda>(name, n) f. f(name \<mapsto> n)) ns Map.empty = map_option deactivate \<circ> ms_nodes m"
    using s(1) by (auto simp: ns_def fun_eq_iff dom_def)
qed

lemma get_put_meta:
  assumes "good_meta mo m"
  shows "\<exists>b rest. put_meta mo m = Some b \<and> get_meta meta_server_new b = Some (m\<lparr>ms_nodes := map_option deactivate \<circ> ms_nodes m\<rparr>, rest)"
proof -
  note d = good_meta_dbs [OF assms] and n = good_meta_nodes [OF assms]
  let ?dbs = "entries (ms_dbs m) (mo_dbs mo)" and ?ns = "map (\<lambda>k. (k, deactivate (the (ms_nodes m k)))) (mo_nodes mo)"
  let ?db = "concat (map (\<lambda>d. the (put_db (mo_tables mo (dm_name d)) d) @ [10]) ?dbs)" and ?nb = "concat (map (\<lambda>x. put_node x @ [10]) ?ns)"
  have put: "put_meta mo m = Some (dec_nat (length (mo_dbs mo)) @ 10 # ?db @ dec_nat (length (mo_nodes mo)) @ 10 # ?nb)"
    unfolding put_meta_def d(1,3) n(1,3) by simp
  have l: "length (mo_dbs mo) < 2 ^ 64" "length (mo_nodes mo) < 2 ^ 64" "length ?dbs = length (mo_dbs mo)" "length ?ns = length (mo_nodes mo)"
    using assms by (simp_all add: good_meta_def entries_def)
  obtain w1 where w1: "blank w1" "read_list get_db (length (mo_dbs mo)) ([10] @ ?db @ dec_nat (length (mo_nodes mo)) @ 10 # ?nb) =
      Some (?dbs, w1 @ dec_nat (length (mo_nodes mo)) @ 10 # ?nb)"
    using codec.reads_list [OF codec.newline [OF db_codec] d(2), of "[10]" "dec_nat (length (mo_nodes mo)) @ 10 # ?nb"] unfolding l(3)
    by auto
  have sk: "read_size (w1 @ dec_nat (length (mo_nodes mo)) @ 10 # ?nb) = Some (length (mo_nodes mo), 10 # ?nb)"
  proof -
    have "blank ws \<Longrightarrow> read_size (ws @ s) = read_size s" for ws s by (induction ws) (simp_all add: blank_def)
    then show ?thesis using w1(1) l(2) by simp
  qed
  obtain w2 where w2: "read_list get_node (length (mo_nodes mo)) ([10] @ ?nb) = Some (?ns, w2)"
    using codec.reads_list [OF node.newline n(2), of "[10]" "[]"] unfolding l(4) by auto
  have "get_meta meta_server_new (dec_nat (length (mo_dbs mo)) @ 10 # ?db @ dec_nat (length (mo_nodes mo)) @ 10 # ?nb) =
      Some (m\<lparr>ms_nodes := map_option deactivate \<circ> ms_nodes m\<rparr>, w2)"
    using l(1) w1(2) sk w2 d(4) n(4) by (simp add: get_meta_def meta_server_new_def)
  with put show ?thesis by blast
qed

section \<open>Property\<close>



definition demo_orders :: map_orders where
  "demo_orders = \<lparr>mo_dbs = [[1]], mo_tables = \<lambda>_. [[2]], mo_nodes = [[70], [71]]\<rparr>"


text \<open>The table of a \<open>CreateTable\<close>, with its empty key name, cannot be read back: the reader takes the type of the key for its
  name, and at last the name of the first column for the number of columns.\<close>

lemma plain_table_unreadable:
  assumes "put_tab t = Some b" and "tm_key_name t = []" and "token (tm_name t)" and "good_cols (tm_cols t)"
    and "hd (hd (ci_names (tm_cols t))) \<notin> {43, 45}" and "tm_partitions t = []"
  shows "get_tab (b @ s) = None"
proof -
  obtain pc where c: "put_cols (tm_cols t) = Some pc" using assms(4) by (simp add: good_cols_def put_cols_def)
  let ?c = "tm_cols t"
  let ?n = "length (ci_names ?c)"
  obtain x xs ns t0 ts where first: "ci_names ?c = (x # xs) # ns" "ci_types ?c = t0 # ts"
    using assms(4) by (cases "ci_names ?c"; cases "ci_types ?c"; cases "hd (ci_names ?c)") (auto simp: good_cols_def token_def)
  have x: "\<not> is_digit x" "\<not> is_space x" "x \<noteq> 43" "x \<noteq> 45"
    using assms(4,5) by (simp_all add: good_cols_def token_def first)
  have tk: "token (put_int (tm_key_type t))"
  proof -
    have "token (dec_nat k)" "token (45 # dec_nat k)" for k
      using dec_nat_digits [of k] digit_char by (auto simp: token_def list_all_iff is_space_def)
    then show ?thesis by (simp add: put_int_def dec_int_def)
  qed
  have z: "read_int (dec_nat 0 @ 10 # s) = Some (0, 10 # s)" for s using read_int_nat [of "10 # s" 0] by simp
  let ?rest = "xs @ 32 # put_int t0 @ 10 # concat (map put_col (zip ns ts)) @ put_location (tm_location t) @ s"
  have nz: "read_size (dec_nat ?n @ x # ?rest) = Some (?n, x # ?rest)"
    by (rule read_size_nat) (use x assms(4) in \<open>simp_all add: not_digit_def good_cols_def\<close>)
  have pc: "pc @ put_location (tm_location t) @ s = dec_nat ?n @ x # ?rest"
    using c assms(4) by (auto simp: put_cols_def good_cols_def first put_col_def)
  have bad: "get_cols (x # ?rest) = None"
    using x by (simp add: get_cols_def read_int_def scan_int_def)
  have "b = put_int (tm_oid t) @ 32 # tm_name t @ 32 # put_int (ptype_code (tm_ptype t)) @ 32 # 32 #
      put_int (tm_key_type t) @ 32 # put_int (tm_count t) @ 32 # dec_nat 0 @ 10 # pc @ put_location (tm_location t)"
    using assms(1,2,6) by (simp add: put_tab_def c)
  then show ?thesis using assms(3) tk z nz bad by (simp add: get_tab_def pc)
qed

end
