(* ===== verification/QueryPlans.thy ===== *)
theory QueryPlans
  imports MetaServer
begin

text \<open>
  The operators of a distributed query plan (\<open>execution/planner.h\<close>) on the expressions of
  \<open>execution/ast.h\<close>. An operator is a tree of pointers to operators; a null pointer is \<open>None\<close>, and so is the result
  when code follows one, reads behind the end of a vector, or lets \<open>atoi\<close> overflow. Rows are
  lists of values: the code shares them by pointers, but never changes one. \<open>send_plan\<close> is only declared in the
  repository, so it is an argument.
\<close>

section \<open>Expressions\<close>

datatype sv_comp_op = SV_OP_EQ | SV_OP_NE | SV_OP_LT | SV_OP_GT | SV_OP_LE | SV_OP_GE

record ast_col =
  col_tab :: bytes
  col_name :: bytes

text \<open>A float literal is kept as the bits of its value.\<close>

datatype ast_expr = IntLit int32 | FloatLit "32 word" | StringLit bytes | Col ast_col

record binary_expr =
  be_lhs :: ast_col
  be_op :: sv_comp_op
  be_rhs :: ast_expr

section \<open>Rows\<close>

datatype value_type = Integer_value | Character_value

record plan_value =
  v_type :: value_type
  v_col :: bytes
  v_tab :: bytes
  v_str :: bytes
  v_len :: int32

type_synonym row = "plan_value list"

text \<open>\<open>KV\<close>: a vector of records; \<open>Key_range\<close> is always 0 and 1.\<close>

type_synonym kv_rows = "row list"

definition key_range :: "nat list" where
  "key_range = [0, 1]"

definition kv_rows_get :: "nat \<Rightarrow> kv_rows \<Rightarrow> row option" where
  "kv_rows_get key kv = (if key < length kv then Some (kv ! key) else None)"

section \<open>Operators\<close>

datatype operator =
    Op_executor "operator option"
  | Op_projection "ast_col list" "operator option"
  | Op_selection binary_expr "operator option"
  | Op_distribution "operator option list" "bytes list"
  | Op_join "operator option list"
  | Op_tablescan bytes bytes int32 "kv_rows option"

text \<open>\<open>op_projection\<close>: a value goes into the new row once for each column of its name; the table is not compared.\<close>

definition project_row :: "ast_col list \<Rightarrow> row \<Rightarrow> row" where
  "project_row cols r = concat (map (\<lambda>v. map (\<lambda>_. v) (filter (\<lambda>c. v_col v = col_name c) cols)) r)"

text \<open>\<open>op_selection\<close>: the index of the last value of the first row that belongs to the column, or 0.\<close>

fun find_index :: "ast_col \<Rightarrow> row \<Rightarrow> nat \<Rightarrow> nat \<Rightarrow> nat" where
  "find_index c [] i res = res"
| "find_index c (v # r) i res = find_index c r (Suc i) (if v_tab v = col_tab c \<and> v_col v = col_name c then i else res)"

definition str_at :: "nat \<Rightarrow> row \<Rightarrow> bytes option" where
  "str_at i r = (if i < length r then Some (v_str (r ! i)) else None)"

fun select_rows :: "(row \<Rightarrow> bool option) \<Rightarrow> row list \<Rightarrow> row list option" where
  "select_rows p [] = Some []"
| "select_rows p (r # rs) = do {
     b \<leftarrow> p r;
     res \<leftarrow> select_rows p rs;
     Some (if b then r # res else res) }"

text \<open>\<open>atoi\<close> of a string: 0 without digits; the value out of the range of \<open>int\<close> is undefined.\<close>

definition atoi :: "bytes \<Rightarrow> int32 option" where
  "atoi s =
     (let s1 = dropWhile is_space s;
          (neg, s2) = (case s1 of c # cs \<Rightarrow> if c = 45 then (True, cs) else if c = 43 then (False, cs) else (False, s1) | [] \<Rightarrow> (False, s1));
          n = digits_value (takeWhile is_digit s2);
          k = (if neg then - n else n)
      in if - (2 ^ 31) \<le> k \<and> k < 2 ^ 31 then Some (word_of_int k) else None)"

text \<open>The comparison operator of the condition is not looked at. A condition whose right side is neither a column nor
  an integer selects nothing.\<close>

definition select_exec :: "binary_expr \<Rightarrow> row list \<Rightarrow> row list option" where
  "select_exec c ret =
     (case be_rhs c of
        Col x \<Rightarrow>
          (case ret of
             [] \<Rightarrow> None
           | r0 # _ \<Rightarrow>
               (let lf = find_index (be_lhs c) r0 0 0; rg = find_index x r0 0 0 in
                select_rows (\<lambda>r. do { a \<leftarrow> str_at lf r; b \<leftarrow> str_at rg r; Some (a = b) }) ret))
      | IntLit n \<Rightarrow>
          (case ret of
             [] \<Rightarrow> None
           | r0 # _ \<Rightarrow>
               (let lf = find_index (be_lhs c) r0 0 0 in
                select_rows (\<lambda>r. do { a \<leftarrow> str_at lf r; k \<leftarrow> atoi a; Some (k = n) }) ret))
      | _ \<Rightarrow> Some [])"

text \<open>\<open>op_join\<close>: the vector \<open>tmp\<close> is not cleared between the tables.\<close>

definition join_rows :: "row list \<Rightarrow> row list \<Rightarrow> row list" where
  "join_rows res tab = concat (map (\<lambda>r. map (\<lambda>s. r @ s) tab) res)"

fun join_loop :: "row list \<Rightarrow> row list \<Rightarrow> row list list \<Rightarrow> row list" where
  "join_loop tmp res [] = res"
| "join_loop tmp res (tab # tabs) = (let tmp1 = tmp @ join_rows res tab in join_loop tmp1 tmp1 tabs)"

definition join_exec :: "row list list \<Rightarrow> row list option" where
  "join_exec ret = (case ret of [] \<Rightarrow> None | res # tabs \<Rightarrow> Some (join_loop [] res tabs))"

text \<open>\<open>op_tablescan\<close>\<close>

fun scan_keys :: "kv_rows \<Rightarrow> nat list \<Rightarrow> row list option" where
  "scan_keys kv [] = Some []"
| "scan_keys kv (i # is) = do { r \<leftarrow> kv_rows_get i kv; rs \<leftarrow> scan_keys kv is; Some (r # rs) }"

text \<open>\<open>op_distribution\<close>: each plan goes to the node of the same index.\<close>

fun send_all :: "(bytes \<Rightarrow> operator option \<Rightarrow> row list option) \<Rightarrow> operator option list \<Rightarrow> bytes list \<Rightarrow> row list option" where
  "send_all send [] names = Some []"
| "send_all send (p # ps) [] = None"
| "send_all send (p # ps) (n # ns) = do { ret \<leftarrow> send n p; res \<leftarrow> send_all send ps ns; Some (ret @ res) }"

text \<open>\<open>exec_op\<close> of every operator; a call through a null pointer fails.\<close>

fun exec_op :: "(bytes \<Rightarrow> operator option \<Rightarrow> row list option) \<Rightarrow> operator \<Rightarrow> row list option"
  and exec_ptr :: "(bytes \<Rightarrow> operator option \<Rightarrow> row list option) \<Rightarrow> operator option \<Rightarrow> row list option"
  and exec_tables :: "(bytes \<Rightarrow> operator option \<Rightarrow> row list option) \<Rightarrow> operator option list \<Rightarrow> row list list option" where
  "exec_op send (Op_executor p) = exec_ptr send p"
| "exec_op send (Op_projection cols p) = map_option (map (project_row cols)) (exec_ptr send p)"
| "exec_op send (Op_selection c p) = Option.bind (exec_ptr send p) (select_exec c)"
| "exec_op send (Op_distribution plans names) = send_all send plans names"
| "exec_op send (Op_join tables) = Option.bind (exec_tables send tables) join_exec"
| "exec_op send (Op_tablescan db tabs par kv) = Option.bind kv (\<lambda>rows. scan_keys rows key_range)"
| "exec_ptr send None = None"
| "exec_ptr send (Some x) = exec_op send x"
| "exec_tables send [] = Some []"
| "exec_tables send (t # ts) = do { r \<leftarrow> exec_ptr send t; rs \<leftarrow> exec_tables send ts; Some (r # rs) }"

section \<open>Joins\<close>

text \<open>What a join shall give.\<close>

fun cross :: "row list list \<Rightarrow> row list" where
  "cross [] = [[]]"
| "cross (tab # tabs) = join_rows tab (cross tabs)"

lemma length_join [simp]: "length (join_rows res tab) = length res * length tab"
  by (simp add: join_rows_def length_concat comp_def sum_list_triv)

lemma length_cross: "length (cross tabs) = prod_list (map length tabs)"
  by (induction tabs) simp_all

lemma join_loop_length:
  "length (join_loop tmp tmp tabs) = length tmp * prod_list (map (\<lambda>t. 1 + length t) tabs)"
  by (induction tabs arbitrary: tmp) (simp_all add: Let_def algebra_simps)

lemma join_two: "join_exec [a, b] = Some (join_rows a b)"
  by (simp add: join_exec_def)


section \<open>Selections\<close>

text \<open>What a condition means. A column of a row is its last value of that table and name; two columns, or a column and a
  string, are compared as byte strings, a column and an integer as integers. \<open>None\<close>: the row has no such column, its
  string is not an \<open>int\<close>, or the literal is a float, to which no meaning is given here.\<close>

definition schema :: "row \<Rightarrow> (bytes \<times> bytes) list" where
  "schema r = map (\<lambda>v. (v_tab v, v_col v)) r"

definition col_key :: "ast_col \<Rightarrow> bytes \<times> bytes" where
  "col_key c = (col_tab c, col_name c)"

definition column_of :: "ast_col \<Rightarrow> row \<Rightarrow> plan_value option" where
  "column_of c r = find (\<lambda>v. (v_tab v, v_col v) = col_key c) (rev r)"

definition row_value :: "ast_col \<Rightarrow> row \<Rightarrow> bytes option" where
  "row_value c r = map_option v_str (column_of c r)"

definition op_holds :: "sv_comp_op \<Rightarrow> bool \<Rightarrow> bool \<Rightarrow> bool" where
  "op_holds cmp lt eq =
     (case cmp of
        SV_OP_EQ \<Rightarrow> eq
      | SV_OP_NE \<Rightarrow> \<not> eq
      | SV_OP_LT \<Rightarrow> lt
      | SV_OP_GT \<Rightarrow> \<not> lt \<and> \<not> eq
      | SV_OP_LE \<Rightarrow> lt \<or> eq
      | SV_OP_GE \<Rightarrow> \<not> lt)"

definition cond_value :: "binary_expr \<Rightarrow> row \<Rightarrow> bool option" where
  "cond_value c r = do {
     a \<leftarrow> row_value (be_lhs c) r;
     (case be_rhs c of
        Col x \<Rightarrow> do { b \<leftarrow> row_value x r; Some (op_holds (be_op c) (lexordp (<) a b) (a = b)) }
      | IntLit n \<Rightarrow> do { k \<leftarrow> atoi a; Some (op_holds (be_op c) (sint k < sint n) (k = n)) }
      | StringLit t \<Rightarrow> Some (op_holds (be_op c) (lexordp (<) a t) (a = t))
      | FloatLit x \<Rightarrow> None) }"

text \<open>The conditions that the selection evaluates as they are meant.\<close>

definition supported :: "binary_expr \<Rightarrow> bool" where
  "supported c \<longleftrightarrow> be_op c = SV_OP_EQ \<and> (case be_rhs c of Col x \<Rightarrow> True | IntLit n \<Rightarrow> True | _ \<Rightarrow> False)"

definition of_schema :: "(bytes \<times> bytes) list \<Rightarrow> row list \<Rightarrow> bool" where
  "of_schema sch rs \<longleftrightarrow> list_all (\<lambda>r. schema r = sch) rs"

lemma find_index_snoc:
  "find_index c (r @ [v]) i res = (if v_tab v = col_tab c \<and> v_col v = col_name c then i + length r else find_index c r i res)"
  by (induction r arbitrary: i res) simp_all

lemma row_value_snoc:
  "row_value c (r @ [v]) = (if v_tab v = col_tab c \<and> v_col v = col_name c then Some (v_str v) else row_value c r)"
  by (simp add: row_value_def column_of_def col_key_def)

lemma find_index_value:
  assumes "schema r0 = schema r" and "row_value c r = Some a"
  shows "str_at (find_index c r0 0 res) r = Some a"
proof -
  have "find_index c r0 0 res < length r \<and> Some a = Some (v_str (r ! find_index c r0 0 res))"
    using assms
  proof (induction r arbitrary: r0 rule: rev_induct)
    case Nil
    then show ?case by (simp add: row_value_def column_of_def)
  next
    case (snoc v r)
    then obtain r1 v1 where r0: "r0 = r1 @ [v1]" by (cases r0 rule: rev_cases) (simp_all add: schema_def)
    have e: "schema r1 = schema r" "v_tab v1 = v_tab v" "v_col v1 = v_col v" using snoc.prems(1) by (simp_all add: r0 schema_def)
    show ?case
    proof (cases "v_tab v = col_tab c \<and> v_col v = col_name c")
      case True
      have "length r1 = length r" using e(1) by (metis length_map schema_def)
      with True snoc.prems(2) show ?thesis by (simp add: r0 find_index_snoc e row_value_snoc)
    next
      case False
      then have "row_value c r = Some a" using snoc.prems(2) unfolding row_value_snoc by (simp split: if_splits)
      from snoc.IH [OF e(1) this] False show ?thesis by (auto simp: r0 find_index_snoc e nth_append)
    qed
  qed
  then show ?thesis by (simp add: str_at_def)
qed

lemma select_rows_filter: "\<forall>r \<in> set rs. p r = Some (q r) \<Longrightarrow> select_rows p rs = Some (filter q rs)"
  by (induction rs) auto

lemma select_exec_filter:
  assumes "rs \<noteq> []" and "of_schema sch rs" and "supported c" and "\<forall>r \<in> set rs. cond_value c r \<noteq> None"
  shows "select_exec c rs = Some (filter (\<lambda>r. cond_value c r = Some True) rs)"
proof -
  obtain r0 rest where rs: "rs = r0 # rest" using assms(1) by (cases rs) simp_all
  have at: "str_at (find_index d r0 0 0) r = Some a" if "r \<in> set rs" "row_value d r = Some a" for r d a
  proof -
    have "schema r0 = schema r" using assms(2) that(1) by (auto simp: of_schema_def list_all_iff rs)
    then show ?thesis by (rule find_index_value) (rule that(2))
  qed
  have op: "op_holds (be_op c) lt eq = eq" for lt eq using assms(3) by (simp add: supported_def op_holds_def)
  consider (col) x where "be_rhs c = Col x" | (int) n where "be_rhs c = IntLit n"
    using assms(3) by (auto simp: supported_def split: ast_expr.splits)
  then show ?thesis
  proof cases
    case col
    have "select_rows (\<lambda>r. do { a \<leftarrow> str_at (find_index (be_lhs c) r0 0 0) r; b \<leftarrow> str_at (find_index x r0 0 0) r; Some (a = b) }) rs =
        Some (filter (\<lambda>r. cond_value c r = Some True) rs)"
    proof (rule select_rows_filter, rule)
      fix r assume r: "r \<in> set rs"
      obtain a b where ab: "row_value (be_lhs c) r = Some a" "row_value x r = Some b" "cond_value c r = Some (a = b)"
        using assms(4) r by (auto simp: cond_value_def col op split: Option.bind_splits)
      show "do { a \<leftarrow> str_at (find_index (be_lhs c) r0 0 0) r; b \<leftarrow> str_at (find_index x r0 0 0) r; Some (a = b) } = Some (cond_value c r = Some True)"
        by (simp add: at [OF r ab(1)] at [OF r ab(2)] ab(3))
    qed
    then show ?thesis by (simp add: select_exec_def col rs Let_def)
  next
    case int
    have "select_rows (\<lambda>r. do { a \<leftarrow> str_at (find_index (be_lhs c) r0 0 0) r; k \<leftarrow> atoi a; Some (k = n) }) rs =
        Some (filter (\<lambda>r. cond_value c r = Some True) rs)"
    proof (rule select_rows_filter, rule)
      fix r assume r: "r \<in> set rs"
      obtain a k where ak: "row_value (be_lhs c) r = Some a" "atoi a = Some k" "cond_value c r = Some (k = n)"
        using assms(4) r by (auto simp: cond_value_def int op split: Option.bind_splits)
      show "do { a \<leftarrow> str_at (find_index (be_lhs c) r0 0 0) r; k \<leftarrow> atoi a; Some (k = n) } = Some (cond_value c r = Some True)"
        by (simp add: at [OF r ak(1)] ak(2,3))
    qed
    then show ?thesis by (simp add: select_exec_def int rs Let_def)
  qed
qed

lemma join_schema: "of_schema s1 a \<Longrightarrow> of_schema s2 b \<Longrightarrow> of_schema (s1 @ s2) (join_rows a b)"
  by (auto simp: of_schema_def list_all_iff join_rows_def schema_def)

section \<open>Projections\<close>

text \<open>What a projection means: the values of the wanted columns, in the order in which they are wanted.\<close>

definition columns :: "ast_col list \<Rightarrow> row \<Rightarrow> row" where
  "columns cols r = map (\<lambda>c. the (column_of c r)) cols"

text \<open>The projection compares only names and keeps the order of the row, so it does this if the columns are wanted in the
  order of the row, no name twice, and no other column of the row has the name of one of them.\<close>

definition plain_choice :: "ast_col list \<Rightarrow> (bytes \<times> bytes) list \<Rightarrow> bool" where
  "plain_choice cols sch \<longleftrightarrow> distinct (map col_name cols) \<and> [k \<leftarrow> sch. snd k \<in> col_name ` set cols] = map col_key cols"

lemma one_match: "distinct (map f xs) \<Longrightarrow> map (\<lambda>_. v) (filter (\<lambda>x. y = f x) xs) = (if y \<in> f ` set xs then [v] else [])"
  by (induction xs) auto

lemma project_row_filter:
  assumes "distinct (map col_name cols)"
  shows "project_row cols r = [v \<leftarrow> r. v_col v \<in> col_name ` set cols]"
  by (induction r) (simp_all add: project_row_def one_match [OF assms])

lemma find_rev_unique:
  assumes "v \<in> set r" and "P v" and "\<And>w. w \<in> set r \<Longrightarrow> P w \<Longrightarrow> w = v"
  shows "find P (rev r) = Some v"
proof (cases "find P (rev r)")
  case None
  then show ?thesis using assms(1,2) by (simp add: find_None_iff)
next
  case (Some w)
  then have "P w" "w \<in> set r" by (auto simp: find_Some_iff) (metis nth_mem set_rev length_rev)
  then show ?thesis using Some assms(3) by simp
qed

lemma project_row_columns:
  assumes "plain_choice cols (schema r)"
  shows "project_row cols r = columns cols r"
proof -
  let ?f = "[v \<leftarrow> r. v_col v \<in> col_name ` set cols]" and ?k = "\<lambda>v. (v_tab v, v_col v)"
  have d: "distinct (map col_name cols)" using assms by (simp add: plain_choice_def)
  have "[k \<leftarrow> schema r. snd k \<in> col_name ` set cols] = map ?k ?f" by (simp add: schema_def filter_map comp_def)
  then have k: "map ?k ?f = map col_key cols" using assms by (simp add: plain_choice_def)
  have "map snd (map col_key cols) = map col_name cols" by (simp add: col_key_def comp_def)
  then have dk: "distinct (map ?k ?f)" using d unfolding k by (metis distinct_map)
  have l: "length ?f = length cols" using arg_cong [OF k, of length] by simp
  have "?f = columns cols r"
  proof (rule nth_equalityI)
    fix i assume i: "i < length ?f"
    have e: "?k (?f ! i) = col_key (cols ! i)" using arg_cong [OF k, of "\<lambda>xs. xs ! i"] i l by simp
    have "column_of (cols ! i) r = Some (?f ! i)"
      unfolding column_of_def
    proof (rule find_rev_unique)
      have m: "?f ! i \<in> set ?f" using i by (rule nth_mem)
      then show "?f ! i \<in> set r" by simp
      show "?k (?f ! i) = col_key (cols ! i)" by (rule e)
      fix w assume w: "w \<in> set r" "?k w = col_key (cols ! i)"
      have "col_name (cols ! i) \<in> col_name ` set cols" using i l by simp
      then have "w \<in> set ?f" using w by (simp add: col_key_def)
      moreover have "inj_on ?k (set ?f)" using dk by (simp only: distinct_map)
      moreover have "?k w = ?k (?f ! i)" by (rule trans [OF w(2) e [symmetric]])
      ultimately show "w = ?f ! i" using inj_onD [of ?k "set ?f" w "?f ! i"] m by blast
    qed
    then show "?f ! i = columns cols r ! i" using i l by (simp add: columns_def)
  qed (simp add: columns_def l)
  then show ?thesis by (simp add: project_row_filter [OF d])
qed

section \<open>Properties\<close>

text \<open>C40. A query over two inputs computes the projection of the selection of their product. A plan that projects a
  selection from a join of two operators gives exactly the wanted columns of the rows of the product for which the
  condition is true, in order. This is so if both inputs have rows, all of one schema each, the condition is an equality
  with a column or an integer and has a value on every row, and the columns are wanted in the order of the product, no
  name twice, where no other column of the product has one of their names.\<close>

theorem two_table_query:
  assumes "exec_op send p = Some a" and "exec_op send q = Some b" and "a \<noteq> []" and "b \<noteq> []"
    and "of_schema s1 a" and "of_schema s2 b" and "supported c"
    and "\<forall>r \<in> set a. \<forall>s \<in> set b. cond_value c (r @ s) \<noteq> None" and "plain_choice cols (s1 @ s2)"
  shows "exec_op send (Op_projection cols (Some (Op_selection c (Some (Op_join [Some p, Some q]))))) =
    Some (map (columns cols) (filter (\<lambda>r. cond_value c r = Some True) [r @ s. r \<leftarrow> a, s \<leftarrow> b]))"
proof -
  have j: "join_rows a b \<noteq> []" using assms(3,4) length_join [of a b] by (metis length_0_conv mult_eq_0_iff)
  have e: "[r @ s. r \<leftarrow> a, s \<leftarrow> b] = join_rows a b" by (simp add: join_rows_def)
  have v: "\<forall>r \<in> set (join_rows a b). cond_value c r \<noteq> None" using assms(8) by (auto simp: join_rows_def)
  note sch = join_schema [OF assms(5,6)]
  have "map (project_row cols) (filter (\<lambda>r. cond_value c r = Some True) (join_rows a b)) =
      map (columns cols) (filter (\<lambda>r. cond_value c r = Some True) (join_rows a b))"
    using sch assms(9) by (intro map_cong refl project_row_columns) (simp add: of_schema_def list_all_iff)
  then show ?thesis
    using select_exec_filter [OF j sch assms(7) v] assms(1,2) e by (simp add: join_two)
qed

text \<open>Two tables of two rows.\<close>

definition demo_value :: "bytes \<Rightarrow> bytes \<Rightarrow> bytes \<Rightarrow> plan_value" where
  "demo_value tab col str = \<lparr>v_type = Character_value, v_col = col, v_tab = tab, v_str = str, v_len = 1\<rparr>"

definition demo_rows :: "bytes \<Rightarrow> kv_rows" where
  "demo_rows tab = [[demo_value tab (1 # tab) [50], demo_value tab (2 # tab) [60]], [demo_value tab (1 # tab) [51], demo_value tab (2 # tab) [61]]]"

definition demo_scan :: "bytes \<Rightarrow> operator" where
  "demo_scan tab = Op_tablescan [0] tab 0 (Some (demo_rows tab))"

definition demo_cond :: "sv_comp_op \<Rightarrow> binary_expr" where
  "demo_cond cmp = \<lparr>be_lhs = \<lparr>col_tab = [7], col_name = [1, 7]\<rparr>, be_op = cmp, be_rhs = Col \<lparr>col_tab = [8], col_name = [1, 8]\<rparr>\<rparr>"

lemma demo_scan_rows: "exec_op send (demo_scan tab) = Some (demo_rows tab)"
  by (simp add: demo_scan_def demo_rows_def key_range_def kv_rows_get_def)

definition demo_columns :: "ast_col list" where
  "demo_columns = [\<lparr>col_tab = [7], col_name = [2, 7]\<rparr>, \<lparr>col_tab = [8], col_name = [2, 8]\<rparr>]"

theorem two_table_query_witness:
  "exec_op (\<lambda>_ _. None) (Op_projection demo_columns (Some (Op_selection (demo_cond SV_OP_EQ) (Some (Op_join [Some (demo_scan [7]), Some (demo_scan [8])]))))) =
    Some [[demo_value [7] [2, 7] [60], demo_value [8] [2, 8] [60]], [demo_value [7] [2, 7] [61], demo_value [8] [2, 8] [61]]]"
proof -
  have "\<forall>r \<in> set (demo_rows [7]). \<forall>s \<in> set (demo_rows [8]). cond_value (demo_cond SV_OP_EQ) (r @ s) \<noteq> None"
    "of_schema [([7], [1, 7]), ([7], [2, 7])] (demo_rows [7])" "of_schema [([8], [1, 8]), ([8], [2, 8])] (demo_rows [8])"
    "demo_rows [7] \<noteq> []" "demo_rows [8] \<noteq> []" "supported (demo_cond SV_OP_EQ)"
    "plain_choice demo_columns ([([7], [1, 7]), ([7], [2, 7])] @ [([8], [1, 8]), ([8], [2, 8])])"
    by code_simp+
  note q = two_table_query [OF demo_scan_rows demo_scan_rows this(4,5,2,3,6,1,7), of "\<lambda>_ _. None"]
  have "map (columns demo_columns) (filter (\<lambda>r. cond_value (demo_cond SV_OP_EQ) r = Some True) [r @ s. r \<leftarrow> demo_rows [7], s \<leftarrow> demo_rows [8]]) =
      [[demo_value [7] [2, 7] [60], demo_value [8] [2, 8] [60]], [demo_value [7] [2, 7] [61], demo_value [8] [2, 8] [61]]]"
    by code_simp
  with q show ?thesis by simp
qed

text \<open>The operator of a condition is not looked at: a selection with \<open>SV_OP_LT\<close> gives the rows where the values are
  equal, for which the condition is false, and leaves out the one for which it is true. And a condition with a string
  selects nothing.\<close>

lemma select_ignores_operator: "select_exec (c\<lparr>be_op := cmp\<rparr>) rs = select_exec c rs"
  by (cases "be_rhs c"; cases rs) (simp_all add: select_exec_def Let_def)

lemma less_than_selects_equal:
  "\<exists>rs. exec_op send (Op_selection (demo_cond SV_OP_LT) (Some (Op_join [Some (demo_scan [7]), Some (demo_scan [8])]))) = Some rs \<and>
    map (cond_value (demo_cond SV_OP_LT)) rs = [Some False, Some False] \<and>
    map (cond_value (demo_cond SV_OP_LT)) (join_rows (demo_rows [7]) (demo_rows [8])) = [Some False, Some True, Some False, Some False]"
proof -
  obtain rs where rs: "select_exec (demo_cond SV_OP_LT) (join_rows (demo_rows [7]) (demo_rows [8])) = Some rs"
    "map (cond_value (demo_cond SV_OP_LT)) rs = [Some False, Some False]"
    "map (cond_value (demo_cond SV_OP_LT)) (join_rows (demo_rows [7]) (demo_rows [8])) = [Some False, Some True, Some False, Some False]"
  proof
    show "select_exec (demo_cond SV_OP_LT) (join_rows (demo_rows [7]) (demo_rows [8])) =
        Some [demo_rows [7] ! 0 @ demo_rows [8] ! 0, demo_rows [7] ! 1 @ demo_rows [8] ! 1]" by code_simp
    show "map (cond_value (demo_cond SV_OP_LT)) [demo_rows [7] ! 0 @ demo_rows [8] ! 0, demo_rows [7] ! 1 @ demo_rows [8] ! 1] = [Some False, Some False]"
      by code_simp
    show "map (cond_value (demo_cond SV_OP_LT)) (join_rows (demo_rows [7]) (demo_rows [8])) = [Some False, Some True, Some False, Some False]"
      by code_simp
  qed
  then show ?thesis by (simp add: demo_scan_rows join_two)
qed

lemma string_selects_nothing: "be_rhs c = StringLit t \<Longrightarrow> select_exec c rs = Some []"
  by (simp add: select_exec_def)

text \<open>A join of more than two tables gives too many rows: because \<open>tmp\<close> is not cleared, each further table adds
  its products to the rows without it, so for non-empty tables the number of rows is the product of the first
  two sizes and of the other sizes plus one, where the product of all tables has the product of all sizes.\<close>

theorem join_keeps_partial_rows:
  assumes "exec_tables send tables = Some (a # b # rest)"
  shows "\<exists>res. exec_op send (Op_join tables) = Some res \<and>
    length res = length a * length b * prod_list (map (\<lambda>t. 1 + length t) rest) \<and>
    length (cross (a # b # rest)) = length a * length b * prod_list (map length rest)"
  using assms by (simp add: join_exec_def join_loop_length Let_def length_cross)

theorem join_keeps_partial_rows_witness:
  "\<exists>res. exec_op (\<lambda>_ _. None) (Op_join [Some (demo_scan [7]), Some (demo_scan [8]), Some (demo_scan [9])]) = Some res \<and> length res = 12 \<and>
    length (cross [demo_rows [7], demo_rows [8], demo_rows [9]]) = 8"
proof -
  have "exec_tables (\<lambda>_ _. None) [Some (demo_scan [7]), Some (demo_scan [8]), Some (demo_scan [9])] = Some [demo_rows [7], demo_rows [8], demo_rows [9]]"
    by (simp add: demo_scan_rows)
  note j = join_keeps_partial_rows [OF this]
  have "length (demo_rows [7]) * length (demo_rows [8]) * prod_list (map (\<lambda>t. 1 + length t) [demo_rows [9]]) = 12"
    "length (demo_rows [7]) * length (demo_rows [8]) * prod_list (map length [demo_rows [9]]) = 8"
    by (simp_all add: demo_rows_def)
  with j show ?thesis by (simp only:)
qed

end
