(* ===== verification/Spec2Isabelle.thy ===== *)
theory Spec2Isabelle
  imports FaultTolerance Caches KVConcurrent RemotePlan OldStore ReleaseLocks Recovery MetaPlacement MetaCodec QueryPlans
begin

text \<open>
  A verification library for DDBMS, a distributed key-value database in C++.

  The program. A node stores pairs in an LSM store: a skip list in memory, flushed to table files made of compressed
  blocks. Transactions lock data in three granularities (table, partition, row), write the log before the store, and
  are recovered by redo and undo from the log. A meta server keeps where the partitions of each table and their replicas are,
  and hands out timestamps, which are the identifiers of transactions. A node gets insertions as remote plans, and has a
  set of operators for queries. A second node can take over as coordinator of a transaction.

  The theories, from the bottom, with the code under \<open>src/\<close> that each models.

  \<^item> \<open>Prelude\<close>: byte strings, little-endian images, reads that can be out of range, decimal names, sorted
    association lists. It also states the conventions: \<open>None\<close> is undefined behaviour, a failed assertion, an
    exception that nobody catches, or a call that never returns.
  \<^item> \<open>SkipList\<close> (\<open>SkipList.h\<close>, \<open>SkipList.cpp\<close>): nodes in a heap, one record per class, one definition per method; the
    random level is an argument. Put and del keep the list well formed at every level. \<open>Iterators\<close> is the
    contract of an ordered iterator (\<open>Iterator.h\<close>), \<open>SkipListIterator\<close> its proof for the skip list. \<open>Memtable\<close> is the contract
    of the memtable, interpreted on the skip list, with the destructor.
  \<^item> \<open>BlockFormat\<close> (\<open>BlockBuilder\<close>, \<open>Block\<close>) and \<open>TableFile\<close> (\<open>TableBuilder\<close>, \<open>SSTable\<close>): writers and readers of blocks and
    table files, with round trips. \<open>LevelStore\<close> (\<open>SSTableId\<close>, \<open>LevelZero\<close>, \<open>DiskStorage\<close>): the files of a directory. \<open>Caches\<close>
    (\<open>TableCache\<close>, \<open>BlockCache\<close>): lists with iterators, least recently used.
  \<^item> \<open>KVStore\<close> (\<open>KVStore_beta\<close>): memtable and disk together, refined to two association lists (\<open>kv_rep\<close>, \<open>kv_abs\<close>).
    \<open>KVConcurrent\<close>: its calls from several threads, interleaved where they give up the mutex: the search of the disk is
    one step per table, and a flush while some call searches is a data race, with no state after it.
    \<open>OldStore\<close> (\<open>KVStore.h\<close>, \<open>KVStore.cpp\<close>) is the class that it replaced.
  \<^item> \<open>Txn\<close> (\<open>txn.h\<close>, \<open>Transaction.h\<close>): transactions, lock modes, write records, reasons of aborts. \<open>LockManager\<close>
    (\<open>Lock_manager.h\<close>, \<open>Lock_manager.cpp\<close>): every call up to the point where it returns or sleeps, and every wake-up.
    \<open>LockSystem\<close>: all interleavings of such steps, with the invariant \<open>sys_ok\<close> in all reachable states, so compatible locks and
    two phases. \<open>LockOutcomes\<close>: what each call answers, branch by branch. \<open>ReleaseLocks\<close>
    (\<open>TransactionManager::ReleaseLocks\<close>) as a run of unlock calls.
  \<^item> \<open>LogRecord\<close> (\<open>log_record.h\<close>), \<open>LogManager\<close> (\<open>LogStorage.h\<close>, \<open>log_manager.h\<close>, \<open>log_manager.cpp\<close>): records and their images; the
    two buffers, the flush thread and flush requests as steps. \<open>TxnStore\<close> (\<open>KVStore_new.h\<close>, \<open>TransactionManager::Begin\<close>):
    writes of transactions over store and log; a logged deletion of a key that is in the memtable is \<open>None\<close>, because the code
    passes a pointer into a destroyed string to the log. \<open>Recovery\<close> (\<open>recovery_manager.h\<close>, \<open>recovery_manager.cpp\<close>): redo and undo on a
    store that is attached to the manager, which its constructor leaves without one.
  \<^item> \<open>RemotePlan\<close> (\<open>execution_rpc.cpp\<close>): the handler of a plan over lock manager, log and store.
    \<open>QueryPlans\<close> (\<open>planner.h\<close>, \<open>ast.h\<close>): the operators of queries.
  \<^item> \<open>Timestamp\<close> (\<open>timestamp.h\<close>): the oracle, with the second read of its clock outside the mutex. \<open>MetaServer\<close> (\<open>meta_server.h\<close>, \<open>meta_server.cpp\<close>, \<open>table_location.h\<close>,
    \<open>partition_location.h\<close>, \<open>meta_server_rpc.h\<close>, \<open>meta_server_rpc.cpp\<close>): metadata, lookups, handlers. \<open>MetaState\<close>: reachable metadata and what
    lookups answer. \<open>MetaPlacement\<close>: the placement of replicas. \<open>MetaCodec\<close>: the file of the metadata.
  \<^item> \<open>FaultTolerance\<close> (\<open>coordinator_backup.h\<close>, \<open>coordinator.cpp\<close>): prepare results, transactions taken over.

  What the lemma groups show, from component to whole. Each data structure refines a value: skip list, block and table file
  an association list, the disk a list of tables, the store a pair of these, a cache a list of at most ten entries.
  Calls of several threads on the store answer like atomic ones in the runs that are free of races. The log is complete, in order
  and durable after a flush, and replaying it gives the store; from this follow crash recovery and rollback, if a store
  is attached and the log fits the windows in which recovery reads it. The lock system grants only compatible locks, in
  two phases, and the lock sets of transactions that do not sleep agree with the grants; its calls answer as specified. A remote plan composes all of these. The metadata stays well formed under handlers that run one after the
  other, the lookups find what they shall, and the counters of leaders count the leaders that were placed. Several properties state what the code does and does not mean to do: a deleted key
  reappears, a lookup spoils a database, a partitioned table needs as many replicas as nodes or a negative number, a refused
  lock does not keep a plan from writing. The lemmas beside them show more of this kind.

  Interfaces, each a locale interpreted on the definitions of the code. \<open>memtable\<close> (\<open>Memtable\<close>): the ordered map that the store and the
  table writer use. \<open>forward_iterator\<close> and \<open>bidirectional_iterator\<close> (\<open>Iterators\<close>): iterators of memtable and blocks. \<open>disk_store\<close>
  (\<open>LevelStore\<close>): a disk that tables are added to. \<open>kv_engine\<close> (\<open>KVStore\<close>): a store on which operations are run and replayed.
  \<open>lock_discipline\<close> (\<open>LockManager\<close>): a compatibility check under which grants are safe. \<open>log_store\<close> (\<open>LogManager\<close>): the log
  file. \<open>codec\<close> (\<open>MetaCodec\<close>): a writer with its reader, for each part of the metadata.

  Bounds and steps. Loops over pointers and buffers are \<open>partial_function (option)\<close>, so that their return is part of each
  theorem; the others are total. There is no fuel in a definition but the number of steps \<open>j\<close> that the flush thread makes while
  \<open>AppendLogRecord\<close> sleeps: five are enough for a record that fits into the buffer (\<open>append_call_returns\<close>), seven for a flush
  request. Sizes are \<open>uint64_t\<close> or \<open>int32_t\<close> with their wrap-around; the side conditions that a memtable holds
  less than \<open>2 ^ 48\<close> bytes (\<open>small\<close>, \<open>kv_fits\<close>) and records less than \<open>2 ^ 31\<close> say where it does not occur.

  Parameters. \<open>snap\<close> and \<open>unsnap\<close> are the snappy library, with the law \<open>snappy_ok\<close>. \<open>ones\<close> are draws of the
  random engine, the clock of the oracle and the iteration orders of unordered containers are arguments, and so is \<open>send_plan\<close>, which the
  repository only declares.

  Not modelled. The bodies of \<open>Abort\<close>, \<open>Commit\<close> and \<open>PrepareCommit\<close> and the handlers of \<open>transaction_manager_rpc.h\<close> and
  \<open>participant.h\<close> are stubs. Remote clients and servers, \<open>main\<close>, examples, benchmarks and tests are network and set-up code.
  \<open>LRUReplacer\<close> and parts of \<open>SSTable.cpp\<close> and \<open>KVStore.cpp\<close> are declared without code or commented out. The classes of \<open>ast.h\<close> that no
  operator uses are plain constructors. I/O errors other than missing files, and memory that runs out, are
  left out. The transactional calls on the store are sequential, and so are the handlers of the meta server, although
  some of them take no lock or release it early.
\<close>

end
